(* ===== verification/Prelude.thy ===== *)
theory Prelude
  imports Main "HOL-Library.Word" "HOL-Library.Monad_Syntax" "HOL-Library.Multiset"
begin

text \<open>
  What the component theories share: names for the C integer types, faults as \<^term>\<open>None\<close>,
  allocation outcomes, optional heads and lasts of lists, and segments of doubly linked
  nodes in an explicit store.

  Conventions of the development.
  \<^item> A value of type \<open>'a option\<close> returned by a step over an explicit store is \<^term>\<open>None\<close> exactly
    where the C code dereferences an invalid pointer or fails an \<^verbatim>\<open>assert\<close>.
  \<^item> A NULL pointer is \<^term>\<open>None\<close> of type \<open>addr option\<close>.
  \<^item> What the next calls of \<^verbatim>\<open>malloc\<close>, \<^verbatim>\<open>calloc\<close> and \<^verbatim>\<open>realloc\<close> return is an argument, a list of
    optional addresses consumed from the front; past its end every allocation returns NULL.
\<close>

unbundle bit_operations_syntax

type_synonym u8 = "8 word"
type_synonym u16 = "16 word"
type_synonym u32 = "32 word"
type_synonym u64 = "64 word"
type_synonym addr = nat

section \<open>Faults and allocation\<close>

text \<open>An \<^verbatim>\<open>assert\<close> of the code: execution goes on only when the condition holds.\<close>

definition c_assert :: "bool \<Rightarrow> unit option" where
  "c_assert b = (if b then Some () else None)"

lemma c_assert_simps [simp]:
  "c_assert True = Some ()"
  "c_assert False = None"
  by (simp_all add: c_assert_def)

lemma c_assert_Some_iff [simp]: "c_assert b = Some u \<longleftrightarrow> b"
  by (simp add: c_assert_def)

type_synonym allocs = "addr option list"

fun c_alloc :: "allocs \<Rightarrow> addr option \<times> allocs" where
  "c_alloc [] = (None, [])"
| "c_alloc (a # mm) = (a, mm)"

section \<open>Lists\<close>

text \<open>The first element, or what follows the list; the last element, or what precedes it.\<close>

definition hd_or :: "'a list \<Rightarrow> 'a option \<Rightarrow> 'a option" where
  "hd_or xs n = (case xs of [] \<Rightarrow> n | x # _ \<Rightarrow> Some x)"

definition last_or :: "'a option \<Rightarrow> 'a list \<Rightarrow> 'a option" where
  "last_or p xs = (if xs = [] then p else Some (last xs))"

lemma hd_or_simps [simp]:
  "hd_or [] n = n"
  "hd_or (x # xs) n = Some x"
  by (simp_all add: hd_or_def)

lemma hd_or_append [simp]: "hd_or (xs @ ys) n = hd_or xs (hd_or ys n)"
  by (cases xs) simp_all

lemma last_or_simps [simp]:
  "last_or p [] = p"
  "last_or p (x # xs) = last_or (Some x) xs"
  "last_or p (xs @ ys) = last_or (last_or p xs) ys"
  by (simp_all add: last_or_def)

lemma hd_or_eq_None_iff [simp]: "hd_or xs None = None \<longleftrightarrow> xs = []"
  by (cases xs) simp_all

lemma last_or_eq_None_iff [simp]: "last_or None xs = None \<longleftrightarrow> xs = []"
  by (simp add: last_or_def)

lemma last_or_SomeD: "last_or None xs = Some p \<Longrightarrow> \<exists>ys. xs = ys @ [p]"
  by (cases xs rule: rev_cases) simp_all

lemma hd_or_SomeD: "hd_or xs None = Some p \<Longrightarrow> \<exists>ys. xs = p # ys"
  by (cases xs) simp_all

lemma find_SomeD: "find P xs = Some x \<Longrightarrow> x \<in> set xs \<and> P x"
  by (induction xs) (auto split: if_splits)

lemma nth_hd_or: "i < length xs \<Longrightarrow> hd_or (drop i xs) n = Some (xs ! i)"
  by (simp add: Cons_nth_drop_Suc [symmetric])

section \<open>C strings\<close>

text \<open>
  A string is the list of its bytes up to, and without, the terminating zero; where a list has a
  zero byte the string ends there.  \<^verbatim>\<open>strcmp\<close> compares unsigned bytes; only the sign of its result is
  specified by the language, and nothing below depends on more than the sign.
\<close>

definition c_str :: "u8 list \<Rightarrow> u8 list" where
  "c_str cs = takeWhile (\<lambda>c. c \<noteq> 0) cs"

fun c_strcmp :: "u8 list \<Rightarrow> u8 list \<Rightarrow> int" where
  "c_strcmp [] [] = 0"
| "c_strcmp [] (b # bs) = - uint b"
| "c_strcmp (a # as) [] = uint a"
| "c_strcmp (a # as) (b # bs) =
     (if a \<noteq> b then uint a - uint b else if a = 0 then 0 else c_strcmp as bs)"

lemma c_str_simps [simp]:
  "c_str [] = []" "c_str (c # cs) = (if c = 0 then [] else c # c_str cs)"
  by (simp_all add: c_str_def)

lemma c_str_idem [simp]: "c_str (c_str cs) = c_str cs"
  by (induction cs) simp_all

lemma c_str_id: "0 \<notin> set cs \<Longrightarrow> c_str cs = cs"
  by (induction cs) auto

lemma c_str_no_zero [simp]: "0 \<notin> set (c_str cs)"
  by (induction cs) auto

lemma c_str_append: "c_str (as @ bs) = (if 0 \<in> set as then c_str as else as @ c_str bs)"
  by (induction as) auto

lemma c_str_prefix: "0 \<in> set (take n cs) \<Longrightarrow> c_str cs = c_str (take n cs)"
  using c_str_append [of "take n cs" "drop n cs"] by simp

lemma c_str_at:
  assumes "n < length cs" and "cs ! n = 0" and "0 \<notin> set (take n cs)"
  shows "c_str cs = take n cs"
proof -
  have "c_str cs = c_str (take n cs @ cs ! n # drop (Suc n) cs)"
    using assms(1) by (simp only: id_take_nth_drop [symmetric])
  with assms(2,3) show ?thesis by (simp add: c_str_append)
qed

lemma uint_inj [simp]: "uint a = uint b \<longleftrightarrow> a = b"
  by (rule word_eq_iff_unsigned [symmetric])

lemma c_strcmp_eq_0 [simp]: "c_strcmp as bs = 0 \<longleftrightarrow> c_str as = c_str bs"
  by (induction as bs rule: c_strcmp.induct) (auto simp: uint_0_iff)

lemma c_strcmp_antisym: "c_strcmp bs as = - c_strcmp as bs"
  by (induction as bs rule: c_strcmp.induct) auto

section \<open>Doubly linked nodes in a store\<close>

text \<open>
  \<^verbatim>\<open>dt_list_t\<close> and \<^verbatim>\<open>dt_hentry_t\<close> are both a pair of pointers, one to the previous and one to the
  next node, embedded in the elements they link.
\<close>

record link =
  lk_prev :: "addr option"
  lk_next :: "addr option"

type_synonym links = "addr \<rightharpoonup> link"

definition get_prev :: "links \<Rightarrow> addr \<Rightarrow> addr option option" where
  "get_prev h p = map_option lk_prev (h p)"

definition get_next :: "links \<Rightarrow> addr \<Rightarrow> addr option option" where
  "get_next h p = map_option lk_next (h p)"

definition set_prev :: "links \<Rightarrow> addr \<Rightarrow> addr option \<Rightarrow> links option" where
  "set_prev h p v = map_option (\<lambda>l. h(p \<mapsto> l\<lparr>lk_prev := v\<rparr>)) (h p)"

definition set_next :: "links \<Rightarrow> addr \<Rightarrow> addr option \<Rightarrow> links option" where
  "set_next h p v = map_option (\<lambda>l. h(p \<mapsto> l\<lparr>lk_next := v\<rparr>)) (h p)"

lemmas link_access = get_prev_def get_next_def set_prev_def set_next_def

text \<open>
  \<open>seg h p xs n\<close>: the nodes \<open>xs\<close> are linked in this order, the first one's previous node is \<open>p\<close> and
  the last one's next node is \<open>n\<close>.
\<close>

fun seg :: "links \<Rightarrow> addr option \<Rightarrow> addr list \<Rightarrow> addr option \<Rightarrow> bool" where
  "seg h p [] n \<longleftrightarrow> True"
| "seg h p (x # xs) n \<longleftrightarrow>
     h x = Some \<lparr>lk_prev = p, lk_next = hd_or xs n\<rparr> \<and> seg h (Some x) xs n"

lemma seg_append [simp]:
  "seg h p (xs @ ys) n \<longleftrightarrow> seg h p xs (hd_or ys n) \<and> seg h (last_or p xs) ys n"
  by (induction xs arbitrary: p) auto

lemma seg_upd_other [simp]: "x \<notin> set xs \<Longrightarrow> seg (h(x := v)) p xs n \<longleftrightarrow> seg h p xs n"
  by (induction xs arbitrary: p) auto

lemma seg_cong: "(\<And>x. x \<in> set xs \<Longrightarrow> h x = h' x) \<Longrightarrow> seg h p xs n \<longleftrightarrow> seg h' p xs n"
  by (induction xs arbitrary: p) auto

lemma seg_dom: "seg h p xs n \<Longrightarrow> x \<in> set xs \<Longrightarrow> \<exists>l. h x = Some l"
  by (induction xs arbitrary: p) auto

lemma seg_next: "seg h p xs n \<Longrightarrow> i < length xs \<Longrightarrow>
  get_next h (xs ! i) = Some (hd_or (drop (Suc i) xs) n)"
proof (induction xs arbitrary: p i)
  case Nil
  then show ?case by simp
next
  case (Cons x xs)
  show ?case
  proof (cases i)
    case 0
    with Cons.prems show ?thesis by (simp add: get_next_def)
  next
    case (Suc j)
    with Cons.prems Cons.IH [of "Some x" j] show ?thesis by simp
  qed
qed

end
