(* ===== verification/DtList.thy ===== *)
theory DtList
  imports Prelude
begin

text \<open>
  The intrusive doubly linked list of \<^verbatim>\<open>libcommon/dt_list.c\<close>.  The list header is a \<^verbatim>\<open>dt_list_t\<close> too:
  its next pointer is the head of the list and its previous pointer the tail.  All operations
  work on one store of nodes, in the order of the code's assignments, so aliasing of the header,
  the elements and the new node is part of the model.

  \<open>dl_rep h dlp xs\<close> is the abstraction: the header at \<open>dlp\<close> heads exactly the elements \<open>xs\<close>.  The
  lemmas show that each operation refines the list operation it is named after, and that the
  operations neither fault nor fail their assertions on a well-formed list.
\<close>

section \<open>Operations\<close>

type_synonym dt_list = link

definition dt_list_append :: "links \<Rightarrow> addr \<Rightarrow> addr \<Rightarrow> links option" where
  "dt_list_append h dlp new = do {
     p \<leftarrow> get_prev h dlp;
     h \<leftarrow> set_prev h dlp (Some new);
     h \<leftarrow> set_prev h new p;
     h \<leftarrow> set_next h new None;
     (case p of
        Some p \<Rightarrow> do {
          n \<leftarrow> get_next h p;
          c_assert (n = None);
          set_next h p (Some new)
        }
      | None \<Rightarrow> do {
          n \<leftarrow> get_next h dlp;
          c_assert (n = None);
          set_next h dlp (Some new)
        })
   }"

definition dt_list_prepend :: "links \<Rightarrow> addr \<Rightarrow> addr \<Rightarrow> links option" where
  "dt_list_prepend h dlp new = do {
     q \<leftarrow> get_next h dlp;
     h \<leftarrow> set_next h dlp (Some new);
     h \<leftarrow> set_prev h new None;
     h \<leftarrow> set_next h new q;
     (case q of
        Some q \<Rightarrow> do {
          n \<leftarrow> get_prev h q;
          c_assert (n = None);
          set_prev h q (Some new)
        }
      | None \<Rightarrow> do {
          n \<leftarrow> get_prev h dlp;
          c_assert (n = None);
          set_prev h dlp (Some new)
        })
   }"

definition dt_list_insert :: "links \<Rightarrow> addr \<Rightarrow> addr option \<Rightarrow> addr \<Rightarrow> links option" where
  "dt_list_insert h dlp after_me new =
     (case after_me of
        None \<Rightarrow> dt_list_append h dlp new
      | Some p \<Rightarrow> do {
          n \<leftarrow> get_next h p;
          (case n of
             None \<Rightarrow> dt_list_append h dlp new
           | Some _ \<Rightarrow> do {
               h \<leftarrow> set_next h new n;
               h \<leftarrow> set_prev h new (Some p);
               h \<leftarrow> set_next h p (Some new);
               n \<leftarrow> get_next h new;
               q \<leftarrow> n;
               set_prev h q (Some new)
             })
        })"

definition dt_list_delete :: "links \<Rightarrow> addr \<Rightarrow> addr \<Rightarrow> links option" where
  "dt_list_delete h dlp p = do {
     pp \<leftarrow> get_prev h p;
     pn \<leftarrow> get_next h p;
     h \<leftarrow> (case pp of
             Some q \<Rightarrow> set_next h q pn
           | None \<Rightarrow> set_next h dlp pn);
     pp \<leftarrow> get_prev h p;
     pn \<leftarrow> get_next h p;
     (case pn of
        Some q \<Rightarrow> set_prev h q pp
      | None \<Rightarrow> set_prev h dlp pp)
   }"

text \<open>The counting loop: it does not return on a cyclic list.\<close>

partial_function (option) dt_list_count :: "links \<Rightarrow> addr option \<Rightarrow> nat \<Rightarrow> nat option" where
  "dt_list_count h p len =
     (case p of
        None \<Rightarrow> Some len
      | Some p \<Rightarrow> do {
          n \<leftarrow> get_next h p;
          dt_list_count h n (Suc len)
        })"

definition dt_list_length :: "links \<Rightarrow> addr \<Rightarrow> nat option" where
  "dt_list_length h dlp = do {
     p \<leftarrow> get_next h dlp;
     dt_list_count h p 0
   }"

definition dt_in_list :: "links \<Rightarrow> addr \<Rightarrow> addr \<Rightarrow> bool option" where
  "dt_in_list h l e = do {
     n \<leftarrow> get_next h l;
     if n = Some e then Some True
     else do {
       p \<leftarrow> get_prev h e;
       Some (p \<noteq> None)
     }
   }"

section \<open>What the operations mean\<close>

definition dl_rep :: "links \<Rightarrow> addr \<Rightarrow> addr list \<Rightarrow> bool" where
  "dl_rep h dlp xs \<longleftrightarrow> distinct (dlp # xs) \<and>
     h dlp = Some \<lparr>lk_prev = last_or None xs, lk_next = hd_or xs None\<rparr> \<and> seg h None xs None"

lemma dl_rep_append:
  assumes "dl_rep h dlp xs" and "new \<notin> set (dlp # xs)" and "new \<in> dom h"
  shows "\<exists>h'. dt_list_append h dlp new = Some h' \<and> dl_rep h' dlp (xs @ [new])
           \<and> (\<forall>a. a \<notin> set (dlp # new # xs) \<longrightarrow> h' a = h a)"
proof (cases xs rule: rev_cases)
  case Nil
  with assms show ?thesis
    by (auto simp: dl_rep_def dt_list_append_def link_access)
next
  case (snoc ys y)
  with assms show ?thesis
    by (auto simp: dl_rep_def dt_list_append_def link_access)
qed

lemma dl_rep_prepend:
  assumes "dl_rep h dlp xs" and "new \<notin> set (dlp # xs)" and "new \<in> dom h"
  shows "\<exists>h'. dt_list_prepend h dlp new = Some h' \<and> dl_rep h' dlp (new # xs)
           \<and> (\<forall>a. a \<notin> set (dlp # new # xs) \<longrightarrow> h' a = h a)"
proof (cases xs)
  case Nil
  with assms show ?thesis
    by (auto simp: dl_rep_def dt_list_prepend_def link_access)
next
  case (Cons y ys)
  with assms show ?thesis
    by (auto simp: dl_rep_def dt_list_prepend_def link_access)
qed

lemma dl_rep_insert:
  assumes "dl_rep h dlp (xs @ p # ys)" and "new \<notin> set (dlp # xs @ p # ys)" and "new \<in> dom h"
  shows "\<exists>h'. dt_list_insert h dlp (Some p) new = Some h' \<and> dl_rep h' dlp (xs @ p # new # ys)"
proof (cases ys)
  case Nil
  with assms dl_rep_append [of h dlp "xs @ [p]" new] show ?thesis
    by (auto simp: dt_list_insert_def get_next_def dl_rep_def)
next
  case (Cons y zs)
  with assms show ?thesis
    by (auto simp: dl_rep_def dt_list_insert_def link_access)
qed

lemma dl_rep_delete:
  assumes "dl_rep h dlp (xs @ p # ys)"
  shows "\<exists>h'. dt_list_delete h dlp p = Some h' \<and> dl_rep h' dlp (xs @ ys)"
proof (cases xs rule: rev_cases)
  case Nil
  with assms show ?thesis
    by (cases ys) (auto simp: dl_rep_def dt_list_delete_def link_access)
next
  case (snoc xs' x)
  with assms show ?thesis
    by (cases ys) (auto simp: dl_rep_def dt_list_delete_def link_access)
qed

lemma dt_list_count_seg:
  "seg h p xs None \<Longrightarrow> dt_list_count h (hd_or xs None) n = Some (n + length xs)"
proof (induction xs arbitrary: p n)
  case Nil
  then show ?case by (simp add: dt_list_count.simps)
next
  case (Cons x xs)
  then show ?case
    using Cons.IH [of "Some x" "Suc n"] by (simp add: dt_list_count.simps [of h "Some x"] get_next_def)
qed

lemma dl_rep_length:
  "dl_rep h dlp xs \<Longrightarrow> dt_list_length h dlp = Some (length xs)"
  using dt_list_count_seg [of h None xs 0]
  by (simp add: dl_rep_def dt_list_length_def get_next_def)

lemma dl_rep_in_list:
  assumes "dl_rep h dlp xs"
  shows "e \<in> set xs \<Longrightarrow> dt_in_list h dlp e = Some True"
    and "e \<notin> set xs \<Longrightarrow> h e = Some \<lparr>lk_prev = None, lk_next = n\<rparr> \<Longrightarrow> dt_in_list h dlp e = Some False"
proof -
  assume "e \<in> set xs"
  then obtain ys zs where xs: "xs = ys @ e # zs" by (auto simp: in_set_conv_decomp)
  with assms show "dt_in_list h dlp e = Some True"
    by (cases ys rule: rev_cases) (auto simp: dl_rep_def dt_in_list_def link_access)
next
  assume "e \<notin> set xs" and "h e = Some \<lparr>lk_prev = None, lk_next = n\<rparr>"
  with assms show "dt_in_list h dlp e = Some False"
    by (cases xs) (auto simp: dl_rep_def dt_in_list_def link_access)
qed

lemma dl_rep_unique: "dl_rep h dlp xs \<Longrightarrow> dl_rep h dlp ys \<Longrightarrow> xs = ys"
proof -
  have seg_unique: "seg h p xs None \<Longrightarrow> seg h p ys None \<Longrightarrow>
    hd_or xs None = hd_or ys None \<Longrightarrow> xs = ys" for p xs ys
  proof (induction xs arbitrary: p ys)
    case Nil
    then show ?case by (cases ys) simp_all
  next
    case (Cons x xs)
    then show ?case by (cases ys) auto
  qed
  assume "dl_rep h dlp xs" "dl_rep h dlp ys"
  then show "xs = ys" using seg_unique [of None xs ys] by (auto simp: dl_rep_def)
qed

end
