(* ===== verification/Htab.thy ===== *)
theory Htab
  imports Prelude
begin

text \<open>
  The generic hash table of \<^verbatim>\<open>libcommon/dt_htab.c\<close>.  A table is an array of slots, a slot a chain of
  buckets, and a bucket holds the entries that are equal under the client's comparison, linked by
  the client's own \<^verbatim>\<open>add\<close>, \<^verbatim>\<open>del\<close> and \<^verbatim>\<open>next\<close> callbacks.  The callbacks are the record \<open>dt_htab_ops\<close>; they
  work on a store of the client, of type \<open>'s\<close>, that the table never looks into.

  A chain of buckets is a list of bucket records, each with the address \<^verbatim>\<open>malloc\<close> returned for it,
  since iterators keep bucket pointers between calls.  The C \<^verbatim>\<open>int\<close> fields are \<open>nat\<close>; the invariant
  bounds them well below \<open>2^31\<close>.
\<close>

section \<open>Hashing of strings\<close>

text \<open>
  A C string is the list of its bytes; the loop stops at a zero byte or where the list ends.  A
  plain \<^verbatim>\<open>char\<close> is signed, so a byte is sign-extended before it is added.
\<close>

definition str2hval_step :: "u8 \<Rightarrow> u32 \<Rightarrow> u32" where
  "str2hval_step c hval =
     (let hval = push_bit 4 hval + scast c;
          g = hval AND 0xf0000000
      in if g \<noteq> 0 then (hval XOR drop_bit 24 g) XOR g else hval)"

fun str2hval_loop :: "u8 list \<Rightarrow> u32 \<Rightarrow> u32" where
  "str2hval_loop [] hval = hval"
| "str2hval_loop (c # cs) hval =
     (if c = 0 then hval else str2hval_loop cs (str2hval_step c hval))"

definition str2hval :: "u8 list option \<Rightarrow> u32 \<Rightarrow> u32" where
  "str2hval p hval = (case p of None \<Rightarrow> hval | Some cs \<Rightarrow> str2hval_loop cs hval)"

section \<open>Data\<close>

record ('e, 's) dt_htab_ops =
  op_hval :: "'e \<Rightarrow> u32"
  op_cmp :: "'e \<Rightarrow> 'e \<Rightarrow> int"
  op_add :: "'s \<Rightarrow> 'e option \<Rightarrow> 'e \<Rightarrow> ('e option \<times> 's) option"
  op_del :: "'s \<Rightarrow> 'e \<Rightarrow> 'e \<Rightarrow> ('e option \<times> 's) option"
  op_next :: "'s \<Rightarrow> 'e \<Rightarrow> 'e option option"

record 'e dt_hbucket =
  bk_addr :: addr
  bk_hval :: u32
  bk_head :: "'e option"
  bk_nentries :: nat

record 'e dt_htab =
  ht_tab :: "'e dt_hbucket list list"
  ht_size :: nat
  ht_mask :: nat
  ht_nbuckets :: nat
  ht_nentries :: nat

record 'e dt_htab_next =
  it_idx :: nat
  it_bucket :: "addr option"
  it_ent :: "'e option"
  it_exhausted :: bool

section \<open>Operations\<close>

definition dt_htab_create :: "allocs \<Rightarrow> 'e dt_htab option" where
  "dt_htab_create mm =
     (case c_alloc mm of
        (None, _) \<Rightarrow> None
      | (Some _, mm) \<Rightarrow>
          (case c_alloc mm of
             (None, _) \<Rightarrow> None
           | (Some _, _) \<Rightarrow>
               Some \<lparr>ht_tab = [[]], ht_size = 1, ht_mask = 0, ht_nbuckets = 0, ht_nentries = 0\<rparr>))"

definition htab_idx :: "u32 \<Rightarrow> nat \<Rightarrow> nat" where
  "htab_idx hval msk = unat (hval AND word_of_nat msk)"

text \<open>Moving the buckets of one slot, from the front of its chain, to the new array.\<close>

fun resize_slot :: "nat \<Rightarrow> 'e dt_hbucket list \<Rightarrow> 'e dt_hbucket list list \<Rightarrow> 'e dt_hbucket list list" where
  "resize_slot nmask [] ntab = ntab"
| "resize_slot nmask (b # bs) ntab =
     (let idx = htab_idx (bk_hval b) nmask
      in resize_slot nmask bs (ntab[idx := b # ntab ! idx]))"

fun resize_slots :: "nat \<Rightarrow> 'e dt_hbucket list list \<Rightarrow> 'e dt_hbucket list list \<Rightarrow> 'e dt_hbucket list list" where
  "resize_slots nmask [] ntab = ntab"
| "resize_slots nmask (bs # slots) ntab = resize_slots nmask slots (resize_slot nmask bs ntab)"

definition ENOMEM :: int where "ENOMEM = 12"
definition ENOENT :: int where "ENOENT = 2"

definition htab_resize :: "'e dt_htab \<Rightarrow> allocs \<Rightarrow> int \<times> 'e dt_htab \<times> allocs" where
  "htab_resize t mm =
     (let osize = ht_size t; nsize = 2 * osize; nmask = nsize - 1
      in case c_alloc mm of
           (None, mm) \<Rightarrow> (- ENOMEM, t, mm)
         | (Some _, mm) \<Rightarrow>
             (0, t\<lparr>ht_tab := resize_slots nmask (take osize (ht_tab t)) (replicate nsize []),
                   ht_size := nsize, ht_mask := nmask\<rparr>, mm))"

text \<open>Looking for the bucket of an entry; calling \<^verbatim>\<open>cmp\<close> on an empty bucket is a fault.\<close>

fun htab_scan :: "('e, 's) dt_htab_ops \<Rightarrow> 'e dt_hbucket list \<Rightarrow> 'e \<Rightarrow> 'e dt_hbucket option option" where
  "htab_scan ops [] e = Some None"
| "htab_scan ops (b # bs) e = do {
     h \<leftarrow> bk_head b;
     if op_cmp ops h e = 0 then Some (Some b) else htab_scan ops bs e
   }"

definition bk_update :: "addr \<Rightarrow> ('e dt_hbucket \<Rightarrow> 'e dt_hbucket) \<Rightarrow> 'e dt_hbucket list \<Rightarrow> 'e dt_hbucket list" where
  "bk_update a f bs = map (\<lambda>b. if bk_addr b = a then f b else b) bs"

text \<open>The code after the label \<^verbatim>\<open>add\<close>.\<close>

definition htab_add_to :: "('e, 's) dt_htab_ops \<Rightarrow> 'e dt_htab \<Rightarrow> 's \<Rightarrow> nat \<Rightarrow> 'e dt_hbucket \<Rightarrow> 'e \<Rightarrow>
    ('e dt_htab \<times> 's) option" where
  "htab_add_to ops t s idx b e = do {
     (h, s) \<leftarrow> op_add ops s (bk_head b) e;
     Some (t\<lparr>ht_tab := (ht_tab t)[idx :=
               bk_update (bk_addr b) (\<lambda>b. b\<lparr>bk_head := h, bk_nentries := Suc (bk_nentries b)\<rparr>)
                 (ht_tab t ! idx)],
             ht_nentries := Suc (ht_nentries t)\<rparr>, s)
   }"

partial_function (option) htab_insert_retry ::
  "('e, 's) dt_htab_ops \<Rightarrow> u32 \<Rightarrow> 'e dt_htab \<Rightarrow> 's \<Rightarrow> 'e \<Rightarrow> allocs \<Rightarrow> (int \<times> 'e dt_htab \<times> 's) option" where
  "htab_insert_retry ops hval t s e mm = do {
     let idx = htab_idx hval (ht_mask t);
     found \<leftarrow> htab_scan ops (ht_tab t ! idx) e;
     (case found of
        Some b \<Rightarrow> do {
          (t, s) \<leftarrow> htab_add_to ops t s idx b e;
          Some (0, t, s)
        }
      | None \<Rightarrow>
          if ht_nbuckets t div 2 > ht_size t then
            (case htab_resize t mm of
               (err, t, mm) \<Rightarrow>
                 if err \<noteq> 0 then Some (err, t, s) else htab_insert_retry ops hval t s e mm)
          else
            (case c_alloc mm of
               (None, _) \<Rightarrow> Some (- ENOMEM, t, s)
             | (Some a, _) \<Rightarrow> do {
                 let b = \<lparr>bk_addr = a, bk_hval = hval, bk_head = None, bk_nentries = 0\<rparr>;
                 let t = t\<lparr>ht_tab := (ht_tab t)[idx := b # ht_tab t ! idx],
                           ht_nbuckets := Suc (ht_nbuckets t)\<rparr>;
                 (t, s) \<leftarrow> htab_add_to ops t s idx b e;
                 Some (0, t, s)
               }))
   }"

definition dt_htab_insert :: "('e, 's) dt_htab_ops \<Rightarrow> 'e dt_htab \<Rightarrow> 's \<Rightarrow> 'e \<Rightarrow> allocs \<Rightarrow>
    (int \<times> 'e dt_htab \<times> 's) option" where
  "dt_htab_insert ops t s e mm = htab_insert_retry ops (op_hval ops e) t s e mm"

definition dt_htab_lookup :: "('e, 's) dt_htab_ops \<Rightarrow> 'e dt_htab \<Rightarrow> 'e \<Rightarrow> 'e option option" where
  "dt_htab_lookup ops t e = do {
     found \<leftarrow> htab_scan ops (ht_tab t ! htab_idx (op_hval ops e) (ht_mask t)) e;
     Some (case found of None \<Rightarrow> None | Some b \<Rightarrow> bk_head b)
   }"

partial_function (option) htab_find_next ::
  "('e, 's) dt_htab_ops \<Rightarrow> 's \<Rightarrow> ('e \<Rightarrow> bool) \<Rightarrow> 'e option \<Rightarrow> 'e option option" where
  "htab_find_next ops s cmpf ent =
     (case ent of
        None \<Rightarrow> Some None
      | Some e \<Rightarrow>
          if cmpf e then Some (Some e)
          else do {
            n \<leftarrow> op_next ops s e;
            htab_find_next ops s cmpf n
          })"

definition dt_htab_find :: "('e, 's) dt_htab_ops \<Rightarrow> 'e dt_htab \<Rightarrow> 's \<Rightarrow> 'e \<Rightarrow> ('e \<Rightarrow> bool) \<Rightarrow>
    'e option option" where
  "dt_htab_find ops t s e cmpf = do {
     ent \<leftarrow> dt_htab_lookup ops t e;
     htab_find_next ops s cmpf ent
   }"

definition dt_htab_delete :: "('e, 's) dt_htab_ops \<Rightarrow> 'e dt_htab \<Rightarrow> 's \<Rightarrow> 'e \<Rightarrow>
    (int \<times> 'e dt_htab \<times> 's) option" where
  "dt_htab_delete ops t s e = do {
     let idx = htab_idx (op_hval ops e) (ht_mask t);
     found \<leftarrow> htab_scan ops (ht_tab t ! idx) e;
     (case found of
        None \<Rightarrow> Some (- ENOENT, t, s)
      | Some b \<Rightarrow> do {
          h \<leftarrow> bk_head b;
          (head, s) \<leftarrow> op_del ops s h e;
          let b' = b\<lparr>bk_nentries := bk_nentries b - 1\<rparr>;
          let t = t\<lparr>ht_nentries := ht_nentries t - 1\<rparr>;
          Some (0,
            (case head of
               None \<Rightarrow>
                 t\<lparr>ht_tab := (ht_tab t)[idx := filter (\<lambda>c. bk_addr c \<noteq> bk_addr b) (ht_tab t ! idx)],
                   ht_nbuckets := ht_nbuckets t - 1\<rparr>
             | Some _ \<Rightarrow>
                 t\<lparr>ht_tab := (ht_tab t)[idx :=
                     bk_update (bk_addr b) (\<lambda>_. b'\<lparr>bk_head := head\<rparr>) (ht_tab t ! idx)]\<rparr>),
            s)
        })
   }"

text \<open>
  Destruction: every bucket is emptied through the client's \<^verbatim>\<open>del\<close>, then the chains and the array
  are freed.  What remains is the client's store.
\<close>

partial_function (option) htab_drain :: "('e, 's) dt_htab_ops \<Rightarrow> 's \<Rightarrow> 'e option \<Rightarrow> 's option" where
  "htab_drain ops s head =
     (case head of
        None \<Rightarrow> Some s
      | Some h \<Rightarrow> do {
          (head, s) \<leftarrow> op_del ops s h h;
          htab_drain ops s head
        })"

fun htab_drain_chain :: "('e, 's) dt_htab_ops \<Rightarrow> 's \<Rightarrow> 'e dt_hbucket list \<Rightarrow> 's option" where
  "htab_drain_chain ops s [] = Some s"
| "htab_drain_chain ops s (b # bs) = do {
     s \<leftarrow> htab_drain ops s (bk_head b);
     htab_drain_chain ops s bs
   }"

definition dt_htab_destroy :: "('e, 's) dt_htab_ops \<Rightarrow> 'e dt_htab option \<Rightarrow> 's \<Rightarrow> 's option" where
  "dt_htab_destroy ops t s =
     (case t of None \<Rightarrow> Some s | Some t \<Rightarrow> htab_drain_chain ops s (concat (take (ht_size t) (ht_tab t))))"

section \<open>Iteration\<close>

text \<open>
  The inner loop walks the buckets from the iterator's bucket on: it moves to the next entry of
  the bucket, or to the head of a bucket just reached.
\<close>

fun htab_adv_buckets :: "('e, 's) dt_htab_ops \<Rightarrow> 's \<Rightarrow> 'e dt_hbucket list \<Rightarrow> 'e option \<Rightarrow>
    ('e dt_hbucket \<times> 'e) option option" where
  "htab_adv_buckets ops s [] ent = Some None"
| "htab_adv_buckets ops s (b # bs) ent = do {
     ent \<leftarrow> (case ent of None \<Rightarrow> Some (bk_head b) | Some e \<Rightarrow> op_next ops s e);
     (case ent of
        Some e \<Rightarrow> Some (Some (b, e))
      | None \<Rightarrow> htab_adv_buckets ops s bs None)
   }"

text \<open>The buckets from a bucket pointer on; a pointer to no bucket of the chain is dangling.\<close>

definition htab_chain_from :: "'e dt_hbucket list \<Rightarrow> addr option \<Rightarrow> 'e dt_hbucket list option" where
  "htab_chain_from bs p =
     (case p of
        None \<Rightarrow> Some bs
      | Some a \<Rightarrow>
          (case dropWhile (\<lambda>b. bk_addr b \<noteq> a) bs of
             [] \<Rightarrow> None
           | b # bs \<Rightarrow> Some (b # bs)))"

function htab_advance :: "('e, 's) dt_htab_ops \<Rightarrow> 'e dt_htab \<Rightarrow> 's \<Rightarrow> 'e dt_htab_next \<Rightarrow>
    'e dt_htab_next option" where
  "htab_advance ops t s i =
     (if it_idx i < ht_size t then
        if ht_tab t ! it_idx i = [] then
          htab_advance ops t s (i\<lparr>it_idx := Suc (it_idx i), it_bucket := None, it_ent := None\<rparr>)
        else
          (case htab_chain_from (ht_tab t ! it_idx i) (it_bucket i) of
             None \<Rightarrow> None
           | Some bs \<Rightarrow>
               (case htab_adv_buckets ops s bs (it_ent i) of
                  None \<Rightarrow> None
                | Some (Some (b, e)) \<Rightarrow> Some (i\<lparr>it_bucket := Some (bk_addr b), it_ent := Some e\<rparr>)
                | Some None \<Rightarrow>
                    htab_advance ops t s
                      (i\<lparr>it_idx := Suc (it_idx i), it_bucket := None, it_ent := None\<rparr>)))
      else Some (i\<lparr>it_exhausted := True\<rparr>))"
  by pat_completeness auto
termination
  by (relation "measure (\<lambda>(ops, t, s, i). ht_size t - it_idx i)") auto

declare htab_advance.simps [simp del]

text \<open>The result of a call: the entry (or NULL), and the iterator (NULL at the end).\<close>

definition htab_next_cycle :: "('e, 's) dt_htab_ops \<Rightarrow> 'e dt_htab \<Rightarrow> 's \<Rightarrow> 'e dt_htab_next \<Rightarrow>
    ('e option \<times> 'e dt_htab_next option) option" where
  "htab_next_cycle ops t s i =
     (if it_exhausted i then Some (None, None)
      else do {
        i' \<leftarrow> htab_advance ops t s i;
        Some (it_ent i, Some i')
      })"

definition dt_htab_next :: "('e, 's) dt_htab_ops \<Rightarrow> 'e dt_htab \<Rightarrow> 's \<Rightarrow> 'e dt_htab_next option \<Rightarrow> allocs \<Rightarrow>
    ('e option \<times> 'e dt_htab_next option) option" where
  "dt_htab_next ops t s it mm =
     (case it of
        Some i \<Rightarrow> htab_next_cycle ops t s i
      | None \<Rightarrow>
          (case c_alloc mm of
             (None, _) \<Rightarrow> Some (None, None)
           | (Some _, _) \<Rightarrow> do {
               (_, it) \<leftarrow> htab_next_cycle ops t s
                 \<lparr>it_idx = 0, it_bucket = None, it_ent = None, it_exhausted = False\<rparr>;
               i \<leftarrow> it;
               htab_next_cycle ops t s i
             }))"

definition dt_htab_entries :: "'e dt_htab \<Rightarrow> nat" where
  "dt_htab_entries t = ht_nentries t"

text \<open>The loop of a client: \<^verbatim>\<open>while ((e = dt_htab_next(htab, &it)) != NULL)\<close>, collecting the entries.\<close>

partial_function (option) htab_collect :: "('e, 's) dt_htab_ops \<Rightarrow> 'e dt_htab \<Rightarrow> 's \<Rightarrow>
    'e dt_htab_next option \<Rightarrow> allocs \<Rightarrow> 'e list \<Rightarrow> 'e list option" where
  "htab_collect ops t s it mm acc = do {
     (e, it) \<leftarrow> dt_htab_next ops t s it mm;
     (case e of
        None \<Rightarrow> Some acc
      | Some e \<Rightarrow> htab_collect ops t s it mm (acc @ [e]))
   }"

end
