(* ===== verification/Htab_Laws.thy ===== *)
theory Htab_Laws
  imports Htab
begin

text \<open>
  The contract between the hash table and its clients.  The locale \<open>htab_client\<close> states what
  \<^verbatim>\<open>dt_htab.c\<close> asks of the callbacks it is given: the comparison is an equivalence that agrees with
  the hash value, and \<^verbatim>\<open>add\<close>, \<^verbatim>\<open>del\<close> and \<^verbatim>\<open>next\<close> maintain chains of entries and leave other chains alone.
  Inside it, \<open>htab_rep t s E\<close> says that the table \<open>t\<close> over the store \<open>s\<close> holds exactly the entries \<open>E\<close>,
  and every operation is shown to implement its operation on sets.
\<close>

section \<open>Facts about slots that need no contract\<close>

lemma htab_idx_mod:
  assumes "k \<le> 32"
  shows "htab_idx hval (2 ^ k - 1) = unat hval mod 2 ^ k"
proof -
  have "(word_of_nat (2 ^ k - 1) :: u32) = Bit_Operations.mask k"
    by (simp add: mask_eq_exp_minus_1 of_nat_diff)
  then have "hval AND word_of_nat (2 ^ k - 1) = take_bit k hval"
    by (simp add: take_bit_eq_mask)
  then show ?thesis
    by (simp only: htab_idx_def unsigned_take_bit_eq) (simp add: take_bit_eq_mod)
qed

lemma htab_idx_less: "k \<le> 32 \<Longrightarrow> htab_idx hval (2 ^ k - 1) < 2 ^ k"
  by (simp only: htab_idx_mod) simp

lemma mset_concat_update:
  "i < length xss \<Longrightarrow> mset (concat (xss[i := ys])) + mset (xss ! i) = mset (concat xss) + mset ys"
proof (induction xss arbitrary: i)
  case Nil
  then show ?case by simp
next
  case (Cons xs xss)
  show ?case
  proof (cases i)
    case 0
    then show ?thesis by simp
  next
    case (Suc j)
    with Cons.prems have "mset (concat (xss[j := ys])) + mset (xss ! j) = mset (concat xss) + mset ys"
      by (intro Cons.IH) simp
    with Suc show ?thesis by (simp add: add_ac)
  qed
qed

lemma distinct_map_nth: "distinct (map f (concat xss)) \<Longrightarrow> i < length xss \<Longrightarrow> distinct (map f (xss ! i))"
  by (induction xss arbitrary: i) (auto simp: nth_Cons split: nat.splits)

lemma sum_list_upd:
  "distinct as \<Longrightarrow> a \<in> set as \<Longrightarrow>
   (\<Sum>x\<leftarrow>as. length ((B(a := es)) x)) + length (B a) = (\<Sum>x\<leftarrow>as. length (B x)) + length es"
proof (induction as)
  case Nil
  then show ?case by simp
next
  case (Cons y as)
  show ?case
  proof (cases "y = a")
    case True
    with Cons.prems have "map (\<lambda>x. length ((B(a := es)) x)) as = map (\<lambda>x. length (B x)) as"
      by auto
    with True show ?thesis by (simp cong: map_cong)
  next
    case False
    with Cons show ?thesis by simp
  qed
qed

lemma bk_addr_bk_update:
  "(\<And>b. bk_addr (f b) = bk_addr b) \<Longrightarrow> map bk_addr (bk_update a f bs) = map bk_addr bs"
  by (simp add: bk_update_def)

lemma bk_update_concat: "bk_update a f (concat bss) = concat (map (bk_update a f) bss)"
  by (simp add: bk_update_def [abs_def] map_concat)

definition slots_ok :: "nat \<Rightarrow> 'e dt_hbucket list list \<Rightarrow> bool" where
  "slots_ok msk tab \<longleftrightarrow> (\<forall>i < length tab. \<forall>b \<in> set (tab ! i). htab_idx (bk_hval b) msk = i)"

lemma slots_ok_update:
  "slots_ok msk tab \<Longrightarrow> (\<And>b. b \<in> set bs \<Longrightarrow> htab_idx (bk_hval b) msk = i) \<Longrightarrow>
   slots_ok msk (tab[i := bs])"
  by (cases "i < length tab") (auto simp: slots_ok_def nth_list_update split: if_splits)

lemma resize_slot_ok:
  assumes "slots_ok msk ntab" and "\<And>hval. htab_idx hval msk < length ntab"
  shows "slots_ok msk (resize_slot msk bs ntab) \<and> length (resize_slot msk bs ntab) = length ntab \<and>
    mset (concat (resize_slot msk bs ntab)) = mset bs + mset (concat ntab)"
  using assms
proof (induction bs arbitrary: ntab)
  case Nil
  then show ?case by simp
next
  case (Cons b bs)
  let ?i = "htab_idx (bk_hval b) msk" and ?ntab = "ntab[htab_idx (bk_hval b) msk := b # ntab ! htab_idx (bk_hval b) msk]"
  have i: "?i < length ntab" by (rule Cons.prems)
  have "slots_ok msk ?ntab"
    using Cons.prems(1) i by (intro slots_ok_update) (auto simp: slots_ok_def)
  then have IH: "slots_ok msk (resize_slot msk bs ?ntab) \<and>
      length (resize_slot msk bs ?ntab) = length ?ntab \<and>
      mset (concat (resize_slot msk bs ?ntab)) = mset bs + mset (concat ?ntab)"
    using Cons.prems(2) by (intro Cons.IH) simp_all
  have "mset (concat ?ntab) = add_mset b (mset (concat ntab))"
    using mset_concat_update [OF i, of "b # ntab ! ?i"] by simp
  with IH show ?case by (simp add: Let_def)
qed

lemma resize_slots_ok:
  assumes "slots_ok msk ntab" and "\<And>hval. htab_idx hval msk < length ntab"
  shows "slots_ok msk (resize_slots msk slots ntab) \<and>
    length (resize_slots msk slots ntab) = length ntab \<and>
    mset (concat (resize_slots msk slots ntab)) = mset (concat slots) + mset (concat ntab)"
  using assms
proof (induction slots arbitrary: ntab)
  case Nil
  then show ?case by simp
next
  case (Cons bs slots)
  note step = resize_slot_ok [OF Cons.prems, of bs]
  then have "slots_ok msk (resize_slots msk slots (resize_slot msk bs ntab)) \<and>
    length (resize_slots msk slots (resize_slot msk bs ntab)) = length (resize_slot msk bs ntab) \<and>
    mset (concat (resize_slots msk slots (resize_slot msk bs ntab))) =
      mset (concat slots) + mset (concat (resize_slot msk bs ntab))"
    using Cons.prems(2) by (intro Cons.IH) simp_all
  with step show ?case by simp
qed

text \<open>The buckets of a table, and the well-formedness of its array.\<close>

definition bks :: "'e dt_htab \<Rightarrow> 'e dt_hbucket list" where
  "bks t = concat (ht_tab t)"

definition htab_shape :: "'e dt_htab \<Rightarrow> bool" where
  "htab_shape t \<longleftrightarrow> (\<exists>k \<le> 30. ht_size t = 2 ^ k) \<and> length (ht_tab t) = ht_size t \<and>
     ht_mask t = ht_size t - 1 \<and> slots_ok (ht_mask t) (ht_tab t) \<and>
     distinct (map bk_addr (bks t)) \<and> ht_nbuckets t = length (bks t)"

section \<open>The contract\<close>

locale htab_client =
  fixes ops :: "('e, 's) dt_htab_ops"
    and chain :: "'s \<Rightarrow> 'e option \<Rightarrow> 'e list \<Rightarrow> bool"
    and unlinked :: "'s \<Rightarrow> 'e \<Rightarrow> bool"
  assumes cmp_refl: "op_cmp ops a a = 0"
    and cmp_sym: "op_cmp ops a b = 0 \<Longrightarrow> op_cmp ops b a = 0"
    and cmp_trans: "op_cmp ops a b = 0 \<Longrightarrow> op_cmp ops b c = 0 \<Longrightarrow> op_cmp ops a c = 0"
    and cmp_hval: "op_cmp ops a b = 0 \<Longrightarrow> op_hval ops a = op_hval ops b"
    and chain_None: "chain s None es \<longleftrightarrow> es = []"
    and chain_Some: "chain s (Some h) es \<Longrightarrow> \<exists>es'. es = h # es'"
    and chain_distinct: "chain s p es \<Longrightarrow> distinct es"
    and chain_next: "chain s p es \<Longrightarrow> i < length es \<Longrightarrow>
      op_next ops s (es ! i) = Some (hd_or (drop (Suc i) es) None)"
    and add_chain: "chain s p es \<Longrightarrow> unlinked s e \<Longrightarrow> e \<notin> set es \<Longrightarrow>
      \<exists>p' s' es'. op_add ops s p e = Some (p', s') \<and> chain s' p' es' \<and>
        mset es' = add_mset e (mset es) \<and>
        (\<forall>g gs. chain s g gs \<longrightarrow> set gs \<inter> insert e (set es) = {} \<longrightarrow> chain s' g gs) \<and>
        (\<forall>x. x \<notin> insert e (set es) \<longrightarrow> unlinked s' x = unlinked s x)"
    and del_chain: "chain s (Some h) es \<Longrightarrow> e \<in> set es \<Longrightarrow>
      \<exists>p' s'. op_del ops s h e = Some (p', s') \<and> chain s' p' (remove1 e es) \<and> unlinked s' e \<and>
        (\<forall>g gs. chain s g gs \<longrightarrow> set gs \<inter> set es = {} \<longrightarrow> chain s' g gs) \<and>
        (\<forall>x. x \<notin> set es \<longrightarrow> unlinked s' x = unlinked s x)"
begin

text \<open>
  \<open>B\<close> gives the entries of each bucket.  \<open>htab_inv0\<close> is the invariant but for the condition that no
  bucket is empty, which does not hold between the creation of a bucket and its first entry.
\<close>

definition bucket_ok :: "'s \<Rightarrow> (addr \<Rightarrow> 'e list) \<Rightarrow> 'e dt_hbucket \<Rightarrow> bool" where
  "bucket_ok s B b \<longleftrightarrow> chain s (bk_head b) (B (bk_addr b)) \<and>
     bk_nentries b = length (B (bk_addr b)) \<and>
     (\<forall>x \<in> set (B (bk_addr b)). op_hval ops x = bk_hval b)"

definition same_bucket :: "(addr \<Rightarrow> 'e list) \<Rightarrow> 'e dt_hbucket set \<Rightarrow> bool" where
  "same_bucket B bs \<longleftrightarrow> (\<forall>b \<in> bs. \<forall>c \<in> bs. \<forall>x \<in> set (B (bk_addr b)). \<forall>y \<in> set (B (bk_addr c)).
     op_cmp ops x y = 0 \<longleftrightarrow> bk_addr b = bk_addr c)"

definition htab_inv0 :: "'e dt_htab \<Rightarrow> 's \<Rightarrow> (addr \<Rightarrow> 'e list) \<Rightarrow> bool" where
  "htab_inv0 t s B \<longleftrightarrow> htab_shape t \<and> (\<forall>b \<in> set (bks t). bucket_ok s B b) \<and>
     same_bucket B (set (bks t)) \<and>
     ht_nentries t = (\<Sum>b\<leftarrow>bks t. length (B (bk_addr b)))"

definition htab_inv :: "'e dt_htab \<Rightarrow> 's \<Rightarrow> (addr \<Rightarrow> 'e list) \<Rightarrow> bool" where
  "htab_inv t s B \<longleftrightarrow> htab_inv0 t s B \<and> (\<forall>b \<in> set (bks t). B (bk_addr b) \<noteq> [])"

definition ents :: "'e dt_htab \<Rightarrow> (addr \<Rightarrow> 'e list) \<Rightarrow> 'e set" where
  "ents t B = (\<Union>b \<in> set (bks t). set (B (bk_addr b)))"

definition htab_rep :: "'e dt_htab \<Rightarrow> 's \<Rightarrow> 'e set \<Rightarrow> bool" where
  "htab_rep t s E \<longleftrightarrow> (\<exists>B. htab_inv t s B \<and> E = ents t B)"

lemmas htab_inv_defs = htab_inv_def htab_inv0_def htab_shape_def

lemma idx_less:
  assumes "htab_shape t"
  shows "htab_idx hval (ht_mask t) < length (ht_tab t)"
  using assms htab_idx_less by (auto simp: htab_shape_def)

lemma in_slot:
  assumes "htab_shape t" and "b \<in> set (bks t)"
  shows "b \<in> set (ht_tab t ! htab_idx (bk_hval b) (ht_mask t))"
proof -
  from assms(2) obtain i where i: "i < length (ht_tab t)" "b \<in> set (ht_tab t ! i)"
    by (metis bks_def in_set_conv_nth set_concat UN_E)
  with assms(1) have "htab_idx (bk_hval b) (ht_mask t) = i"
    by (auto simp: htab_shape_def slots_ok_def)
  with i show ?thesis by simp
qed

lemma slot_in_bks: "i < length (ht_tab t) \<Longrightarrow> b \<in> set (ht_tab t ! i) \<Longrightarrow> b \<in> set (bks t)"
  by (auto simp: bks_def)

lemma bks_addr_inj:
  "htab_shape t \<Longrightarrow> b \<in> set (bks t) \<Longrightarrow> c \<in> set (bks t) \<Longrightarrow> bk_addr b = bk_addr c \<Longrightarrow> b = c"
  by (auto simp: htab_shape_def distinct_map inj_on_def)

lemma bucket_disjoint:
  assumes "same_bucket B bs" "b \<in> bs" "c \<in> bs" "bk_addr b \<noteq> bk_addr c"
  shows "set (B (bk_addr b)) \<inter> set (B (bk_addr c)) = {}"
proof -
  have "op_cmp ops x x \<noteq> 0" if "x \<in> set (B (bk_addr b))" "x \<in> set (B (bk_addr c))" for x
    using assms that unfolding same_bucket_def by blast
  then show ?thesis using cmp_refl by auto
qed

lemma same_bucket_addr:
  "same_bucket B bs \<longleftrightarrow> (\<forall>a \<in> bk_addr ` bs. \<forall>a' \<in> bk_addr ` bs. \<forall>x \<in> set (B a). \<forall>y \<in> set (B a').
     op_cmp ops x y = 0 \<longleftrightarrow> a = a')"
  by (simp add: same_bucket_def)

lemma same_bucket_mono: "same_bucket B bs \<Longrightarrow> (\<And>a. set (B' a) \<subseteq> set (B a)) \<Longrightarrow> same_bucket B' bs"
  unfolding same_bucket_def by blast

text \<open>Two tables with the same buckets, up to their order, satisfy the same invariant.\<close>

lemma inv_perm:
  assumes "htab_inv t s B" and "htab_shape t'" and "mset (bks t') = mset (bks t)"
    and "ht_nentries t' = ht_nentries t"
  shows "htab_inv t' s B \<and> ents t' B = ents t B"
proof -
  have set_eq: "set (bks t') = set (bks t)"
    using assms(3) by (metis set_mset_mset)
  have "mset (map (\<lambda>b. length (B (bk_addr b))) (bks t')) = mset (map (\<lambda>b. length (B (bk_addr b))) (bks t))"
    by (simp add: assms(3))
  then have "(\<Sum>b\<leftarrow>bks t'. length (B (bk_addr b))) = (\<Sum>b\<leftarrow>bks t. length (B (bk_addr b)))"
    by (metis sum_mset_sum_list)
  with assms set_eq show ?thesis
    by (auto simp: htab_inv_def htab_inv0_def ents_def)
qed

section \<open>Creation and lookup\<close>

lemma create_rep: "dt_htab_create mm = Some t \<Longrightarrow> htab_rep t s {}"
  by (auto simp: dt_htab_create_def htab_rep_def htab_inv_defs bks_def slots_ok_def same_bucket_def
      ents_def split: option.splits prod.splits intro!: exI [of _ "\<lambda>_. []"] exI [of _ 0])

lemma inv_head:
  assumes "htab_inv t s B" and "b \<in> set (bks t)"
  obtains h es where "bk_head b = Some h" and "B (bk_addr b) = h # es"
proof (cases "bk_head b")
  case None
  with assms have "B (bk_addr b) = []"
    using chain_None by (auto simp: htab_inv_def htab_inv0_def bucket_ok_def)
  with assms show ?thesis by (auto simp: htab_inv_def)
next
  case (Some h)
  with assms obtain es where "B (bk_addr b) = h # es"
    using chain_Some by (fastforce simp: htab_inv_def htab_inv0_def bucket_ok_def)
  with Some show ?thesis by (rule that)
qed

lemma scan_found:
  assumes "htab_inv t s B" and "set bs \<subseteq> set (bks t)"
  shows "(\<exists>b \<in> set bs. htab_scan ops bs e = Some (Some b) \<and> (\<forall>x \<in> set (B (bk_addr b)). op_cmp ops x e = 0)) \<or>
         htab_scan ops bs e = Some None \<and> (\<forall>b \<in> set bs. \<forall>x \<in> set (B (bk_addr b)). op_cmp ops x e \<noteq> 0)"
  using assms(2)
proof (induction bs)
  case Nil
  then show ?case by simp
next
  case (Cons b bs)
  from Cons.prems have b: "b \<in> set (bks t)" by simp
  with assms(1) obtain h es where h: "bk_head b = Some h" "B (bk_addr b) = h # es"
    by (rule inv_head)
  have same: "op_cmp ops x y = 0" if "x \<in> set (B (bk_addr b))" "y \<in> set (B (bk_addr b))" for x y
    using assms(1) b that by (auto simp: htab_inv_def htab_inv0_def same_bucket_def)
  show ?case
  proof (cases "op_cmp ops h e = 0")
    case True
    have "op_cmp ops x e = 0" if "x \<in> set (B (bk_addr b))" for x
      using same [OF that, of h] h True cmp_trans by auto
    with True h show ?thesis by auto
  next
    case False
    have "op_cmp ops x e \<noteq> 0" if "x \<in> set (B (bk_addr b))" for x
      using same [of h x] that h False cmp_trans by auto
    with False h Cons show ?thesis by auto
  qed
qed

lemma scan_table:
  assumes "htab_inv t s B"
  shows "(\<exists>b \<in> set (ht_tab t ! htab_idx (op_hval ops e) (ht_mask t)).
            htab_scan ops (ht_tab t ! htab_idx (op_hval ops e) (ht_mask t)) e = Some (Some b) \<and>
            (\<forall>x \<in> set (B (bk_addr b)). op_cmp ops x e = 0)) \<or>
         htab_scan ops (ht_tab t ! htab_idx (op_hval ops e) (ht_mask t)) e = Some None \<and>
         (\<forall>x \<in> ents t B. op_cmp ops x e \<noteq> 0)"
proof -
  let ?i = "htab_idx (op_hval ops e) (ht_mask t)"
  from assms have shape: "htab_shape t" by (simp add: htab_inv_def htab_inv0_def)
  have "?i < length (ht_tab t)" using shape by (rule idx_less)
  then have sub: "set (ht_tab t ! ?i) \<subseteq> set (bks t)" using slot_in_bks by blast
  have "op_cmp ops x e \<noteq> 0"
    if none: "\<forall>b \<in> set (ht_tab t ! ?i). \<forall>x \<in> set (B (bk_addr b)). op_cmp ops x e \<noteq> 0"
      and x: "x \<in> ents t B" for x
  proof
    assume eq: "op_cmp ops x e = 0"
    from x obtain b where b: "b \<in> set (bks t)" "x \<in> set (B (bk_addr b))"
      by (auto simp: ents_def)
    with assms have "bk_hval b = op_hval ops x"
      by (auto simp: htab_inv_def htab_inv0_def bucket_ok_def)
    with cmp_hval [OF eq] in_slot [OF shape b(1)] have "b \<in> set (ht_tab t ! ?i)" by simp
    with none b(2) eq show False by blast
  qed
  with scan_found [OF assms sub, of e] show ?thesis by blast
qed

lemma lookup_rep:
  assumes "htab_rep t s E"
  shows "(\<exists>x \<in> E. dt_htab_lookup ops t e = Some (Some x) \<and> op_cmp ops x e = 0) \<or>
         dt_htab_lookup ops t e = Some None \<and> (\<forall>x \<in> E. op_cmp ops x e \<noteq> 0)"
proof -
  from assms obtain B where B: "htab_inv t s B" and E: "E = ents t B"
    by (auto simp: htab_rep_def)
  let ?i = "htab_idx (op_hval ops e) (ht_mask t)"
  have i: "?i < length (ht_tab t)"
    using B by (auto simp: htab_inv_def htab_inv0_def intro: idx_less)
  from scan_table [OF B, of e] show ?thesis
  proof
    assume "\<exists>b \<in> set (ht_tab t ! ?i). htab_scan ops (ht_tab t ! ?i) e = Some (Some b) \<and>
      (\<forall>x \<in> set (B (bk_addr b)). op_cmp ops x e = 0)"
    then obtain b where b: "b \<in> set (ht_tab t ! ?i)" "htab_scan ops (ht_tab t ! ?i) e = Some (Some b)"
      "\<forall>x \<in> set (B (bk_addr b)). op_cmp ops x e = 0" by blast
    from slot_in_bks [OF i b(1)] have mem: "b \<in> set (bks t)" .
    with B obtain h es where "bk_head b = Some h" "B (bk_addr b) = h # es" by (rule inv_head)
    moreover from this mem have "h \<in> E"
      unfolding E ents_def by (intro UN_I [of b]) simp_all
    ultimately show ?thesis using b by (auto simp: dt_htab_lookup_def)
  next
    assume "htab_scan ops (ht_tab t ! ?i) e = Some None \<and> (\<forall>x \<in> ents t B. op_cmp ops x e \<noteq> 0)"
    then show ?thesis by (simp add: dt_htab_lookup_def E)
  qed
qed


section \<open>Insertion\<close>

lemma inv0_entries:
  "htab_inv0 t s B \<Longrightarrow> ht_nentries t = (\<Sum>a\<leftarrow>map bk_addr (bks t). length (B a))"
  by (simp add: htab_inv0_def o_def)

lemma ents_addr: "ents t B = (\<Union>a \<in> set (map bk_addr (bks t)). set (B a))"
  by (simp add: ents_def)

text \<open>Replacing a bucket in its slot replaces it in the table.\<close>

lemma bks_bk_update:
  assumes "htab_shape t" and "i < length (ht_tab t)" and "b \<in> set (ht_tab t ! i)"
  shows "concat ((ht_tab t)[i := bk_update (bk_addr b) f (ht_tab t ! i)]) = bk_update (bk_addr b) f (bks t)"
proof -
  have "bk_update (bk_addr b) f (ht_tab t ! j) = ht_tab t ! j" if "j < length (ht_tab t)" "j \<noteq> i" for j
  proof -
    have "bk_addr c \<noteq> bk_addr b" if c: "c \<in> set (ht_tab t ! j)" for c
    proof
      assume "bk_addr c = bk_addr b"
      then have "c = b"
        using assms \<open>j < length (ht_tab t)\<close> c slot_in_bks bks_addr_inj by blast
      with assms c \<open>j < length (ht_tab t)\<close> have "i = j"
        unfolding htab_shape_def slots_ok_def by metis
      with \<open>j \<noteq> i\<close> show False by simp
    qed
    then show ?thesis by (simp add: bk_update_def map_idI)
  qed
  then have "(ht_tab t)[i := bk_update (bk_addr b) f (ht_tab t ! i)] = map (bk_update (bk_addr b) f) (ht_tab t)"
    using assms(2) by (intro list_eq_iff_nth_eq [THEN iffD2]) (auto simp: nth_list_update)
  then show ?thesis by (simp add: bks_def bk_update_concat)
qed

lemma shape_bk_update:
  assumes shape: "htab_shape t" and i: "i < length (ht_tab t)" and b: "b \<in> set (ht_tab t ! i)"
    and f: "bk_addr b' = bk_addr b" "bk_hval b' = bk_hval b"
    and t': "ht_tab t' = (ht_tab t)[i := bk_update (bk_addr b) (\<lambda>_. b') (ht_tab t ! i)]"
      "ht_size t' = ht_size t" "ht_mask t' = ht_mask t" "ht_nbuckets t' = ht_nbuckets t"
  shows "htab_shape t'" and "bks t' = bk_update (bk_addr b) (\<lambda>_. b') (bks t)"
    and "map bk_addr (bks t') = map bk_addr (bks t)"
proof -
  show bks: "bks t' = bk_update (bk_addr b) (\<lambda>_. b') (bks t)"
    using bks_bk_update [OF shape i b] t' by (simp add: bks_def)
  then show addr: "map bk_addr (bks t') = map bk_addr (bks t)"
    using f by (auto simp: bk_update_def)
  have "slots_ok (ht_mask t') (ht_tab t')"
    unfolding t' using shape i b f
    by (intro slots_ok_update) (auto simp: htab_shape_def slots_ok_def bk_update_def split: if_splits)
  moreover have "length (bks t') = length (bks t)" by (simp add: bks bk_update_def)
  moreover have "distinct (map bk_addr (bks t'))" using shape unfolding addr htab_shape_def by simp
  ultimately show "htab_shape t'" using shape by (simp add: htab_shape_def t')
qed

lemma in_bk_update:
  "c \<in> set (bk_update a (\<lambda>_. b') bs) \<Longrightarrow> c = b' \<or> c \<in> set bs \<and> bk_addr c \<noteq> a"
  by (auto simp: bk_update_def split: if_splits)

text \<open>
  Giving a bucket a new chain: the invariant is kept when the new chain is in the new store, the
  other chains have been left alone, and its entries compare with the others as they must.
\<close>

lemma inv0_new_chain:
  assumes inv: "htab_inv0 t s B" and i: "i < length (ht_tab t)" and b: "b \<in> set (ht_tab t ! i)"
    and b': "bk_addr b' = bk_addr b" "bk_hval b' = bk_hval b" "bk_nentries b' = length es"
    and t': "ht_tab t' = (ht_tab t)[i := bk_update (bk_addr b) (\<lambda>_. b') (ht_tab t ! i)]"
      "ht_size t' = ht_size t" "ht_mask t' = ht_mask t" "ht_nbuckets t' = ht_nbuckets t"
      "ht_nentries t' + length (B (bk_addr b)) = ht_nentries t + length es"
    and chain: "chain s' (bk_head b') es"
    and hv: "\<And>x. x \<in> set es \<Longrightarrow> op_hval ops x = bk_hval b"
    and same: "same_bucket (B(bk_addr b := es)) (set (bks t))"
    and frame: "\<And>c. c \<in> set (bks t) \<Longrightarrow> bk_addr c \<noteq> bk_addr b \<Longrightarrow> chain s' (bk_head c) (B (bk_addr c))"
  shows "htab_inv0 t' s' (B(bk_addr b := es))"
    and "ents t' (B(bk_addr b := es)) = (\<Union>c \<in> {c \<in> set (bks t). bk_addr c \<noteq> bk_addr b}. set (B (bk_addr c))) \<union> set es"
    and "map bk_addr (bks t') = map bk_addr (bks t)"
proof -
  from inv have shape: "htab_shape t" by (simp add: htab_inv0_def)
  note upd = shape_bk_update [OF shape i b b'(1,2) t'(1-4)]
  from slot_in_bks [OF i b] have mem: "b \<in> set (bks t)" .
  have ok: "bucket_ok s' (B(bk_addr b := es)) c" if "c \<in> set (bks t')" for c
    using in_bk_update [OF that [unfolded upd(2)]] inv b' chain hv frame
    by (auto simp: bucket_ok_def htab_inv0_def)
  have "bk_addr ` set (bks t') = bk_addr ` set (bks t)"
    using arg_cong [OF upd(3), of set] by simp
  then have same': "same_bucket (B(bk_addr b := es)) (set (bks t'))"
    using same by (simp only: same_bucket_addr)
  have "(\<Sum>a\<leftarrow>map bk_addr (bks t'). length ((B(bk_addr b := es)) a)) + length (B (bk_addr b)) =
      (\<Sum>a\<leftarrow>map bk_addr (bks t). length (B a)) + length es"
    unfolding upd(3) using shape mem by (intro sum_list_upd) (auto simp: htab_shape_def)
  then have "ht_nentries t' = (\<Sum>a\<leftarrow>map bk_addr (bks t'). length ((B(bk_addr b := es)) a))"
    using inv0_entries [OF inv] t'(5) by linarith
  then show "htab_inv0 t' s' (B(bk_addr b := es))"
    using upd(1) ok same' by (auto simp: htab_inv0_def o_def)
  show "ents t' (B(bk_addr b := es)) = (\<Union>c \<in> {c \<in> set (bks t). bk_addr c \<noteq> bk_addr b}. set (B (bk_addr c))) \<union> set es"
    unfolding ents_addr upd(3) using mem by (auto split: if_splits)
  show "map bk_addr (bks t') = map bk_addr (bks t)" by (rule upd(3))
qed

lemma add_to_inv0:
  assumes inv: "htab_inv0 t s B" and i: "i < length (ht_tab t)" and b: "b \<in> set (ht_tab t ! i)"
    and e: "unlinked s e" "e \<notin> ents t B" "op_hval ops e = bk_hval b"
    and same: "\<And>c x. c \<in> set (bks t) \<Longrightarrow> x \<in> set (B (bk_addr c)) \<Longrightarrow>
      op_cmp ops x e = 0 \<longleftrightarrow> bk_addr c = bk_addr b"
  obtains t' s' es where "htab_add_to ops t s i b e = Some (t', s')"
    and "htab_inv0 t' s' (B(bk_addr b := es))" and "es \<noteq> []"
    and "map bk_addr (bks t') = map bk_addr (bks t)"
    and "ents t' (B(bk_addr b := es)) = insert e (ents t B)"
    and "\<forall>x. x \<notin> insert e (ents t B) \<longrightarrow> unlinked s' x = unlinked s x"
proof -
  from slot_in_bks [OF i b] have mem: "b \<in> set (bks t)" .
  from mem e(2) have "e \<notin> set (B (bk_addr b))" by (auto simp: ents_def)
  with inv mem e(1) obtain h s' es where add: "op_add ops s (bk_head b) e = Some (h, s')" "chain s' h es"
    and es: "mset es = add_mset e (mset (B (bk_addr b)))"
    and fr: "\<And>g gs. chain s g gs \<Longrightarrow> set gs \<inter> insert e (set (B (bk_addr b))) = {} \<Longrightarrow> chain s' g gs"
    and un: "\<And>x. x \<notin> insert e (set (B (bk_addr b))) \<Longrightarrow> unlinked s' x = unlinked s x"
    using add_chain [of s "bk_head b" "B (bk_addr b)" e] by (auto simp: htab_inv0_def bucket_ok_def)
  have set_es: "set es = insert e (set (B (bk_addr b)))"
    using arg_cong [OF es, of set_mset] by simp
  have len: "length es = Suc (length (B (bk_addr b)))"
    using arg_cong [OF es, of size] by simp
  let ?b = "b\<lparr>bk_head := h, bk_nentries := Suc (bk_nentries b)\<rparr>"
  let ?tab = "(ht_tab t)[i := bk_update (bk_addr b) (\<lambda>_. ?b) (ht_tab t ! i)]"
  let ?t = "t\<lparr>ht_tab := ?tab, ht_nentries := Suc (ht_nentries t)\<rparr>"
  have "bk_update (bk_addr b) (\<lambda>b. b\<lparr>bk_head := h, bk_nentries := Suc (bk_nentries b)\<rparr>) (ht_tab t ! i) =
      bk_update (bk_addr b) (\<lambda>_. ?b) (ht_tab t ! i)"
    using inv i b by (auto simp: bk_update_def htab_inv0_def dest: bks_addr_inj slot_in_bks)
  then have run: "htab_add_to ops t s i b e = Some (?t, s')"
    using add(1) by (simp add: htab_add_to_def)
  have same': "same_bucket (B(bk_addr b := es)) (set (bks t))"
    using inv same cmp_refl cmp_sym unfolding htab_inv0_def same_bucket_def
    by (simp add: set_es) (metis)
  have dis: "chain s' (bk_head c) (B (bk_addr c))" if c: "c \<in> set (bks t)" "bk_addr c \<noteq> bk_addr b" for c
    using inv c mem e(2) bucket_disjoint [of B "set (bks t)" c b]
    by (intro fr) (auto simp: htab_inv0_def bucket_ok_def ents_def)
  have n: "ht_nentries ?t + length (B (bk_addr b)) = ht_nentries t + length es" by (simp add: len)
  have hv: "op_hval ops x = bk_hval b" if "x \<in> set es" for x
    using that inv mem e(3) by (auto simp: set_es htab_inv0_def bucket_ok_def)
  have bn: "bk_nentries ?b = length es" using inv mem by (simp add: len htab_inv0_def bucket_ok_def)
  have b': "bk_addr ?b = bk_addr b" "bk_hval ?b = bk_hval b" by simp_all
  have t': "ht_tab ?t = ?tab" "ht_size ?t = ht_size t" "ht_mask ?t = ht_mask t"
    "ht_nbuckets ?t = ht_nbuckets t" by simp_all
  have "chain s' (bk_head ?b) es" using add(2) by simp
  note new = inv0_new_chain [OF inv i b b' bn t' n this hv same' dis]
  show ?thesis
  proof (rule that [OF run])
    show "htab_inv0 ?t s' (B(bk_addr b := es))" by (rule new(1))
    show "es \<noteq> []" using len by auto
    show "map bk_addr (bks ?t) = map bk_addr (bks t)" by (rule new(3))
    have "ents t B = (\<Union>c \<in> {c \<in> set (bks t). bk_addr c \<noteq> bk_addr b}. set (B (bk_addr c))) \<union> set (B (bk_addr b))"
      using mem by (auto simp: ents_def)
    then show "ents ?t (B(bk_addr b := es)) = insert e (ents t B)"
      using new(2) by (simp add: set_es)
    show "\<forall>x. x \<notin> insert e (ents t B) \<longrightarrow> unlinked s' x = unlinked s x"
      using mem un by (auto simp: ents_def)
  qed
qed

lemma inv_addr:
  assumes "htab_inv0 t' s B'" and "map bk_addr (bks t') = map bk_addr (bks t)"
    and "\<And>c. c \<in> set (bks t) \<Longrightarrow> B' (bk_addr c) \<noteq> []"
  shows "htab_inv t' s B'"
proof -
  have "bk_addr ` set (bks t') = bk_addr ` set (bks t)"
    using arg_cong [OF assms(2), of set] by simp
  then show ?thesis using assms(1,3) unfolding htab_inv_def by (metis image_iff)
qed

lemma resize_inv:
  assumes inv: "htab_inv t s B" and run: "htab_resize t mm = (0, t', mm')" and small: "ht_size t < 2 ^ 30"
  shows "htab_inv t' s B" and "ents t' B = ents t B" and "mset (bks t') = mset (bks t)"
    and "ht_size t' = 2 * ht_size t" and "ht_nbuckets t' = ht_nbuckets t"
proof -
  from inv have shape: "htab_shape t" by (simp add: htab_inv_def htab_inv0_def)
  then obtain k where k: "ht_size t = 2 ^ k" "length (ht_tab t) = 2 ^ k"
    by (auto simp: htab_shape_def)
  have k30: "Suc k \<le> 30"
    using small k(1) power_less_imp_less_exp [of "2::nat" k 30] by simp
  have c: "c_alloc mm \<noteq> (None, snd (c_alloc mm))"
    using run by (auto simp: htab_resize_def ENOMEM_def Let_def split: prod.splits option.splits)
  let ?tab = "resize_slots (2 ^ Suc k - 1) (ht_tab t) (replicate (2 ^ Suc k) [])"
  have t': "t' = t\<lparr>ht_tab := ?tab, ht_size := 2 ^ Suc k, ht_mask := 2 ^ Suc k - 1\<rparr>"
    using run c k by (auto simp: htab_resize_def ENOMEM_def Let_def split: prod.splits option.splits)
  have tab: "slots_ok (2 ^ Suc k - 1) ?tab \<and> length ?tab = 2 ^ Suc k \<and> mset (concat ?tab) = mset (concat (ht_tab t))"
    using htab_idx_less [of "Suc k"] k30 resize_slots_ok [of "2 ^ Suc k - 1" "replicate (2 ^ Suc k) []" "ht_tab t"]
    by (simp add: slots_ok_def del: power_Suc)
  then show mset: "mset (bks t') = mset (bks t)" by (simp add: bks_def t' del: power_Suc)
  have "mset (map bk_addr (bks t')) = mset (map bk_addr (bks t))" by (simp add: mset)
  then have "distinct (map bk_addr (bks t'))"
    using shape mset_eq_imp_distinct_iff unfolding htab_shape_def by blast
  moreover have "length (bks t') = length (bks t)" using mset by (rule mset_eq_length)
  ultimately have shape': "htab_shape t'"
    using tab shape k30 unfolding htab_shape_def t'
    by (auto simp del: power_Suc intro!: exI [of _ "Suc k"])
  have "htab_inv t' s B \<and> ents t' B = ents t B"
    using inv shape' mset by (intro inv_perm) (simp_all add: t')
  then show "htab_inv t' s B" and "ents t' B = ents t B" by simp_all
  show "ht_size t' = 2 * ht_size t" and "ht_nbuckets t' = ht_nbuckets t"
    by (simp_all add: t' k)
qed

lemma new_bucket_inv0:
  assumes inv: "htab_inv t s B" and a: "a \<notin> bk_addr ` set (bks t)"
    and t': "t' = t\<lparr>ht_tab := (ht_tab t)[htab_idx hval (ht_mask t) :=
        \<lparr>bk_addr = a, bk_hval = hval, bk_head = None, bk_nentries = 0\<rparr> # ht_tab t ! htab_idx hval (ht_mask t)],
      ht_nbuckets := Suc (ht_nbuckets t)\<rparr>"
  shows "htab_inv0 t' s (B(a := []))" and "ents t' (B(a := [])) = ents t B"
    and "set (bks t') = insert \<lparr>bk_addr = a, bk_hval = hval, bk_head = None, bk_nentries = 0\<rparr> (set (bks t))"
proof -
  let ?b = "\<lparr>bk_addr = a, bk_hval = hval, bk_head = None, bk_nentries = 0\<rparr>"
  let ?i = "htab_idx hval (ht_mask t)"
  from inv have shape: "htab_shape t" by (simp add: htab_inv_def htab_inv0_def)
  then have slots: "slots_ok (ht_mask t) (ht_tab t)" unfolding htab_shape_def by blast
  have i: "?i < length (ht_tab t)" using shape by (rule idx_less)
  have mset: "mset (bks t') = add_mset ?b (mset (bks t))"
    using mset_concat_update [OF i, of "?b # ht_tab t ! ?i"] by (simp add: bks_def t')
  then show set: "set (bks t') = insert ?b (set (bks t))"
    by (metis set_mset_add_mset_insert set_mset_mset)
  have "mset (map bk_addr (bks t')) = mset (map bk_addr (?b # bks t))" by (simp add: mset)
  then have "distinct (map bk_addr (bks t'))"
    using shape a mset_eq_imp_distinct_iff [of "map bk_addr (bks t')" "map bk_addr (?b # bks t)"]
    by (simp add: htab_shape_def)
  moreover have "length (bks t') = Suc (length (bks t))"
    using arg_cong [OF mset, of size] by simp
  moreover have "slots_ok (ht_mask t') (ht_tab t')"
    unfolding t' using slots i by (simp, intro slots_ok_update) (auto simp: slots_ok_def)
  ultimately have shape': "htab_shape t'" using shape by (auto simp: htab_shape_def t')
  have other: "bk_addr c \<noteq> a" if "c \<in> set (bks t)" for c using a that by auto
  have ok: "bucket_ok s (B(a := [])) c" if "c \<in> set (bks t')" for c
    using that inv other chain_None by (auto simp: set htab_inv_def htab_inv0_def bucket_ok_def)
  have same: "same_bucket (B(a := [])) (set (bks t'))"
    using inv other by (auto simp: set htab_inv_def htab_inv0_def same_bucket_def)
  have "mset (map (\<lambda>b. length ((B(a := [])) (bk_addr b))) (bks t')) =
      mset (map (\<lambda>b. length ((B(a := [])) (bk_addr b))) (?b # bks t))"
    by (simp add: mset)
  then have "(\<Sum>b\<leftarrow>bks t'. length ((B(a := [])) (bk_addr b))) =
      (\<Sum>b\<leftarrow>?b # bks t. length ((B(a := [])) (bk_addr b)))"
    by (metis sum_mset_sum_list)
  also have "\<dots> = (\<Sum>b\<leftarrow>bks t. length (B (bk_addr b)))"
    using other by (auto intro!: arg_cong [of _ _ sum_list])
  finally show "htab_inv0 t' s (B(a := []))"
    using inv shape' ok same by (simp add: htab_inv_def htab_inv0_def t')
  show "ents t' (B(a := [])) = ents t B" using other by (auto simp: ents_def set)
qed

lemma retry_found:
  assumes inv: "htab_inv t s B" and e: "unlinked s e" "e \<notin> ents t B"
    and scan: "b \<in> set (ht_tab t ! htab_idx (op_hval ops e) (ht_mask t))"
      "htab_scan ops (ht_tab t ! htab_idx (op_hval ops e) (ht_mask t)) e = Some (Some b)"
      "\<forall>x \<in> set (B (bk_addr b)). op_cmp ops x e = 0"
  shows "\<exists>t' s'. htab_insert_retry ops (op_hval ops e) t s e mm = Some (0, t', s') \<and>
    htab_rep t' s' (insert e (ents t B)) \<and> (\<forall>x. x \<notin> insert e (ents t B) \<longrightarrow> unlinked s' x = unlinked s x)"
proof -
  let ?i = "htab_idx (op_hval ops e) (ht_mask t)"
  from inv have inv0: "htab_inv0 t s B" by (simp add: htab_inv_def)
  then have i: "?i < length (ht_tab t)" by (auto simp: htab_inv0_def intro: idx_less)
  from slot_in_bks [OF i scan(1)] have mem: "b \<in> set (bks t)" .
  with inv obtain h es where h: "bk_head b = Some h" "B (bk_addr b) = h # es" by (rule inv_head)
  have hv: "op_hval ops e = bk_hval b"
    using inv0 mem h scan(3) cmp_hval [of h e] by (auto simp: htab_inv0_def bucket_ok_def)
  have same: "op_cmp ops x e = 0 \<longleftrightarrow> bk_addr c = bk_addr b"
    if "c \<in> set (bks t)" "x \<in> set (B (bk_addr c))" for c x
  proof -
    have "op_cmp ops h e = 0" using scan(3) h by simp
    then have "op_cmp ops x e = 0 \<longleftrightarrow> op_cmp ops x h = 0" using cmp_trans cmp_sym by blast
    moreover have "h \<in> set (B (bk_addr b))" by (simp add: h)
    then have "op_cmp ops x h = 0 \<longleftrightarrow> bk_addr c = bk_addr b"
      using inv0 that mem unfolding htab_inv0_def same_bucket_def by blast
    ultimately show ?thesis by simp
  qed
  from inv0 i scan(1) e hv same obtain t' s' es' where add: "htab_add_to ops t s ?i b e = Some (t', s')"
    and t': "htab_inv0 t' s' (B(bk_addr b := es'))" "es' \<noteq> []" "map bk_addr (bks t') = map bk_addr (bks t)"
      "ents t' (B(bk_addr b := es')) = insert e (ents t B)"
      "\<forall>x. x \<notin> insert e (ents t B) \<longrightarrow> unlinked s' x = unlinked s x"
    by (rule add_to_inv0)
  have "htab_inv t' s' (B(bk_addr b := es'))"
    using t'(1,3) by (rule inv_addr) (use t'(2) inv in \<open>auto simp: htab_inv_def\<close>)
  with t'(4) have "htab_rep t' s' (insert e (ents t B))" unfolding htab_rep_def by metis
  then show ?thesis using scan(2) add t'(5)
    by (subst htab_insert_retry.simps) (simp add: Let_def)
qed

lemma retry_new:
  assumes inv: "htab_inv t s B" and e: "unlinked s e" "e \<notin> ents t B"
    and none: "\<forall>x \<in> ents t B. op_cmp ops x e \<noteq> 0" and a: "a \<notin> bk_addr ` set (bks t)"
    and b: "b = \<lparr>bk_addr = a, bk_hval = op_hval ops e, bk_head = None, bk_nentries = 0\<rparr>"
    and u: "u = t\<lparr>ht_tab := (ht_tab t)[htab_idx (op_hval ops e) (ht_mask t) :=
          b # ht_tab t ! htab_idx (op_hval ops e) (ht_mask t)], ht_nbuckets := Suc (ht_nbuckets t)\<rparr>"
  shows "\<exists>t' s'. htab_add_to ops u s (htab_idx (op_hval ops e) (ht_mask t)) b e = Some (t', s') \<and>
    htab_rep t' s' (insert e (ents t B)) \<and> (\<forall>x. x \<notin> insert e (ents t B) \<longrightarrow> unlinked s' x = unlinked s x)"
proof -
  let ?i = "htab_idx (op_hval ops e) (ht_mask t)"
  note new = new_bucket_inv0 [OF inv a u [unfolded b], folded b]
  have i: "?i < length (ht_tab t)"
    using inv by (auto simp: htab_inv_def htab_inv0_def intro: idx_less)
  have addr: "bk_addr b = a" by (simp add: b)
  have same: "op_cmp ops x e = 0 \<longleftrightarrow> bk_addr c = bk_addr b"
    if "c \<in> set (bks u)" "x \<in> set ((B(a := [])) (bk_addr c))" for c x
  proof -
    from that have "c \<in> set (bks t)" "bk_addr c \<noteq> a" "x \<in> set (B (bk_addr c))"
      by (auto simp: new(3) b split: if_splits)
    with none show ?thesis by (auto simp: addr ents_def)
  qed
  have "e \<notin> ents u (B(a := []))" using e(2) by (simp add: new(2))
  moreover have "?i < length (ht_tab u)" "b \<in> set (ht_tab u ! ?i)" using i by (simp_all add: u)
  moreover have "op_hval ops e = bk_hval b" by (simp add: b)
  ultimately obtain t' s' es' where add: "htab_add_to ops u s ?i b e = Some (t', s')"
    and t': "htab_inv0 t' s' (B(a := [], bk_addr b := es'))" "es' \<noteq> []" "map bk_addr (bks t') = map bk_addr (bks u)"
      "ents t' (B(a := [], bk_addr b := es')) = insert e (ents u (B(a := [])))"
      "\<forall>x. x \<notin> insert e (ents u (B(a := []))) \<longrightarrow> unlinked s' x = unlinked s x"
    using add_to_inv0 [OF new(1) _ _ e(1) _ _ same] by metis
  have "htab_inv t' s' (B(a := [], bk_addr b := es'))"
    using t'(1,3) by (rule inv_addr) (use t'(2) inv in \<open>auto simp: htab_inv_def new(3) addr\<close>)
  with t'(4) have "htab_rep t' s' (insert e (ents t B))" unfolding htab_rep_def new(2) by metis
  then show ?thesis using add t'(5) by (simp add: new(2))
qed

text \<open>
  The outcome of an insertion: the entry is in the table, or there was no memory and the table
  holds what it held; with \<open>n\<close> successful allocations there is no second case.
\<close>

definition insert_post :: "'s \<Rightarrow> 'e set \<Rightarrow> 'e \<Rightarrow> allocs \<Rightarrow> nat \<Rightarrow> int \<Rightarrow> 'e dt_htab \<Rightarrow> 's \<Rightarrow> bool" where
  "insert_post s E e mm n r t' s' \<longleftrightarrow>
     r = 0 \<and> htab_rep t' s' (insert e E) \<and> (\<forall>x. x \<notin> insert e E \<longrightarrow> unlinked s' x = unlinked s x) \<or>
     r = - ENOMEM \<and> s' = s \<and> htab_rep t' s E \<and> (None \<in> set mm \<or> length mm < n)"

lemma retry_add:
  assumes inv: "htab_inv t s B" and e: "unlinked s e" "e \<notin> ents t B"
    and scan: "htab_scan ops (ht_tab t ! htab_idx (op_hval ops e) (ht_mask t)) e = Some None"
      "\<forall>x \<in> ents t B. op_cmp ops x e \<noteq> 0"
    and fresh: "\<And>a. Some a \<in> set mm \<Longrightarrow> a \<notin> bk_addr ` set (bks t)"
    and small: "\<not> ht_nbuckets t div 2 > ht_size t" and n: "0 < n"
  shows "\<exists>r t' s'. htab_insert_retry ops (op_hval ops e) t s e mm = Some (r, t', s') \<and>
    insert_post s (ents t B) e mm n r t' s'"
proof (cases "c_alloc mm")
  case (Pair p mm')
  show ?thesis
  proof (cases p)
    case None
    then have "None \<in> set mm \<or> mm = []" using Pair by (cases mm) auto
    with None Pair scan small inv n show ?thesis
      by (subst htab_insert_retry.simps) (auto simp: Let_def htab_rep_def insert_post_def)
  next
    case (Some a)
    then have "Some a \<in> set mm" using Pair by (cases mm) auto
    then have a: "a \<notin> bk_addr ` set (bks t)" by (rule fresh)
    from retry_new [OF inv e scan(2) a refl refl] Some Pair scan small show ?thesis
      by (subst htab_insert_retry.simps) (auto simp: Let_def insert_post_def)
  qed
qed

lemma retry_rep:
  assumes "htab_inv t s B" and "unlinked s e" and "e \<notin> ents t B" and "ht_nbuckets t < 2 ^ 31"
    and "\<And>a. Some a \<in> set mm \<Longrightarrow> a \<notin> bk_addr ` set (bks t)" and "ht_size t = 2 ^ k"
  shows "\<exists>r t' s'. htab_insert_retry ops (op_hval ops e) t s e mm = Some (r, t', s') \<and>
    insert_post s (ents t B) e mm (31 - k) r t' s'"
  using assms
proof (induction "30 - k" arbitrary: t mm k rule: less_induct)
  case less
  let ?i = "htab_idx (op_hval ops e) (ht_mask t)"
  have k: "k \<le> 30" using less.prems(1,6) by (auto simp: htab_inv_defs)
  from scan_table [OF less.prems(1), of e] consider
    b where "b \<in> set (ht_tab t ! ?i)" "htab_scan ops (ht_tab t ! ?i) e = Some (Some b)"
      "\<forall>x \<in> set (B (bk_addr b)). op_cmp ops x e = 0"
    | "htab_scan ops (ht_tab t ! ?i) e = Some None" "\<forall>x \<in> ents t B. op_cmp ops x e \<noteq> 0" by blast
  then show ?case
  proof cases
    case 1
    then show ?thesis using retry_found [OF less.prems(1-3) 1, of mm] unfolding insert_post_def by blast
  next
    case scan: 2
    show ?thesis
    proof (cases "ht_nbuckets t div 2 > ht_size t")
      case False
      with k show ?thesis by (intro retry_add [OF less.prems(1-3) scan less.prems(5)]) auto
    next
      case True
      have "ht_nbuckets t div 2 < 2 ^ 30" using less.prems(4) by (simp add: div_less_iff_less_mult)
      with True have size: "ht_size t < 2 ^ 30" by linarith
      then have k30: "k < 30" using power_less_imp_less_exp [of "2::nat" k 30] less.prems(6) by simp
      obtain err t' mm' where run: "htab_resize t mm = (err, t', mm')" by (cases "htab_resize t mm")
      show ?thesis
      proof (cases "err = 0")
        case False
        then have "err = - ENOMEM \<and> t' = t \<and> (None \<in> set mm \<or> mm = [])"
          using run by (cases mm) (auto simp: htab_resize_def Let_def split: option.splits)
        with scan True run k30 less.prems(1) show ?thesis
          by (subst htab_insert_retry.simps)
            (auto simp: Let_def htab_rep_def insert_post_def ENOMEM_def)
      next
        case ok: True
        note resized = resize_inv [OF less.prems(1) run [unfolded ok] size]
        have bks: "set (bks t') = set (bks t)" using resized(3) by (metis set_mset_mset)
        have mm': "\<exists>p. mm = p # mm'"
          using run ok by (cases mm) (auto simp: htab_resize_def Let_def ENOMEM_def split: option.splits)
        have fresh': "a \<notin> bk_addr ` set (bks t')" if "Some a \<in> set mm'" for a
          using less.prems(5) [of a] mm' that unfolding bks by auto
        have "\<exists>r t'' s'. htab_insert_retry ops (op_hval ops e) t' s e mm' = Some (r, t'', s') \<and>
            insert_post s (ents t' B) e mm' (31 - Suc k) r t'' s'"
          using less.prems(1-4,6) fresh' resized k30 by (intro less.hyps) auto
        with mm' k30 have "\<exists>r t'' s'. htab_insert_retry ops (op_hval ops e) t' s e mm' = Some (r, t'', s') \<and>
            insert_post s (ents t B) e mm (31 - k) r t'' s'"
          by (auto simp: resized(2) insert_post_def)
        with scan True run ok show ?thesis by (subst htab_insert_retry.simps) (simp add: Let_def)
      qed
    qed
  qed
qed

lemma insert_rep:
  assumes "htab_rep t s E" and "unlinked s e" and "e \<notin> E" and "ht_nbuckets t < 2 ^ 31"
    and "\<And>a. Some a \<in> set mm \<Longrightarrow> a \<notin> bk_addr ` set (bks t)"
  shows "\<exists>r t' s'. dt_htab_insert ops t s e mm = Some (r, t', s') \<and> insert_post s E e mm 31 r t' s'"
proof -
  from assms(1) obtain B where B: "htab_inv t s B" "E = ents t B" by (auto simp: htab_rep_def)
  then obtain k where k: "ht_size t = 2 ^ k" by (auto simp: htab_inv_defs)
  obtain r t' s' where "dt_htab_insert ops t s e mm = Some (r, t', s')"
    "insert_post s E e mm (31 - k) r t' s'"
    using retry_rep [OF B(1) assms(2) _ assms(4,5) k] assms(3)
    unfolding B(2) dt_htab_insert_def by blast
  moreover have "length mm < 31 - k \<Longrightarrow> length mm < 31" by simp
  ultimately show ?thesis unfolding insert_post_def by blast
qed

section \<open>Deletion\<close>

text \<open>Removing a bucket from its slot removes it from the table.\<close>

lemma filter_idx:
  assumes "htab_shape t" and "i < length (ht_tab t)" and "b \<in> set (ht_tab t ! i)"
  shows "mset (concat ((ht_tab t)[i := filter (\<lambda>c. bk_addr c \<noteq> bk_addr b) (ht_tab t ! i)])) =
    filter_mset (\<lambda>c. bk_addr c \<noteq> bk_addr b) (mset (bks t))"
proof -
  let ?P = "\<lambda>c. bk_addr c \<noteq> bk_addr b"
  have "filter ?P (ht_tab t ! j) = ht_tab t ! j" if "j < length (ht_tab t)" "j \<noteq> i" for j
  proof -
    have "?P c" if "c \<in> set (ht_tab t ! j)" for c
      using assms \<open>j < length (ht_tab t)\<close> \<open>j \<noteq> i\<close> that slot_in_bks bks_addr_inj
      unfolding htab_shape_def slots_ok_def by metis
    then show ?thesis by simp
  qed
  then have "(ht_tab t)[i := filter ?P (ht_tab t ! i)] = map (filter ?P) (ht_tab t)"
    using assms(2) by (intro list_eq_iff_nth_eq [THEN iffD2]) (auto simp: nth_list_update)
  then show ?thesis by (simp add: bks_def filter_concat flip: mset_filter)
qed

lemma delete_last:
  assumes inv: "htab_inv t s B" and i: "i < length (ht_tab t)" and b: "b \<in> set (ht_tab t ! i)"
    and one: "B (bk_addr b) = [e]"
    and t': "t' = t\<lparr>ht_nentries := ht_nentries t - 1,
        ht_tab := (ht_tab t)[i := filter (\<lambda>c. bk_addr c \<noteq> bk_addr b) (ht_tab t ! i)],
        ht_nbuckets := ht_nbuckets t - 1\<rparr>"
    and frame: "\<And>c. c \<in> set (bks t) \<Longrightarrow> bk_addr c \<noteq> bk_addr b \<Longrightarrow> chain s' (bk_head c) (B (bk_addr c))"
  shows "htab_inv t' s' B \<and> ents t' B = ents t B - {e}"
proof -
  let ?P = "\<lambda>c. bk_addr c \<noteq> bk_addr b"
  from inv have shape: "htab_shape t" and inv0: "htab_inv0 t s B"
    by (simp_all add: htab_inv_def htab_inv0_def)
  from slot_in_bks [OF i b] have mem: "b \<in> set (bks t)" .
  have "filter ?P (bks t) = removeAll b (bks t)"
    unfolding removeAll_filter_not_eq using bks_addr_inj [OF shape mem] by (intro filter_cong) auto
  moreover have "distinct (bks t)" using shape by (auto simp: htab_shape_def distinct_map)
  ultimately have "mset (bks t') = mset (remove1 b (bks t))"
    using filter_idx [OF shape i b]
    by (simp add: bks_def t' distinct_remove1_removeAll flip: mset_filter)
  then have mset: "mset (bks t) = mset (b # bks t')" using mem by simp
  then have set: "set (bks t) = insert b (set (bks t'))" by (metis list.simps(15) set_mset_mset)
  have "mset (map bk_addr (bks t)) = mset (map bk_addr (b # bks t'))"
    unfolding mset_map mset by (rule refl)
  then have dist: "distinct (map bk_addr (b # bks t'))"
    using shape mset_eq_imp_distinct_iff unfolding htab_shape_def by blast
  have "mset (map (\<lambda>b. length (B (bk_addr b))) (bks t)) = mset (map (\<lambda>b. length (B (bk_addr b))) (b # bks t'))"
    unfolding mset_map mset by (rule refl)
  then have "(\<Sum>b\<leftarrow>bks t. length (B (bk_addr b))) = Suc (\<Sum>b\<leftarrow>bks t'. length (B (bk_addr b)))"
    using one by (metis (no_types, lifting) sum_mset_sum_list list.simps(9) sum_list.Cons length_Cons list.size(3) plus_1_eq_Suc One_nat_def)
  moreover have "ht_nentries t' = ht_nentries t - 1" by (simp add: t')
  ultimately have n: "ht_nentries t' = (\<Sum>b\<leftarrow>bks t'. length (B (bk_addr b)))"
    using inv0 by (simp add: htab_inv0_def)
  have slots: "slots_ok (ht_mask t) (ht_tab t)" using shape unfolding htab_shape_def by blast
  then have "slots_ok (ht_mask t') (ht_tab t')"
    unfolding t' using i by (simp, intro slots_ok_update) (auto simp: slots_ok_def)
  moreover have "Suc (length (bks t')) = length (bks t)" using mset_eq_length [OF mset] by simp
  ultimately have shape': "htab_shape t'" using shape dist by (auto simp: htab_shape_def t')
  have other: "bk_addr c \<noteq> bk_addr b" if "c \<in> set (bks t')" for c
    using dist imageI [OF that, of bk_addr] by auto
  have ok: "bucket_ok s' B c" if "c \<in> set (bks t')" for c
    using that inv0 frame other by (auto simp: set htab_inv0_def bucket_ok_def)
  have same: "same_bucket B (set (bks t'))" using inv0 by (auto simp: htab_inv0_def same_bucket_def set)
  have "e \<notin> set (B (bk_addr c))" if "c \<in> set (bks t')" for c
    using inv0 bucket_disjoint [of B "set (bks t)" c b] that other [OF that] one by (auto simp: htab_inv0_def set)
  then have "ents t' B = ents t B - {e}" by (auto simp: ents_def set one)
  with inv n shape' ok same show ?thesis by (auto simp: htab_inv_def htab_inv0_def set)
qed

lemma delete_some:
  assumes inv: "htab_inv t s B" and i: "i < length (ht_tab t)" and b: "b \<in> set (ht_tab t ! i)"
    and e: "e \<in> set (B (bk_addr b))" and h: "chain s' (Some h) (remove1 e (B (bk_addr b)))"
    and t': "t' = t\<lparr>ht_nentries := ht_nentries t - 1,
        ht_tab := (ht_tab t)[i := bk_update (bk_addr b) (\<lambda>_. b\<lparr>bk_nentries := bk_nentries b - 1, bk_head := Some h\<rparr>) (ht_tab t ! i)]\<rparr>"
    and frame: "\<And>c. c \<in> set (bks t) \<Longrightarrow> bk_addr c \<noteq> bk_addr b \<Longrightarrow> chain s' (bk_head c) (B (bk_addr c))"
  shows "htab_rep t' s' (ents t B - {e})"
proof -
  let ?es = "remove1 e (B (bk_addr b))" and ?b = "b\<lparr>bk_nentries := bk_nentries b - 1, bk_head := Some h\<rparr>"
  from inv have inv0: "htab_inv0 t s B" by (simp add: htab_inv_def)
  from slot_in_bks [OF i b] have mem: "b \<in> set (bks t)" .
  have ok: "chain s (bk_head b) (B (bk_addr b))" "bk_nentries b = length (B (bk_addr b))"
    "\<forall>x \<in> set (B (bk_addr b)). op_hval ops x = bk_hval b"
    using inv0 mem by (auto simp: htab_inv0_def bucket_ok_def)
  have dist: "distinct (B (bk_addr b))" using ok(1) by (rule chain_distinct)
  have len: "length (B (bk_addr b)) = Suc (length ?es)"
    using e length_pos_if_in_set [OF e] by (simp add: length_remove1)
  have "length (B (bk_addr b)) \<le> ht_nentries t"
    using member_le_sum_list [of "length (B (bk_addr b))" "map (\<lambda>b. length (B (bk_addr b))) (bks t)"] inv0 mem
    by (simp add: htab_inv0_def)
  then have n: "ht_nentries t' + length (B (bk_addr b)) = ht_nentries t + length ?es"
    using len by (simp add: t')
  have same: "same_bucket (B(bk_addr b := ?es)) (set (bks t))"
  proof (rule same_bucket_mono)
    show "same_bucket B (set (bks t))" using inv0 by (simp add: htab_inv0_def)
    show "set ((B(bk_addr b := ?es)) a) \<subseteq> set (B a)" for a by (simp add: set_remove1_subset)
  qed
  have bn: "bk_nentries ?b = length ?es" using ok(2) len by simp
  have hv: "op_hval ops x = bk_hval b" if "x \<in> set ?es" for x
    using that ok(3) set_remove1_subset [of e "B (bk_addr b)"] by blast
  have b': "bk_addr ?b = bk_addr b" "bk_hval ?b = bk_hval b" by simp_all
  have tt: "ht_tab t' = (ht_tab t)[i := bk_update (bk_addr b) (\<lambda>_. ?b) (ht_tab t ! i)]" "ht_size t' = ht_size t"
    "ht_mask t' = ht_mask t" "ht_nbuckets t' = ht_nbuckets t" by (simp_all add: t')
  have "chain s' (bk_head ?b) ?es" using h by simp
  note new = inv0_new_chain [OF inv0 i b b' bn tt n this hv same frame]
  have "?es \<noteq> []" using chain_Some [OF h] by auto
  with inv have "htab_inv t' s' (B(bk_addr b := ?es))"
    by (intro inv_addr [OF new(1,3)]) (auto simp: htab_inv_def)
  moreover have "e \<notin> set (B (bk_addr c))" if "c \<in> set (bks t)" "bk_addr c \<noteq> bk_addr b" for c
    using inv0 bucket_disjoint [of B "set (bks t)" c b] that mem e by (auto simp: htab_inv0_def)
  then have "ents t B - {e} = (\<Union>c \<in> {c \<in> set (bks t). bk_addr c \<noteq> bk_addr b}. set (B (bk_addr c))) \<union> set ?es"
    using mem dist by (auto simp: ents_def)
  then have "ents t' (B(bk_addr b := ?es)) = ents t B - {e}" using new(2) by simp
  ultimately show ?thesis unfolding htab_rep_def by metis
qed

lemma delete_rep:
  assumes rep: "htab_rep t s E" and e: "e \<in> E"
  shows "\<exists>t' s'. dt_htab_delete ops t s e = Some (0, t', s') \<and> htab_rep t' s' (E - {e}) \<and>
    unlinked s' e \<and> (\<forall>x. x \<notin> E \<longrightarrow> unlinked s' x = unlinked s x)"
proof -
  from rep obtain B where B: "htab_inv t s B" and E: "E = ents t B" by (auto simp: htab_rep_def)
  then have inv0: "htab_inv0 t s B" and shape: "htab_shape t" by (simp_all add: htab_inv_def htab_inv0_def)
  let ?i = "htab_idx (op_hval ops e) (ht_mask t)"
  have i: "?i < length (ht_tab t)" using shape by (rule idx_less)
  obtain b where b: "b \<in> set (ht_tab t ! ?i)" "htab_scan ops (ht_tab t ! ?i) e = Some (Some b)"
    "\<forall>x \<in> set (B (bk_addr b)). op_cmp ops x e = 0"
    using scan_table [OF B, of e] e E cmp_refl by blast
  from slot_in_bks [OF i b(1)] have mem: "b \<in> set (bks t)" .
  with B obtain h es where h: "bk_head b = Some h" "B (bk_addr b) = h # es" by (rule inv_head)
  from e E obtain c where c: "c \<in> set (bks t)" "e \<in> set (B (bk_addr c))" by (auto simp: ents_def)
  have "bk_addr b = bk_addr c"
    using inv0 mem c b(3) h unfolding htab_inv0_def same_bucket_def by (metis list.set_intros(1))
  with c have eb: "e \<in> set (B (bk_addr b))" by simp
  have ch: "chain s (Some h) (B (bk_addr b))"
    using inv0 mem h(1) unfolding htab_inv0_def bucket_ok_def by metis
  from del_chain [OF ch eb] obtain p s' where del: "op_del ops s h e = Some (p, s')"
    and p: "chain s' p (remove1 e (B (bk_addr b)))" and un: "unlinked s' e"
    and fr: "\<forall>g gs. chain s g gs \<longrightarrow> set gs \<inter> set (B (bk_addr b)) = {} \<longrightarrow> chain s' g gs"
    and un': "\<forall>x. x \<notin> set (B (bk_addr b)) \<longrightarrow> unlinked s' x = unlinked s x" by blast
  have frame: "chain s' (bk_head c) (B (bk_addr c))" if "c \<in> set (bks t)" "bk_addr c \<noteq> bk_addr b" for c
    using inv0 that mem fr bucket_disjoint [of B "set (bks t)" c b] by (auto simp: htab_inv0_def bucket_ok_def)
  have keep: "\<forall>x. x \<notin> E \<longrightarrow> unlinked s' x = unlinked s x"
    using un' mem by (auto simp: E ents_def)
  show ?thesis
  proof (cases p)
    case None
    with p chain_None have "remove1 e (B (bk_addr b)) = []" by blast
    with eb have one: "B (bk_addr b) = [e]"
      using h(2) by (auto split: if_splits)
    from delete_last [OF B i b(1) one refl frame] None b(2) h(1) del un keep show ?thesis
      unfolding E htab_rep_def dt_htab_delete_def by (auto simp: Let_def)
  next
    case (Some h')
    from delete_some [OF B i b(1) eb p [unfolded Some] refl frame] Some b(2) h(1) del un keep show ?thesis
      unfolding E dt_htab_delete_def by (simp add: Let_def)
  qed
qed

lemma delete_absent:
  assumes "htab_rep t s E" and "\<forall>x \<in> E. op_cmp ops x e \<noteq> 0"
  shows "dt_htab_delete ops t s e = Some (- ENOENT, t, s)"
proof -
  from assms(1) obtain B where B: "htab_inv t s B" and E: "E = ents t B" by (auto simp: htab_rep_def)
  let ?i = "htab_idx (op_hval ops e) (ht_mask t)"
  have i: "?i < length (ht_tab t)" using B by (auto simp: htab_inv_def htab_inv0_def intro: idx_less)
  have "htab_scan ops (ht_tab t ! ?i) e = Some None"
    using scan_table [OF B, of e]
  proof
    assume "\<exists>b \<in> set (ht_tab t ! ?i). htab_scan ops (ht_tab t ! ?i) e = Some (Some b) \<and>
      (\<forall>x \<in> set (B (bk_addr b)). op_cmp ops x e = 0)"
    then obtain b where b: "b \<in> set (bks t)" "\<forall>x \<in> set (B (bk_addr b)). op_cmp ops x e = 0"
      using slot_in_bks [OF i] by blast
    moreover from B b(1) have "B (bk_addr b) \<noteq> []" by (simp add: htab_inv_def)
    ultimately show ?thesis using assms(2) by (auto simp: E ents_def neq_Nil_conv)
  qed simp
  then show ?thesis by (simp add: dt_htab_delete_def Let_def)
qed

section \<open>Finding by predicate, counting and destruction\<close>

lemma find_next_chain:
  assumes "chain s p es"
  shows "htab_find_next ops s cmpf (hd_or (drop i es) None) = Some (find cmpf (drop i es))"
proof (induction "length es - i" arbitrary: i)
  case 0
  then show ?case by (subst htab_find_next.simps) simp
next
  case (Suc n)
  then have i: "i < length es" by simp
  then have d: "drop i es = es ! i # drop (Suc i) es" by (simp add: Cons_nth_drop_Suc)
  have "htab_find_next ops s cmpf (hd_or (drop (Suc i) es) None) = Some (find cmpf (drop (Suc i) es))"
    using Suc.hyps(2) by (intro Suc.hyps(1)) simp
  with i d chain_next [OF assms i] show ?case by (subst htab_find_next.simps) simp
qed

lemma lookup_bucket:
  assumes "htab_inv t s B"
  shows "(\<exists>b \<in> set (bks t). dt_htab_lookup ops t e = Some (bk_head b) \<and> (\<forall>x \<in> set (B (bk_addr b)). op_cmp ops x e = 0)) \<or>
    dt_htab_lookup ops t e = Some None \<and> (\<forall>x \<in> ents t B. op_cmp ops x e \<noteq> 0)"
proof -
  have "htab_idx (op_hval ops e) (ht_mask t) < length (ht_tab t)"
    using assms by (auto simp: htab_inv_def htab_inv0_def intro: idx_less)
  note slot = slot_in_bks [OF this]
  from scan_table [OF assms, of e] show ?thesis
    using slot by (auto simp: dt_htab_lookup_def)
qed

lemma find_rep:
  assumes "htab_rep t s E"
  shows "\<exists>r. dt_htab_find ops t s e cmpf = Some r \<and>
    (case r of None \<Rightarrow> \<forall>x \<in> E. op_cmp ops x e = 0 \<longrightarrow> \<not> cmpf x
     | Some x \<Rightarrow> x \<in> E \<and> op_cmp ops x e = 0 \<and> cmpf x)"
proof -
  from assms obtain B where B: "htab_inv t s B" and E: "E = ents t B" by (auto simp: htab_rep_def)
  from lookup_bucket [OF B, of e] show ?thesis
  proof
    assume "\<exists>b \<in> set (bks t). dt_htab_lookup ops t e = Some (bk_head b) \<and>
      (\<forall>x \<in> set (B (bk_addr b)). op_cmp ops x e = 0)"
    then obtain b where b: "b \<in> set (bks t)" "dt_htab_lookup ops t e = Some (bk_head b)"
      "\<forall>x \<in> set (B (bk_addr b)). op_cmp ops x e = 0" by blast
    from B b(1) obtain h es where h: "bk_head b = Some h" "B (bk_addr b) = h # es" by (rule inv_head)
    have "chain s (bk_head b) (B (bk_addr b))"
      using B b(1) by (simp add: htab_inv_def htab_inv0_def bucket_ok_def)
    then have "chain s (Some h) (h # es)" by (simp add: h)
    define r where "r = find cmpf (h # es)"
    from find_next_chain [OF \<open>chain s (Some h) (h # es)\<close>, of cmpf 0]
    have run: "dt_htab_find ops t s e cmpf = Some r"
      by (simp add: dt_htab_find_def b(2) h(1) r_def)
    have mem: "x \<in> E \<and> op_cmp ops x e = 0" if "x \<in> set (h # es)" for x
      using that b(3) UN_I [OF b(1), of x "\<lambda>b. set (B (bk_addr b))"] by (auto simp: E ents_def h(2))
    have "\<not> cmpf x" if none: "r = None" and x: "x \<in> E" "op_cmp ops x e = 0" for x
    proof -
      from x(1) obtain c where c: "c \<in> set (bks t)" "x \<in> set (B (bk_addr c))" by (auto simp: E ents_def)
      have hb: "h \<in> set (B (bk_addr b))" by (simp add: h(2))
      have "op_cmp ops x h = 0" using x(2) bspec [OF b(3) hb] cmp_trans cmp_sym by blast
      then have "bk_addr c = bk_addr b"
        using B b(1) c hb unfolding htab_inv_def htab_inv0_def same_bucket_def by blast
      with c(2) h(2) have "x \<in> set (h # es)" by simp
      with none show ?thesis unfolding r_def find_None_iff by blast
    qed
    moreover have "x \<in> E \<and> op_cmp ops x e = 0 \<and> cmpf x" if "r = Some x" for x
      using find_SomeD [OF that [unfolded r_def]] mem [of x] by simp
    ultimately show ?thesis unfolding run by (cases r) simp_all
  next
    assume "dt_htab_lookup ops t e = Some None \<and> (\<forall>x \<in> ents t B. op_cmp ops x e \<noteq> 0)"
    moreover have "htab_find_next ops s cmpf None = Some None" by (subst htab_find_next.simps) simp
    ultimately show ?thesis by (simp add: dt_htab_find_def E)
  qed
qed

lemma distinct_buckets:
  assumes "distinct (map bk_addr bs)" and "same_bucket B (set bs)"
    and "\<And>b. b \<in> set bs \<Longrightarrow> distinct (B (bk_addr b))"
  shows "distinct (concat (map (\<lambda>b. B (bk_addr b)) bs))"
  using assms
proof (induction bs)
  case Nil
  then show ?case by simp
next
  case (Cons b bs)
  have "set (B (bk_addr b)) \<inter> set (B (bk_addr c)) = {}" if "c \<in> set bs" for c
    using Cons.prems(1,2) imageI [OF that, of bk_addr] that by (intro bucket_disjoint [of B "set (b # bs)"]) auto
  moreover have "same_bucket B (set bs)" using Cons.prems(2) by (auto simp: same_bucket_def)
  ultimately show ?case using Cons by auto
qed

lemma inv_distinct: "htab_inv t s B \<Longrightarrow> distinct (concat (map (\<lambda>b. B (bk_addr b)) (bks t)))"
  by (rule distinct_buckets)
    (auto simp: htab_inv_def htab_inv0_def htab_shape_def bucket_ok_def intro: chain_distinct)

lemma entries_rep:
  assumes "htab_rep t s E"
  shows "finite E \<and> dt_htab_entries t = card E"
proof -
  from assms obtain B where B: "htab_inv t s B" and E: "E = ents t B" by (auto simp: htab_rep_def)
  have set: "E = set (concat (map (\<lambda>b. B (bk_addr b)) (bks t)))" by (auto simp: E ents_def)
  have "card E = length (concat (map (\<lambda>b. B (bk_addr b)) (bks t)))"
    unfolding set using inv_distinct [OF B] by (rule distinct_card)
  then show ?thesis
    using B set by (auto simp: dt_htab_entries_def htab_inv_def htab_inv0_def length_concat o_def)
qed

lemma drain_chain_ok:
  assumes "chain s p es"
  shows "\<exists>s'. htab_drain ops s p = Some s' \<and> (\<forall>x \<in> set es. unlinked s' x) \<and>
    (\<forall>g gs. chain s g gs \<longrightarrow> set gs \<inter> set es = {} \<longrightarrow> chain s' g gs) \<and>
    (\<forall>x. x \<notin> set es \<longrightarrow> unlinked s' x = unlinked s x)"
  using assms
proof (induction es arbitrary: s p)
  case Nil
  then have "p = None" using chain_Some by (cases p) auto
  then show ?case by (subst htab_drain.simps) simp
next
  case (Cons e es)
  then have p: "p = Some e" using chain_Some chain_None by (cases p) fastforce+
  have d: "e \<notin> set es" using chain_distinct [OF Cons.prems] by simp
  from del_chain [OF Cons.prems [unfolded p], of e] obtain q s1 where del: "op_del ops s e e = Some (q, s1)"
    and q: "chain s1 q es" "unlinked s1 e"
    and fr: "\<forall>g gs. chain s g gs \<longrightarrow> set gs \<inter> set (e # es) = {} \<longrightarrow> chain s1 g gs"
    and un: "\<forall>x. x \<notin> set (e # es) \<longrightarrow> unlinked s1 x = unlinked s x" by auto
  from Cons.IH [OF q(1)] obtain s' where "htab_drain ops s1 q = Some s'" "\<forall>x \<in> set es. unlinked s' x"
    "\<forall>g gs. chain s1 g gs \<longrightarrow> set gs \<inter> set es = {} \<longrightarrow> chain s' g gs"
    "\<forall>x. x \<notin> set es \<longrightarrow> unlinked s' x = unlinked s1 x" by blast
  with del q(2) fr un d p show ?case by (subst htab_drain.simps) auto
qed

lemma drain_buckets:
  assumes "\<And>b. b \<in> set bs \<Longrightarrow> chain s (bk_head b) (B (bk_addr b))"
    and "distinct (concat (map (\<lambda>b. B (bk_addr b)) bs))"
  shows "\<exists>s'. htab_drain_chain ops s bs = Some s' \<and> (\<forall>b \<in> set bs. \<forall>x \<in> set (B (bk_addr b)). unlinked s' x) \<and>
    (\<forall>x. x \<notin> (\<Union>b \<in> set bs. set (B (bk_addr b))) \<longrightarrow> unlinked s' x = unlinked s x)"
  using assms
proof (induction bs arbitrary: s)
  case Nil
  then show ?case by simp
next
  case (Cons b bs)
  have "chain s (bk_head b) (B (bk_addr b))" using Cons.prems(1) by simp
  from drain_chain_ok [OF this] obtain s1 where s1: "htab_drain ops s (bk_head b) = Some s1"
    "\<forall>x \<in> set (B (bk_addr b)). unlinked s1 x"
    "\<forall>g gs. chain s g gs \<longrightarrow> set gs \<inter> set (B (bk_addr b)) = {} \<longrightarrow> chain s1 g gs"
    "\<forall>x. x \<notin> set (B (bk_addr b)) \<longrightarrow> unlinked s1 x = unlinked s x" by blast
  have disj: "set (B (bk_addr c)) \<inter> set (B (bk_addr b)) = {}" if "c \<in> set bs" for c
    using Cons.prems(2) that by auto
  have "chain s1 (bk_head c) (B (bk_addr c))" if "c \<in> set bs" for c
    using Cons.prems(1) that s1(3) disj by simp
  moreover have "distinct (concat (map (\<lambda>b. B (bk_addr b)) bs))" using Cons.prems(2) by simp
  ultimately obtain s' where s': "htab_drain_chain ops s1 bs = Some s'"
    "\<forall>b \<in> set bs. \<forall>x \<in> set (B (bk_addr b)). unlinked s' x"
    "\<forall>x. x \<notin> (\<Union>b \<in> set bs. set (B (bk_addr b))) \<longrightarrow> unlinked s' x = unlinked s1 x"
    using Cons.IH by blast
  have "unlinked s' x" if "x \<in> set (B (bk_addr b))" for x
    using that s1(2) s'(3) disj by blast
  with s1(1,4) s' show ?case by simp
qed

lemma destroy_rep:
  assumes "htab_rep t s E"
  shows "\<exists>s'. dt_htab_destroy ops (Some t) s = Some s' \<and> (\<forall>x \<in> E. unlinked s' x) \<and>
    (\<forall>x. x \<notin> E \<longrightarrow> unlinked s' x = unlinked s x)"
proof -
  from assms obtain B where B: "htab_inv t s B" and E: "E = ents t B" by (auto simp: htab_rep_def)
  have "take (ht_size t) (ht_tab t) = ht_tab t" using B by (auto simp: htab_inv_defs)
  moreover have "chain s (bk_head b) (B (bk_addr b))" if "b \<in> set (bks t)" for b
    using B that by (simp add: htab_inv_def htab_inv0_def bucket_ok_def)
  note drain_buckets [OF this inv_distinct [OF B]]
  ultimately show ?thesis by (simp add: dt_htab_destroy_def bks_def E ents_def)
qed

section \<open>Iteration\<close>

text \<open>
  \<open>it_rem t B i ys\<close>: the iterator \<open>i\<close> stands on the first entry of \<open>ys\<close>, the entries still to be
  returned, or is exhausted and there are none.
\<close>

definition slot_ents :: "(addr \<Rightarrow> 'e list) \<Rightarrow> 'e dt_hbucket list \<Rightarrow> 'e list" where
  "slot_ents B bs = concat (map (\<lambda>b. B (bk_addr b)) bs)"

definition it_rem :: "'e dt_htab \<Rightarrow> (addr \<Rightarrow> 'e list) \<Rightarrow> 'e dt_htab_next \<Rightarrow> 'e list \<Rightarrow> bool" where
  "it_rem t B i ys \<longleftrightarrow>
     (if it_exhausted i then ys = []
      else it_idx i < ht_size t \<and>
        (\<exists>pre b bs k. ht_tab t ! it_idx i = pre @ b # bs \<and> it_bucket i = Some (bk_addr b) \<and>
           k < length (B (bk_addr b)) \<and> it_ent i = Some (B (bk_addr b) ! k) \<and>
           ys = drop k (B (bk_addr b)) @ slot_ents B bs @
             slot_ents B (concat (drop (Suc (it_idx i)) (ht_tab t)))))"

lemma it_remI:
  assumes "\<not> it_exhausted i" and "it_idx i < ht_size t" and "ht_tab t ! it_idx i = pre @ b # bs"
    and "it_bucket i = Some (bk_addr b)" and "k < length (B (bk_addr b))" and "it_ent i = Some (B (bk_addr b) ! k)"
    and "ys = drop k (B (bk_addr b)) @ slot_ents B bs @ slot_ents B (concat (drop (Suc (it_idx i)) (ht_tab t)))"
  shows "it_rem t B i ys"
  unfolding it_rem_def using assms by auto

lemma inv_size: "htab_inv t s B \<Longrightarrow> length (ht_tab t) = ht_size t"
  by (simp add: htab_inv_defs)

lemma advance_slot:
  assumes inv: "htab_inv t s B"
  shows "j \<le> ht_size t \<Longrightarrow>
    \<exists>i. htab_advance ops t s \<lparr>it_idx = j, it_bucket = None, it_ent = None, it_exhausted = False\<rparr> = Some i \<and>
      it_rem t B i (slot_ents B (concat (drop j (ht_tab t))))"
proof (induction "ht_size t - j" arbitrary: j)
  case 0
  then show ?case
    using inv_size [OF inv] by (subst htab_advance.simps) (simp add: it_rem_def slot_ents_def)
next
  case (Suc n)
  then have j: "j < ht_size t" by simp
  have IH: "\<exists>i. htab_advance ops t s \<lparr>it_idx = Suc j, it_bucket = None, it_ent = None, it_exhausted = False\<rparr> = Some i \<and>
      it_rem t B i (slot_ents B (concat (drop (Suc j) (ht_tab t))))"
    using Suc.hyps(2) j by (intro Suc.hyps(1)) auto
  have d: "drop j (ht_tab t) = ht_tab t ! j # drop (Suc j) (ht_tab t)"
    using j inv_size [OF inv] by (simp add: Cons_nth_drop_Suc)
  show ?case
  proof (cases "ht_tab t ! j")
    case Nil
    with IH j d show ?thesis by (subst htab_advance.simps) simp
  next
    case (Cons b bs)
    then have "b \<in> set (bks t)" using j inv_size [OF inv] by (intro slot_in_bks [of j]) auto
    with inv obtain h es where h: "bk_head b = Some h" "B (bk_addr b) = h # es" by (rule inv_head)
    let ?i = "\<lparr>it_idx = j, it_bucket = Some (bk_addr b), it_ent = Some h, it_exhausted = False\<rparr>"
    have "it_rem t B ?i (slot_ents B (concat (drop j (ht_tab t))))"
      unfolding d using Cons j h by (intro it_remI [of _ _ "[]" b bs 0]) (simp_all add: slot_ents_def)
    with Cons j h show ?thesis
      by (subst htab_advance.simps) (simp add: htab_chain_from_def)
  qed
qed

lemma chain_from_self:
  assumes "distinct (map bk_addr (pre @ b # bs))"
  shows "htab_chain_from (pre @ b # bs) (Some (bk_addr b)) = Some (b # bs)"
proof -
  have "bk_addr c \<noteq> bk_addr b" if "c \<in> set pre" for c
    using assms imageI [OF that, of bk_addr] by auto
  then have "dropWhile (\<lambda>c. bk_addr c \<noteq> bk_addr b) (pre @ b # bs) = b # bs"
    by (simp add: dropWhile_append2)
  then show ?thesis by (simp add: htab_chain_from_def)
qed

lemma advance_entry:
  assumes inv: "htab_inv t s B" and rem: "it_rem t B i (y # ys)"
  shows "it_ent i = Some y \<and> (\<exists>i'. htab_advance ops t s i = Some i' \<and> it_rem t B i' ys)"
proof -
  from rem obtain pre b bs k where i: "\<not> it_exhausted i" "it_idx i < ht_size t"
    and slot: "ht_tab t ! it_idx i = pre @ b # bs" "it_bucket i = Some (bk_addr b)"
    and k: "k < length (B (bk_addr b))" "it_ent i = Some (B (bk_addr b) ! k)"
    and ys: "y # ys = drop k (B (bk_addr b)) @ slot_ents B bs @ slot_ents B (concat (drop (Suc (it_idx i)) (ht_tab t)))"
    by (auto simp: it_rem_def split: if_splits)
  have idx: "it_idx i < length (ht_tab t)" using i(2) inv_size [OF inv] by simp
  have mem: "c \<in> set (bks t)" if "c \<in> set (b # bs)" for c
    using slot_in_bks [OF idx] that slot(1) by auto
  have dk: "drop k (B (bk_addr b)) = B (bk_addr b) ! k # drop (Suc k) (B (bk_addr b))"
    using k(1) by (simp add: Cons_nth_drop_Suc)
  have "chain s (bk_head b) (B (bk_addr b))"
    using inv mem [of b] by (simp add: htab_inv_def htab_inv0_def bucket_ok_def)
  then have nx: "op_next ops s (B (bk_addr b) ! k) = Some (hd_or (drop (Suc k) (B (bk_addr b))) None)"
    using k(1) by (rule chain_next)
  have "distinct (map bk_addr (ht_tab t ! it_idx i))"
    using inv idx by (intro distinct_map_nth) (simp_all add: htab_inv_defs bks_def)
  then have frm: "htab_chain_from (pre @ b # bs) (Some (bk_addr b)) = Some (b # bs)"
    unfolding slot(1) by (rule chain_from_self)
  have y: "it_ent i = Some y" using ys dk k(2) by simp
  show ?thesis
  proof (cases "Suc k < length (B (bk_addr b))")
    case True
    let ?i = "i\<lparr>it_bucket := Some (bk_addr b), it_ent := Some (B (bk_addr b) ! Suc k)\<rparr>"
    have "htab_advance ops t s i = Some ?i"
      using i(2) slot k frm nx True by (subst htab_advance.simps) (simp add: nth_hd_or)
    moreover have "it_rem t B ?i ys"
      using i slot True ys dk by (intro it_remI [of _ _ pre b bs "Suc k"]) simp_all
    ultimately show ?thesis using y by blast
  next
    case False
    then have ys': "ys = slot_ents B bs @ slot_ents B (concat (drop (Suc (it_idx i)) (ht_tab t)))"
      using ys dk by simp
    show ?thesis
    proof (cases bs)
      case Nil
      from advance_slot [OF inv, of "Suc (it_idx i)"] i obtain i' where
        "htab_advance ops t s (i\<lparr>it_idx := Suc (it_idx i), it_bucket := None, it_ent := None\<rparr>) = Some i'"
        "it_rem t B i' ys" using ys' Nil by (cases i) (auto simp: slot_ents_def)
      moreover from this(1) have "htab_advance ops t s i = Some i'"
        using i(2) slot k frm nx False Nil by (subst htab_advance.simps) simp
      ultimately show ?thesis using y by blast
    next
      case (Cons c cs)
      then have "c \<in> set (bks t)" using mem [of c] by simp
      with inv obtain h es where h: "bk_head c = Some h" "B (bk_addr c) = h # es" by (rule inv_head)
      let ?i = "i\<lparr>it_bucket := Some (bk_addr c), it_ent := Some h\<rparr>"
      have "htab_advance ops t s i = Some ?i"
        using i(2) slot k frm nx False Cons h by (subst htab_advance.simps) simp
      moreover have "it_rem t B ?i ys"
        using i slot ys' Cons h by (intro it_remI [of _ _ "pre @ [b]" c cs 0]) (simp_all add: slot_ents_def)
      ultimately show ?thesis using y by blast
    qed
  qed
qed

lemma collect_rem:
  assumes "htab_inv t s B" and "it_rem t B i ys"
  shows "htab_collect ops t s (Some i) mm acc = Some (acc @ ys)"
  using assms(2)
proof (induction ys arbitrary: i acc)
  case Nil
  then have "it_exhausted i" by (auto simp: it_rem_def slot_ents_def split: if_splits)
  then show ?case by (subst htab_collect.simps) (simp add: dt_htab_next_def htab_next_cycle_def)
next
  case (Cons y ys)
  then have "\<not> it_exhausted i" by (auto simp: it_rem_def)
  moreover obtain i' where "it_ent i = Some y" "htab_advance ops t s i = Some i'" "it_rem t B i' ys"
    using advance_entry [OF assms(1) Cons.prems] by blast
  ultimately show ?case
    using Cons.IH [of i' "acc @ [y]"]
    by (subst htab_collect.simps) (simp add: dt_htab_next_def htab_next_cycle_def)
qed

lemma collect_rep:
  assumes rep: "htab_rep t s E" and mm: "c_alloc mm = (Some a, mm')"
  shows "\<exists>ys. htab_collect ops t s None mm [] = Some ys \<and> distinct ys \<and> set ys = E"
proof -
  from rep obtain B where B: "htab_inv t s B" and E: "E = ents t B" by (auto simp: htab_rep_def)
  let ?ys = "slot_ents B (bks t)" and ?i = "\<lparr>it_idx = 0, it_bucket = None, it_ent = None, it_exhausted = False\<rparr>"
  from advance_slot [OF B, of 0] obtain i where adv: "htab_advance ops t s ?i = Some i"
    and i: "it_rem t B i ?ys" by (auto simp: bks_def)
  have "dt_htab_next ops t s None mm = htab_next_cycle ops t s i"
    using mm adv by (simp add: dt_htab_next_def htab_next_cycle_def)
  then have "htab_collect ops t s None mm [] = htab_collect ops t s (Some i) mm []"
    by (subst (1 2) htab_collect.simps) (simp add: dt_htab_next_def)
  with collect_rem [OF B i] have "htab_collect ops t s None mm [] = Some ?ys" by simp
  moreover have "distinct ?ys" using inv_distinct [OF B] by (simp add: slot_ents_def)
  moreover have "set ?ys = E" by (auto simp: slot_ents_def E ents_def)
  ultimately show ?thesis by blast
qed

end

end
