(* ===== verification/ProbeHash.thy ===== *)
theory ProbeHash
  imports Htab_Laws
begin

text \<open>
  The clients of the hash table that link their entries with the functions \<^verbatim>\<open>dt_htab.h\<close> generates, and
  the probe tables of \<^verbatim>\<open>libdtrace/dt_probe.c\<close> among them.  The generated functions satisfy the chain
  laws of \<open>htab_client\<close>; the probe hashes and comparisons satisfy the key laws; so every law of the
  table holds for the table of fully qualified probe names and for the per-component tables.
\<close>

section \<open>The generated link functions\<close>

definition he_add :: "links \<Rightarrow> addr option \<Rightarrow> addr \<Rightarrow> (addr option \<times> links) option" where
  "he_add h head new =
     (case head of
        None \<Rightarrow> Some (Some new, h)
      | Some p \<Rightarrow> do {
          h \<leftarrow> set_next h new (Some p);
          h \<leftarrow> set_prev h p (Some new);
          Some (Some new, h)
        })"

definition he_del :: "links \<Rightarrow> addr \<Rightarrow> addr \<Rightarrow> (addr option \<times> links) option" where
  "he_del h head ent = do {
     prev \<leftarrow> get_prev h ent;
     next \<leftarrow> get_next h ent;
     if head = ent then
       (case next of
          None \<Rightarrow> Some (None, h)
        | Some n \<Rightarrow> do {
            h \<leftarrow> set_prev h n None;
            h \<leftarrow> set_next h ent None;
            Some (Some n, h)
          })
     else
       (case next of
          None \<Rightarrow> do {
            p \<leftarrow> prev;
            h \<leftarrow> set_next h p None;
            h \<leftarrow> set_prev h ent None;
            Some (Some head, h)
          }
        | Some n \<Rightarrow> do {
            p \<leftarrow> prev;
            h \<leftarrow> set_next h p (Some n);
            h \<leftarrow> set_prev h n (Some p);
            h \<leftarrow> set_next h ent None;
            h \<leftarrow> set_prev h ent None;
            Some (Some head, h)
          })
   }"

definition he_next :: "links \<Rightarrow> addr \<Rightarrow> addr option option" where
  "he_next h ent = get_next h ent"

definition std_htab_ops :: "(addr \<Rightarrow> u32) \<Rightarrow> (addr \<Rightarrow> addr \<Rightarrow> int) \<Rightarrow> (addr, links) dt_htab_ops" where
  "std_htab_ops hval cmp =
     \<lparr>op_hval = hval, op_cmp = cmp, op_add = he_add, op_del = he_del, op_next = he_next\<rparr>"

section \<open>Probe descriptions as keys\<close>

record dtrace_probedesc =
  pd_id :: u32
  pd_prv :: "u8 list"
  pd_mod :: "u8 list"
  pd_fun :: "u8 list"
  pd_prb :: "u8 list"

text \<open>
  \<open>pd\<close> gives the description of the probe at an address.  The functions for one component are
  generated once for each of \<^verbatim>\<open>prv\<close>, \<^verbatim>\<open>mod\<close>, \<^verbatim>\<open>fun\<close> and \<^verbatim>\<open>prb\<close>; \<open>sel\<close> is the member.
\<close>

definition id_hval :: "(dtrace_probedesc \<Rightarrow> u8 list) \<Rightarrow> (addr \<Rightarrow> dtrace_probedesc) \<Rightarrow> addr \<Rightarrow> u32" where
  "id_hval sel pd probe = str2hval (Some (sel (pd probe))) 0"

definition id_cmp :: "(dtrace_probedesc \<Rightarrow> u8 list) \<Rightarrow> (addr \<Rightarrow> dtrace_probedesc) \<Rightarrow> addr \<Rightarrow> addr \<Rightarrow> int" where
  "id_cmp sel pd p q = c_strcmp (sel (pd p)) (sel (pd q))"

definition fqn_hval :: "(addr \<Rightarrow> dtrace_probedesc) \<Rightarrow> addr \<Rightarrow> u32" where
  "fqn_hval pd probe =
     (let hval = 0;
          hval = str2hval (Some (pd_prv (pd probe))) hval;
          hval = str2hval (Some [58]) hval;
          hval = str2hval (Some (pd_mod (pd probe))) hval;
          hval = str2hval (Some [58]) hval;
          hval = str2hval (Some (pd_fun (pd probe))) hval;
          hval = str2hval (Some [58]) hval;
          hval = str2hval (Some (pd_prb (pd probe))) hval
      in hval)"

definition fqn_cmp :: "(addr \<Rightarrow> dtrace_probedesc) \<Rightarrow> addr \<Rightarrow> addr \<Rightarrow> int" where
  "fqn_cmp pd p q =
     (let rc = c_strcmp (pd_prv (pd p)) (pd_prv (pd q)) in
      if rc \<noteq> 0 then rc else
      let rc = c_strcmp (pd_mod (pd p)) (pd_mod (pd q)) in
      if rc \<noteq> 0 then rc else
      let rc = c_strcmp (pd_fun (pd p)) (pd_fun (pd q)) in
      if rc \<noteq> 0 then rc else
      let rc = c_strcmp (pd_prb (pd p)) (pd_prb (pd q)) in
      if rc \<noteq> 0 then rc else 0)"

definition id_htab_ops :: "(dtrace_probedesc \<Rightarrow> u8 list) \<Rightarrow> (addr \<Rightarrow> dtrace_probedesc) \<Rightarrow> (addr, links) dt_htab_ops" where
  "id_htab_ops sel pd = std_htab_ops (id_hval sel pd) (id_cmp sel pd)"

definition fqn_htab_ops :: "(addr \<Rightarrow> dtrace_probedesc) \<Rightarrow> (addr, links) dt_htab_ops" where
  "fqn_htab_ops pd = std_htab_ops (fqn_hval pd) (fqn_cmp pd)"

section \<open>The chain laws\<close>

definition he_chain :: "links \<Rightarrow> addr option \<Rightarrow> addr list \<Rightarrow> bool" where
  "he_chain h p es \<longleftrightarrow> p = hd_or es None \<and> distinct es \<and> seg h None es None"

definition he_unlinked :: "links \<Rightarrow> addr \<Rightarrow> bool" where
  "he_unlinked h e \<longleftrightarrow> h e = Some \<lparr>lk_prev = None, lk_next = None\<rparr>"

lemma he_chain_frame:
  assumes "he_chain h g gs" and "set gs \<inter> A = {}" and "\<And>x. x \<notin> A \<Longrightarrow> h' x = h x"
  shows "he_chain h' g gs"
proof -
  have "seg h' None gs None = seg h None gs None"
    using assms(2,3) by (intro seg_cong) blast
  with assms(1) show ?thesis by (simp add: he_chain_def)
qed

lemma he_add_chain:
  assumes "he_chain h p es" and "he_unlinked h e" and "e \<notin> set es"
  shows "\<exists>h'. he_add h p e = Some (Some e, h') \<and> he_chain h' (Some e) (e # es) \<and>
    (\<forall>x. x \<notin> insert e (set es) \<longrightarrow> h' x = h x)"
  using assms by (cases es) (auto simp: he_add_def he_chain_def he_unlinked_def link_access)

lemma he_del_chain:
  assumes "he_chain h (Some p) (xs @ e # ys)"
  shows "\<exists>h'. he_del h p e = Some (hd_or (xs @ ys) None, h') \<and> he_chain h' (hd_or (xs @ ys) None) (xs @ ys) \<and>
    he_unlinked h' e \<and> (\<forall>x. x \<notin> set (xs @ e # ys) \<longrightarrow> h' x = h x)"
proof (cases xs rule: rev_cases)
  case Nil
  with assms show ?thesis
    by (cases ys) (auto simp: he_del_def he_chain_def he_unlinked_def link_access)
next
  case (snoc xs' x)
  with assms have "p \<noteq> e" by (cases xs') (auto simp: he_chain_def)
  with snoc assms show ?thesis
    by (cases ys) (auto simp: he_del_def he_chain_def he_unlinked_def link_access hd_or_append)
qed

section \<open>The laws of every table with generated link functions\<close>

locale htab_keys =
  fixes hval :: "addr \<Rightarrow> u32" and cmp :: "addr \<Rightarrow> addr \<Rightarrow> int"
  assumes key_refl: "cmp a a = 0"
    and key_sym: "cmp a b = 0 \<Longrightarrow> cmp b a = 0"
    and key_trans: "cmp a b = 0 \<Longrightarrow> cmp b c = 0 \<Longrightarrow> cmp a c = 0"
    and key_hval: "cmp a b = 0 \<Longrightarrow> hval a = hval b"

sublocale htab_keys \<subseteq> tab: htab_client "std_htab_ops hval cmp" he_chain he_unlinked
proof (unfold_locales, goal_cases)
  case (1 a) show ?case by (simp add: std_htab_ops_def key_refl)
next
  case (2 a b) then show ?case by (simp add: std_htab_ops_def key_sym)
next
  case (3 a b c) then show ?case using key_trans by (simp add: std_htab_ops_def)
next
  case (4 a b) then show ?case by (simp add: std_htab_ops_def key_hval)
next
  case (5 s es) show ?case by (cases es) (auto simp: he_chain_def)
next
  case (6 s h es) then show ?case by (cases es) (auto simp: he_chain_def)
next
  case (7 s p es) then show ?case by (simp add: he_chain_def)
next
  case (8 s p es i) then show ?case
    using seg_next [of s None es None i] by (simp add: std_htab_ops_def he_chain_def he_next_def)
next
  case (9 s p es e)
  from he_add_chain [OF 9] obtain s' where s': "he_add s p e = Some (Some e, s')" "he_chain s' (Some e) (e # es)"
    "\<forall>x. x \<notin> insert e (set es) \<longrightarrow> s' x = s x" by blast
  have "he_chain s' g gs" if "he_chain s g gs" "set gs \<inter> insert e (set es) = {}" for g gs
    using that s'(3) by (blast intro: he_chain_frame)
  with s' show ?case by (auto simp: std_htab_ops_def he_unlinked_def intro!: exI [of _ "e # es"])
next
  case (10 s h es e)
  then obtain xs ys where es: "es = xs @ e # ys" by (auto simp: in_set_conv_decomp)
  from he_del_chain [OF 10(1) [unfolded es]] obtain s' where s':
    "he_del s h e = Some (hd_or (xs @ ys) None, s')" "he_chain s' (hd_or (xs @ ys) None) (xs @ ys)"
    "he_unlinked s' e" "\<forall>x. x \<notin> set (xs @ e # ys) \<longrightarrow> s' x = s x" by blast
  have "he_chain s' g gs" if "he_chain s g gs" "set gs \<inter> set es = {}" for g gs
    using that s'(4) unfolding es by (blast intro: he_chain_frame)
  moreover have "remove1 e es = xs @ ys"
    using 10(1) by (auto simp: es he_chain_def remove1_append)
  ultimately show ?case using s' by (simp add: std_htab_ops_def he_unlinked_def es)
qed

lemma str2hval_loop_c_str: "str2hval_loop (c_str cs) hval = str2hval_loop cs hval"
  by (induction cs arbitrary: hval) simp_all

lemma str2hval_cong: "c_str as = c_str bs \<Longrightarrow> str2hval (Some as) hval = str2hval (Some bs) hval"
  by (simp add: str2hval_def) (metis str2hval_loop_c_str)

lemma fqn_cmp_eq_0: "fqn_cmp pd p q = 0 \<longleftrightarrow>
   c_str (pd_prv (pd p)) = c_str (pd_prv (pd q)) \<and> c_str (pd_mod (pd p)) = c_str (pd_mod (pd q)) \<and>
   c_str (pd_fun (pd p)) = c_str (pd_fun (pd q)) \<and> c_str (pd_prb (pd p)) = c_str (pd_prb (pd q))"
  by (simp add: fqn_cmp_def Let_def)

interpretation fqn: htab_keys "fqn_hval pd" "fqn_cmp pd" for pd
proof (unfold_locales, goal_cases)
  case (4 a b)
  then have "str2hval (Some (pd_prv (pd a))) = str2hval (Some (pd_prv (pd b)))"
    "str2hval (Some (pd_mod (pd a))) = str2hval (Some (pd_mod (pd b)))"
    "str2hval (Some (pd_fun (pd a))) = str2hval (Some (pd_fun (pd b)))"
    "str2hval (Some (pd_prb (pd a))) = str2hval (Some (pd_prb (pd b)))"
    by (auto simp: fqn_cmp_eq_0 intro: str2hval_cong)
  then show ?case by (simp add: fqn_hval_def)
qed (auto simp: fqn_cmp_eq_0)

interpretation id: htab_keys "id_hval sel pd" "id_cmp sel pd" for sel pd
  by unfold_locales (auto simp: id_cmp_def id_hval_def intro: str2hval_cong)

section \<open>The table of fully qualified names\<close>

text \<open>\<open>fqn_table pd t s E\<close>: the table \<open>t\<close>, whose entries are linked in \<open>s\<close>, holds exactly the probes \<open>E\<close>.\<close>

definition fqn_table :: "(addr \<Rightarrow> dtrace_probedesc) \<Rightarrow> addr dt_htab \<Rightarrow> links \<Rightarrow> addr set \<Rightarrow> bool" where
  "fqn_table pd t s E \<longleftrightarrow> fqn.tab.htab_rep pd t s E"

lemmas fqn_defs = fqn_table_def fqn_htab_ops_def

lemma fqn_table_create: "dt_htab_create mm = Some t \<Longrightarrow> fqn_table pd t s {}"
  unfolding fqn_table_def by (rule fqn.tab.create_rep)

lemma fqn_table_one:
  assumes "he_unlinked s e"
  shows "\<exists>t s'. fqn_table pd t s' {e}"
proof -
  let ?t = "\<lparr>ht_tab = [[]], ht_size = 1, ht_mask = 0, ht_nbuckets = 0, ht_nentries = 0\<rparr> :: addr dt_htab"
  have "fqn_table pd ?t s {}" by (rule fqn_table_create [of "[Some 1, Some 2]"]) (simp add: dt_htab_create_def)
  then have "\<exists>r t' s'. dt_htab_insert (fqn_htab_ops pd) ?t s e (replicate 31 (Some 0)) = Some (r, t', s') \<and>
      fqn.tab.insert_post pd s {} e (replicate 31 (Some 0)) 31 r t' s'"
    using assms unfolding fqn_defs by (intro fqn.tab.insert_rep) (simp_all add: bks_def)
  then show ?thesis by (auto simp: fqn.tab.insert_post_def fqn_table_def)
qed

text \<open>
  C9.  Inserting a probe that is not in the table of fully qualified names either adds it, to the
  set of probes the table holds and to nothing else, and returns 0; or returns \<^verbatim>\<open>-ENOMEM\<close> with the set
  unchanged.  The second happens only when an allocation fails: at most 31 allocations are made,
  whatever the size of the table, because each retry doubles an array of at most \<open>2^30\<close> slots.  The
  retry loop always ends.
\<close>

theorem fqn_insert_correct:
  assumes "fqn_table pd t s E" and "he_unlinked s e" and "e \<notin> E" and "ht_nbuckets t < 2 ^ 31"
    and "\<And>a. Some a \<in> set mm \<Longrightarrow> a \<notin> bk_addr ` set (bks t)"
  shows "\<exists>r t' s'. dt_htab_insert (fqn_htab_ops pd) t s e mm = Some (r, t', s') \<and>
    (r = 0 \<and> fqn_table pd t' s' (insert e E) \<and> (\<forall>x. x \<notin> insert e E \<longrightarrow> he_unlinked s' x = he_unlinked s x) \<or>
     r = - ENOMEM \<and> s' = s \<and> fqn_table pd t' s E \<and> (None \<in> set mm \<or> length mm < 31))"
  using fqn.tab.insert_rep [of pd t s E e mm] assms
  unfolding fqn_defs fqn.tab.insert_post_def by blast

theorem fqn_insert_correct_witness:
  "\<exists>r t' s'. dt_htab_insert (fqn_htab_ops (\<lambda>_. \<lparr>pd_id = 1, pd_prv = [97], pd_mod = [], pd_fun = [], pd_prb = [98]\<rparr>))
      \<lparr>ht_tab = [[]], ht_size = 1, ht_mask = 0, ht_nbuckets = 0, ht_nentries = 0\<rparr>
      [5 \<mapsto> \<lparr>lk_prev = None, lk_next = None\<rparr>] 5 [Some 9] = Some (r, t', s') \<and> (r = 0 \<or> r = - 12)"
proof -
  let ?pd = "\<lambda>_::addr. \<lparr>pd_id = 1, pd_prv = [97], pd_mod = [], pd_fun = [], pd_prb = [98]\<rparr>"
  let ?t = "\<lparr>ht_tab = [[]], ht_size = 1, ht_mask = 0, ht_nbuckets = 0, ht_nentries = 0\<rparr> :: addr dt_htab"
  let ?s = "[5 \<mapsto> \<lparr>lk_prev = None, lk_next = None\<rparr>] :: links"
  have "fqn_table ?pd ?t ?s {}" by (rule fqn_table_create [of "[Some 1, Some 2]"]) (simp add: dt_htab_create_def)
  from fqn_insert_correct [OF this, of 5 "[Some 9]"] show ?thesis
    by (auto simp: he_unlinked_def bks_def ENOMEM_def)
qed

text \<open>
  C10.  A lookup in the table of fully qualified names finds a probe of the table with the same four
  name components, if there is one, and NULL only if there is none.
\<close>

theorem fqn_lookup_correct:
  assumes "fqn_table pd t s E"
  shows "(\<exists>x \<in> E. dt_htab_lookup (fqn_htab_ops pd) t e = Some (Some x) \<and> fqn_cmp pd x e = 0) \<or>
         dt_htab_lookup (fqn_htab_ops pd) t e = Some None \<and> (\<forall>x \<in> E. fqn_cmp pd x e \<noteq> 0)"
  using fqn.tab.lookup_rep [of pd t s E e] assms
  unfolding fqn_defs by (simp add: std_htab_ops_def)

theorem fqn_lookup_correct_witness:
  "\<exists>t s. fqn_table (\<lambda>_. \<lparr>pd_id = 1, pd_prv = [97], pd_mod = [], pd_fun = [], pd_prb = [98]\<rparr>) t s {5} \<and>
     dt_htab_lookup (fqn_htab_ops (\<lambda>_. \<lparr>pd_id = 1, pd_prv = [97], pd_mod = [], pd_fun = [], pd_prb = [98]\<rparr>)) t 7 =
       Some (Some 5)"
proof -
  let ?pd = "\<lambda>_::addr. \<lparr>pd_id = 1, pd_prv = [97], pd_mod = [], pd_fun = [], pd_prb = [98]\<rparr>"
  have "he_unlinked [5 \<mapsto> \<lparr>lk_prev = None, lk_next = None\<rparr>] 5" by (simp add: he_unlinked_def)
  from fqn_table_one [OF this] obtain t s where t: "fqn_table ?pd t s {5}" by blast
  from fqn_lookup_correct [OF t, of 7] have "dt_htab_lookup (fqn_htab_ops ?pd) t 7 = Some (Some 5)"
    by (simp add: fqn_cmp_def)
  with t show ?thesis by blast
qed

text \<open>
  C11.  Deleting a probe of the table of fully qualified names removes it and nothing else, returns
  0 and leaves the probe's links empty, so that it can be inserted again.
\<close>

theorem fqn_delete_correct:
  assumes "fqn_table pd t s E" and "e \<in> E"
  shows "\<exists>t' s'. dt_htab_delete (fqn_htab_ops pd) t s e = Some (0, t', s') \<and>
    fqn_table pd t' s' (E - {e}) \<and> he_unlinked s' e \<and>
    (\<forall>x. x \<notin> E \<longrightarrow> he_unlinked s' x = he_unlinked s x)"
  using fqn.tab.delete_rep [of pd t s E e] assms unfolding fqn_defs by blast

theorem fqn_delete_correct_witness:
  "\<exists>t s t' s'. dt_htab_delete (fqn_htab_ops (\<lambda>_. \<lparr>pd_id = 1, pd_prv = [97], pd_mod = [], pd_fun = [], pd_prb = [98]\<rparr>)) t s 5 =
      Some (0, t', s') \<and> he_unlinked s' 5 \<and>
     fqn_table (\<lambda>_. \<lparr>pd_id = 1, pd_prv = [97], pd_mod = [], pd_fun = [], pd_prb = [98]\<rparr>) t' s' {}"
proof -
  let ?pd = "\<lambda>_::addr. \<lparr>pd_id = 1, pd_prv = [97], pd_mod = [], pd_fun = [], pd_prb = [98]\<rparr>"
  have "he_unlinked [5 \<mapsto> \<lparr>lk_prev = None, lk_next = None\<rparr>] 5" by (simp add: he_unlinked_def)
  from fqn_table_one [OF this] obtain t s where t: "fqn_table ?pd t s {5}" by blast
  from fqn_delete_correct [OF t, of 5] show ?thesis by auto
qed

text \<open>
  C12.  Walking the table of fully qualified names with \<^verbatim>\<open>dt_htab_next\<close> until it returns NULL ends, and
  returns every probe of the table exactly once; \<^verbatim>\<open>dt_htab_entries\<close> is the number of them.
\<close>

theorem fqn_iterate_correct:
  assumes "fqn_table pd t s E" and "c_alloc mm = (Some a, mm')"
  shows "\<exists>ys. htab_collect (fqn_htab_ops pd) t s None mm [] = Some ys \<and> distinct ys \<and> set ys = E \<and>
    dt_htab_entries t = length ys"
proof -
  from fqn.tab.collect_rep [of pd t s E mm a mm'] assms obtain ys where
    "htab_collect (fqn_htab_ops pd) t s None mm [] = Some ys" "distinct ys" "set ys = E"
    unfolding fqn_defs by blast
  moreover have "dt_htab_entries t = card E"
    using fqn.tab.entries_rep [of pd t s E] assms(1) unfolding fqn_defs by simp
  ultimately show ?thesis using distinct_card [of ys] by (intro exI [of _ ys]) simp
qed

theorem fqn_iterate_correct_witness:
  "\<exists>t s. htab_collect (fqn_htab_ops (\<lambda>_. \<lparr>pd_id = 1, pd_prv = [97], pd_mod = [], pd_fun = [], pd_prb = [98]\<rparr>)) t s None [Some 1] [] =
     Some [5]"
proof -
  let ?pd = "\<lambda>_::addr. \<lparr>pd_id = 1, pd_prv = [97], pd_mod = [], pd_fun = [], pd_prb = [98]\<rparr>"
  have "he_unlinked [5 \<mapsto> \<lparr>lk_prev = None, lk_next = None\<rparr>] 5" by (simp add: he_unlinked_def)
  from fqn_table_one [OF this] obtain t s where t: "fqn_table ?pd t s {5}" by blast
  from fqn_iterate_correct [OF t, of "[Some 1]" 1 "[]"] obtain ys where
    ys: "htab_collect (fqn_htab_ops ?pd) t s None [Some 1] [] = Some ys" "distinct ys" "set ys = {5}" by auto
  have "length ys = 1" using distinct_card [OF ys(2)] unfolding ys(3) by simp
  then obtain y where "ys = [y]" by (cases ys) auto
  with ys(3) have "ys = [5]" by simp
  with ys show ?thesis by blast
qed

text \<open>
  C13.  Destroying the table of fully qualified names takes every entry off its chain: all probes of
  the table end with empty links and no other probe is touched.
\<close>

theorem fqn_destroy_correct:
  assumes "fqn_table pd t s E"
  shows "\<exists>s'. dt_htab_destroy (fqn_htab_ops pd) (Some t) s = Some s' \<and> (\<forall>x \<in> E. he_unlinked s' x) \<and>
    (\<forall>x. x \<notin> E \<longrightarrow> he_unlinked s' x = he_unlinked s x)"
  using fqn.tab.destroy_rep [of pd t s E] assms unfolding fqn_defs by blast

theorem fqn_destroy_correct_witness:
  "\<exists>t s s'. dt_htab_destroy (fqn_htab_ops (\<lambda>_. \<lparr>pd_id = 1, pd_prv = [97], pd_mod = [], pd_fun = [], pd_prb = [98]\<rparr>)) (Some t) s =
     Some s' \<and> he_unlinked s' 5"
proof -
  let ?pd = "\<lambda>_::addr. \<lparr>pd_id = 1, pd_prv = [97], pd_mod = [], pd_fun = [], pd_prb = [98]\<rparr>"
  have "he_unlinked [5 \<mapsto> \<lparr>lk_prev = None, lk_next = None\<rparr>] 5" by (simp add: he_unlinked_def)
  from fqn_table_one [OF this] obtain t s where t: "fqn_table ?pd t s {5}" by blast
  from fqn_destroy_correct [OF t] obtain s' where
    "dt_htab_destroy (fqn_htab_ops ?pd) (Some t) s = Some s'" "\<forall>x \<in> {5}. he_unlinked s' x" by blast
  then show ?thesis by (intro exI conjI) simp_all
qed

end
