(* ===== verification/Regset.thy ===== *)
theory Regset
  imports Prelude
begin

text \<open>
  The register allocator of the code generator, \<^verbatim>\<open>libdtrace/dt_regset.c\<close>, on the bitmaps of
  \<^verbatim>\<open>include/sys/bitmap.h\<close>.  An allocation that finds no free register takes one that is in use, after
  calling the spill callback, which makes the generator emit a store of the register to its stack
  slot; freeing it emits the load.  The model keeps the emitted instructions, so that what the
  generated code does to the registers can be stated and proved.
\<close>

section \<open>Bitmaps\<close>

unbundle bit_operations_syntax

definition BT_BITOUL :: "nat \<Rightarrow> nat" where
  "BT_BITOUL nbits = (nbits + 64 - 1) div 64"

definition BT_BIW :: "nat \<Rightarrow> u64" where
  "BT_BIW bitindex = push_bit (bitindex AND 63) 1"

text \<open>A word outside the array is out of bounds.\<close>

definition BT_TEST :: "u64 list \<Rightarrow> nat \<Rightarrow> bool option" where
  "BT_TEST bitmap i =
     (if drop_bit 6 i < length bitmap then Some ((bitmap ! drop_bit 6 i) AND BT_BIW i \<noteq> 0) else None)"

definition BT_SET :: "u64 list \<Rightarrow> nat \<Rightarrow> u64 list option" where
  "BT_SET bitmap i =
     (if drop_bit 6 i < length bitmap
      then Some (bitmap[drop_bit 6 i := (bitmap ! drop_bit 6 i) OR BT_BIW i]) else None)"

definition BT_CLEAR :: "u64 list \<Rightarrow> nat \<Rightarrow> u64 list option" where
  "BT_CLEAR bitmap i =
     (if drop_bit 6 i < length bitmap
      then Some (bitmap[drop_bit 6 i := (bitmap ! drop_bit 6 i) AND NOT (BT_BIW i)]) else None)"

section \<open>The register set\<close>

text \<open>The instructions the spill callbacks emit.\<close>

datatype spill = Spill_store nat | Spill_load nat

record dt_regset =
  dr_size :: nat
  dr_active :: "u64 list"
  dr_spilled :: "u64 list"
  dr_code :: "spill list"

definition dt_cg_spill_store :: "dt_regset \<Rightarrow> nat \<Rightarrow> dt_regset" where
  "dt_cg_spill_store drp reg = drp\<lparr>dr_code := dr_code drp @ [Spill_store reg]\<rparr>"

definition dt_cg_spill_load :: "dt_regset \<Rightarrow> nat \<Rightarrow> dt_regset" where
  "dt_cg_spill_load drp reg = drp\<lparr>dr_code := dr_code drp @ [Spill_load reg]\<rparr>"

definition dt_regset_reset :: "dt_regset \<Rightarrow> dt_regset" where
  "dt_regset_reset drp =
     drp\<lparr>dr_active := replicate (BT_BITOUL (dr_size drp)) 0,
         dr_spilled := replicate (BT_BITOUL (dr_size drp)) 0\<rparr>"

text \<open>The three allocations are made before their results are looked at; the result is NULL or a set.\<close>

definition dt_regset_create :: "nat \<Rightarrow> allocs \<Rightarrow> dt_regset option" where
  "dt_regset_create sz mm =
     (case c_alloc mm of
        (None, _) \<Rightarrow> None
      | (Some _, mm) \<Rightarrow>
          (let sz = (sz + 1) mod 2 ^ 64;
               (active, mm) = c_alloc mm;
               (spilled, mm) = c_alloc mm
           in if active = None \<or> spilled = None then None
              else Some (dt_regset_reset
                     \<lparr>dr_size = sz, dr_active = [], dr_spilled = [], dr_code = []\<rparr>)))"

text \<open>The two loops of the allocator: the highest register, above 0, whose bit is clear.\<close>

fun regset_scan :: "u64 list \<Rightarrow> nat \<Rightarrow> nat option option" where
  "regset_scan bitmap 0 = Some None"
| "regset_scan bitmap (Suc r) = do {
     b \<leftarrow> BT_TEST bitmap (Suc r);
     if \<not> b then Some (Some (Suc r)) else regset_scan bitmap r
   }"

definition dt_regset_alloc :: "dt_regset \<Rightarrow> (int \<times> dt_regset) option" where
  "dt_regset_alloc drp = do {
     r \<leftarrow> regset_scan (dr_active drp) (dr_size drp - 1);
     (case r of
        Some reg \<Rightarrow> do {
          active \<leftarrow> BT_SET (dr_active drp) reg;
          Some (int reg, drp\<lparr>dr_active := active\<rparr>)
        }
      | None \<Rightarrow> do {
          r \<leftarrow> regset_scan (dr_spilled drp) (dr_size drp - 1);
          (case r of
             Some reg \<Rightarrow> do {
               let drp = dt_cg_spill_store drp reg;
               spilled \<leftarrow> BT_SET (dr_spilled drp) reg;
               Some (int reg, drp\<lparr>dr_spilled := spilled\<rparr>)
             }
           | None \<Rightarrow> Some (- 1, drp))
        })
   }"

definition dt_regset_xalloc :: "dt_regset \<Rightarrow> nat \<Rightarrow> (int \<times> dt_regset) option" where
  "dt_regset_xalloc drp reg = do {
     c_assert (reg < dr_size drp);
     a \<leftarrow> BT_TEST (dr_active drp) reg;
     if a then do {
       s \<leftarrow> BT_TEST (dr_spilled drp) reg;
       if s then Some (- 1, drp)
       else do {
         let drp = dt_cg_spill_store drp reg;
         spilled \<leftarrow> BT_SET (dr_spilled drp) reg;
         active \<leftarrow> BT_SET (dr_active drp) reg;
         Some (0, drp\<lparr>dr_spilled := spilled, dr_active := active\<rparr>)
       }
     }
     else do {
       active \<leftarrow> BT_SET (dr_active drp) reg;
       Some (0, drp\<lparr>dr_active := active\<rparr>)
     }
   }"

definition dt_regset_free :: "dt_regset \<Rightarrow> nat \<Rightarrow> dt_regset option" where
  "dt_regset_free drp reg = do {
     c_assert (reg < dr_size drp);
     a \<leftarrow> BT_TEST (dr_active drp) reg;
     c_assert a;
     s \<leftarrow> BT_TEST (dr_spilled drp) reg;
     if s then do {
       let drp = dt_cg_spill_load drp reg;
       spilled \<leftarrow> BT_CLEAR (dr_spilled drp) reg;
       Some (drp\<lparr>dr_spilled := spilled\<rparr>)
     }
     else do {
       active \<leftarrow> BT_CLEAR (dr_active drp) reg;
       Some (drp\<lparr>dr_active := active\<rparr>)
     }
   }"

text \<open>\<^verbatim>\<open>while (--reg > 0) dt_regset_free(drp, reg)\<close>, from a register that was not allocated.\<close>

fun regset_unwind :: "dt_regset \<Rightarrow> nat \<Rightarrow> dt_regset option" where
  "regset_unwind drp 0 = Some drp"
| "regset_unwind drp (Suc r) =
     (if r = 0 then Some drp
      else do {
        drp \<leftarrow> dt_regset_free drp r;
        regset_unwind drp r
      })"

function regset_xalloc_from :: "dt_regset \<Rightarrow> nat \<Rightarrow> (int \<times> dt_regset) option" where
  "regset_xalloc_from drp reg =
     (if reg \<le> 5 then
        (case dt_regset_xalloc drp reg of
           None \<Rightarrow> None
         | Some (rc, drp) \<Rightarrow>
             if rc = - 1 then
               (case regset_unwind drp reg of None \<Rightarrow> None | Some drp \<Rightarrow> Some (- 1, drp))
             else regset_xalloc_from drp (reg + 1))
      else Some (0, drp))"
  by pat_completeness auto
termination
  by (relation "measure (\<lambda>(drp, reg). 6 - reg)") auto

declare regset_xalloc_from.simps [simp del]

definition dt_regset_xalloc_args :: "dt_regset \<Rightarrow> (int \<times> dt_regset) option" where
  "dt_regset_xalloc_args drp = regset_xalloc_from drp 1"

fun regset_free_all :: "dt_regset \<Rightarrow> nat list \<Rightarrow> dt_regset option" where
  "regset_free_all drp [] = Some drp"
| "regset_free_all drp (reg # regs) = do {
     drp \<leftarrow> dt_regset_free drp reg;
     regset_free_all drp regs
   }"

definition dt_regset_free_args :: "dt_regset \<Rightarrow> dt_regset option" where
  "dt_regset_free_args drp = regset_free_all drp [1, 2, 3, 4, 5]"

section \<open>Bitmaps as sets\<close>

lemma BT_index: "drop_bit 6 i = i div 64" "i AND 63 = i mod 64" for i :: nat
proof -
  show "drop_bit 6 i = i div 64" by (simp add: drop_bit_eq_div)
  have "i AND 63 = i AND Bit_Operations.mask 6" by (simp add: mask_eq_exp_minus_1)
  then show "i AND 63 = i mod 64" by (simp add: take_bit_eq_mod flip: take_bit_eq_mask)
qed

lemma BT_TEST_bit:
  "BT_TEST m i = (if i div 64 < length m then Some (bit (m ! (i div 64)) (i mod 64)) else None)"
  by (simp add: BT_TEST_def BT_index BT_BIW_def bit_iff_and_push_bit_not_eq_0)

lemma div_mod_64: "i div 64 = j div 64 \<Longrightarrow> i mod 64 = j mod 64 \<longleftrightarrow> i = j" for i j :: nat
  by (metis div_mult_mod_eq)

lemma BT_SET_bits:
  assumes "i div 64 < length m"
  shows "\<exists>m'. BT_SET m i = Some m' \<and> length m' = length m \<and>
    (\<forall>j. BT_TEST m' j = (if j = i then Some True else BT_TEST m j))"
proof -
  let ?m = "m[i div 64 := set_bit (i mod 64) (m ! (i div 64))]"
  have "BT_SET m i = Some ?m"
    using assms by (simp add: BT_SET_def BT_index BT_BIW_def set_bit_eq_or)
  moreover have "BT_TEST ?m j = (if j = i then Some True else BT_TEST m j)" for j
    using assms div_mod_64 [of i j]
    by (cases "j div 64 = i div 64") (auto simp: BT_TEST_bit nth_list_update bit_set_bit_iff)
  ultimately show ?thesis by simp
qed

lemma BT_CLEAR_bits:
  assumes "i div 64 < length m"
  shows "\<exists>m'. BT_CLEAR m i = Some m' \<and> length m' = length m \<and>
    (\<forall>j. BT_TEST m' j = (if j = i then Some False else BT_TEST m j))"
proof -
  let ?m = "m[i div 64 := unset_bit (i mod 64) (m ! (i div 64))]"
  have "BT_CLEAR m i = Some ?m"
    using assms by (simp add: BT_CLEAR_def BT_index BT_BIW_def unset_bit_eq_and_not)
  moreover have "BT_TEST ?m j = (if j = i then Some False else BT_TEST m j)" for j
    using assms div_mod_64 [of i j]
    by (cases "j div 64 = i div 64") (auto simp: BT_TEST_bit nth_list_update bit_unset_bit_iff)
  ultimately show ?thesis by simp
qed

lemma BT_BITOUL_covers: "i < n \<Longrightarrow> i div 64 < BT_BITOUL n"
  unfolding BT_BITOUL_def by linarith

text \<open>\<open>bt_rep m n S\<close>: the bitmap \<open>m\<close>, for \<open>n\<close> bits, represents the set \<open>S\<close> of indices below \<open>n\<close>.\<close>

definition bt_rep :: "u64 list \<Rightarrow> nat \<Rightarrow> nat set \<Rightarrow> bool" where
  "bt_rep m n S \<longleftrightarrow> length m = BT_BITOUL n \<and> S \<subseteq> {..<n} \<and> (\<forall>i < n. BT_TEST m i = Some (i \<in> S))"

lemma bt_rep_test: "bt_rep m n S \<Longrightarrow> i < n \<Longrightarrow> BT_TEST m i = Some (i \<in> S)"
  by (simp add: bt_rep_def)

lemma bt_rep_zero: "bt_rep (replicate (BT_BITOUL n) 0) n {}"
  using BT_BITOUL_covers by (auto simp: bt_rep_def BT_TEST_bit)

lemma bt_rep_set: "bt_rep m n S \<Longrightarrow> i < n \<Longrightarrow> \<exists>m'. BT_SET m i = Some m' \<and> bt_rep m' n (insert i S)"
  using BT_SET_bits [of i m] BT_BITOUL_covers [of i n] by (fastforce simp: bt_rep_def)

lemma bt_rep_clear: "bt_rep m n S \<Longrightarrow> i < n \<Longrightarrow> \<exists>m'. BT_CLEAR m i = Some m' \<and> bt_rep m' n (S - {i})"
  using BT_CLEAR_bits [of i m] BT_BITOUL_covers [of i n] by (fastforce simp: bt_rep_def)

lemma regset_scan_rep:
  assumes "bt_rep m n S" and "r < n"
  shows "regset_scan m r = Some (if {1..r} \<subseteq> S then None else Some (Max ({1..r} - S)))"
  using assms(2)
proof (induction r)
  case 0
  then show ?case by simp
next
  case (Suc r)
  have top: "{1..Suc r} = insert (Suc r) {1..r}" by auto
  show ?case
  proof (cases "Suc r \<in> S")
    case True
    then have "{1..Suc r} - S = {1..r} - S" unfolding top by auto
    with True Suc bt_rep_test [OF assms(1) Suc.prems] show ?thesis by (auto simp: top)
  next
    case False
    then have "Max ({1..Suc r} - S) = Suc r" by (intro Max_eqI) auto
    moreover have "\<not> {1..Suc r} \<subseteq> S" using False by (auto simp: subset_iff)
    ultimately show ?thesis using False bt_rep_test [OF assms(1) Suc.prems] by simp
  qed
qed

section \<open>What each operation does\<close>

text \<open>
  \<open>rs_rep drp n A S\<close>: of the \<open>n\<close> registers of the set, those in \<open>A\<close> are active and those in \<open>S\<close>, which
  are active too, are spilled.
\<close>

definition rs_rep :: "dt_regset \<Rightarrow> nat \<Rightarrow> nat set \<Rightarrow> nat set \<Rightarrow> bool" where
  "rs_rep drp n A S \<longleftrightarrow> dr_size drp = n \<and> 0 < n \<and> bt_rep (dr_active drp) n A \<and>
     bt_rep (dr_spilled drp) n S \<and> S \<subseteq> A"

lemma create_rs_rep:
  "sz + 1 < 2 ^ 64 \<Longrightarrow> dt_regset_create sz mm = Some drp \<Longrightarrow> rs_rep drp (sz + 1) {} {}"
  by (auto simp: dt_regset_create_def rs_rep_def dt_regset_reset_def bt_rep_zero Let_def
      split: prod.splits option.splits if_splits)

lemma reset_rs_rep: "rs_rep drp n A S \<Longrightarrow> rs_rep (dt_regset_reset drp) n {} {}"
  by (simp add: rs_rep_def dt_regset_reset_def bt_rep_zero)

lemma atLeastAtMost_pred: "0 < n \<Longrightarrow> {1..n - 1} = {1..<n}" for n :: nat
  by auto

text \<open>The three outcomes of an allocation: a free register, a spilled one, none.\<close>

definition alloc_post :: "dt_regset \<Rightarrow> nat \<Rightarrow> nat set \<Rightarrow> nat set \<Rightarrow> int \<Rightarrow> dt_regset \<Rightarrow> bool" where
  "alloc_post drp n A S reg drp' \<longleftrightarrow>
     (if \<not> {1..<n} \<subseteq> A then
        reg = int (Max ({1..<n} - A)) \<and> rs_rep drp' n (insert (nat reg) A) S \<and> dr_code drp' = dr_code drp
      else if \<not> {1..<n} \<subseteq> S then
        reg = int (Max ({1..<n} - S)) \<and> rs_rep drp' n A (insert (nat reg) S) \<and>
        dr_code drp' = dr_code drp @ [Spill_store (nat reg)]
      else reg = - 1 \<and> drp' = drp)"

lemma Max_diff_mem:
  fixes n :: nat
  assumes "\<not> {1..<n} \<subseteq> A"
  shows "Max ({1..<n} - A) \<in> {1..<n} - A"
  using assms by (intro Max_in) auto

lemma alloc_rep:
  assumes "rs_rep drp n A S"
  shows "\<exists>reg drp'. dt_regset_alloc drp = Some (reg, drp') \<and> alloc_post drp n A S reg drp'"
proof -
  from assms have n: "dr_size drp = n" "0 < n" and A: "bt_rep (dr_active drp) n A"
    and S: "bt_rep (dr_spilled drp) n S" and SA: "S \<subseteq> A" by (auto simp: rs_rep_def)
  note scanA = regset_scan_rep [OF A, of "n - 1", unfolded atLeastAtMost_pred [OF n(2)]]
  note scanS = regset_scan_rep [OF S, of "n - 1", unfolded atLeastAtMost_pred [OF n(2)]]
  consider "\<not> {1..<n} \<subseteq> A" | "{1..<n} \<subseteq> A" "\<not> {1..<n} \<subseteq> S" | "{1..<n} \<subseteq> A" "{1..<n} \<subseteq> S" by blast
  then show ?thesis
  proof cases
    case 1
    note mem = Max_diff_mem [OF 1]
    then obtain m' where "BT_SET (dr_active drp) (Max ({1..<n} - A)) = Some m'"
      "bt_rep m' n (insert (Max ({1..<n} - A)) A)" using bt_rep_set [OF A] by fastforce
    with 1 n S SA scanA show ?thesis
      by (auto simp: dt_regset_alloc_def alloc_post_def rs_rep_def)
  next
    case 2
    note mem = Max_diff_mem [OF 2(2)]
    then obtain m' where "BT_SET (dr_spilled drp) (Max ({1..<n} - S)) = Some m'"
      "bt_rep m' n (insert (Max ({1..<n} - S)) S)" using bt_rep_set [OF S] by fastforce
    moreover have "Max ({1..<n} - S) \<in> A" using mem 2(1) by blast
    ultimately show ?thesis using 2 n A SA scanA scanS
      by (auto simp: dt_regset_alloc_def alloc_post_def rs_rep_def dt_cg_spill_store_def)
  next
    case 3
    with n scanA scanS show ?thesis by (simp add: dt_regset_alloc_def alloc_post_def)
  qed
qed

lemma xalloc_rep:
  assumes "rs_rep drp n A S" and "reg < n"
  shows "\<exists>rc drp'. dt_regset_xalloc drp reg = Some (rc, drp') \<and>
    (if reg \<notin> A then rc = 0 \<and> rs_rep drp' n (insert reg A) S \<and> dr_code drp' = dr_code drp
     else if reg \<notin> S then rc = 0 \<and> rs_rep drp' n A (insert reg S) \<and> dr_code drp' = dr_code drp @ [Spill_store reg]
     else rc = - 1 \<and> drp' = drp)"
proof -
  from assms(1) have A: "bt_rep (dr_active drp) n A" and S: "bt_rep (dr_spilled drp) n S"
    and n: "dr_size drp = n" "0 < n" "S \<subseteq> A" by (auto simp: rs_rep_def)
  obtain a s where "BT_SET (dr_active drp) reg = Some a" "bt_rep a n (insert reg A)"
    "BT_SET (dr_spilled drp) reg = Some s" "bt_rep s n (insert reg S)"
    using bt_rep_set [OF A assms(2)] bt_rep_set [OF S assms(2)] by blast
  with A S n assms(2) bt_rep_test [OF A assms(2)] bt_rep_test [OF S assms(2)] show ?thesis
    by (auto simp: dt_regset_xalloc_def dt_cg_spill_store_def rs_rep_def insert_absorb)
qed

lemma free_rep:
  assumes "rs_rep drp n A S" and "reg < n" and "reg \<in> A"
  shows "\<exists>drp'. dt_regset_free drp reg = Some drp' \<and>
    (if reg \<in> S then rs_rep drp' n A (S - {reg}) \<and> dr_code drp' = dr_code drp @ [Spill_load reg]
     else rs_rep drp' n (A - {reg}) S \<and> dr_code drp' = dr_code drp)"
proof -
  from assms(1) have A: "bt_rep (dr_active drp) n A" and S: "bt_rep (dr_spilled drp) n S"
    and n: "dr_size drp = n" "0 < n" "S \<subseteq> A" by (auto simp: rs_rep_def)
  obtain a s where "BT_CLEAR (dr_active drp) reg = Some a" "bt_rep a n (A - {reg})"
    "BT_CLEAR (dr_spilled drp) reg = Some s" "bt_rep s n (S - {reg})"
    using bt_rep_clear [OF A assms(2)] bt_rep_clear [OF S assms(2)] by blast
  with A S n assms(2,3) bt_rep_test [OF A assms(2)] bt_rep_test [OF S assms(2)] show ?thesis
    by (auto simp: dt_regset_free_def dt_cg_spill_load_def rs_rep_def)
qed

section \<open>What the emitted code does\<close>

text \<open>The registers and the spill slots of the stack.\<close>

type_synonym machine = "(nat \<Rightarrow> u64) \<times> (nat \<Rightarrow> u64)"

fun spill_exec :: "spill \<Rightarrow> machine \<Rightarrow> machine" where
  "spill_exec (Spill_store r) (R, M) = (R, M(r := R r))"
| "spill_exec (Spill_load r) (R, M) = (R(r := M r), M)"

lemma fold_stores:
  "fold spill_exec (map Spill_store rs) (R, M) = (R, \<lambda>r. if r \<in> set rs then R r else M r)"
  by (induction rs arbitrary: M) (auto simp: fun_eq_iff)

lemma fold_loads:
  "fold spill_exec (map Spill_load rs) (R, M) = (\<lambda>r. if r \<in> set rs then M r else R r, M)"
  by (induction rs arbitrary: R) (auto simp: fun_eq_iff)

lemma free_all_rep:
  assumes "rs_rep drp n (A \<union> set rs) (S \<union> (A \<inter> set rs))" and "S \<inter> set rs = {}" and "distinct rs"
    and "set rs \<subseteq> {..<n}"
  shows "\<exists>drp'. regset_free_all drp rs = Some drp' \<and> rs_rep drp' n A S \<and>
    dr_code drp' = dr_code drp @ map Spill_load (filter (\<lambda>r. r \<in> A) rs)"
  using assms
proof (induction rs arbitrary: drp)
  case Nil
  then show ?case by simp
next
  case (Cons r rs)
  have r: "r \<in> A \<union> set (r # rs)" "r < n" "r \<notin> S" using Cons.prems by auto
  from free_rep [OF Cons.prems(1) r(2,1)] obtain d where d: "dt_regset_free drp r = Some d"
    "if r \<in> S \<union> (A \<inter> set (r # rs))
     then rs_rep d n (A \<union> set (r # rs)) (S \<union> (A \<inter> set (r # rs)) - {r}) \<and> dr_code d = dr_code drp @ [Spill_load r]
     else rs_rep d n (A \<union> set (r # rs) - {r}) (S \<union> (A \<inter> set (r # rs))) \<and> dr_code d = dr_code drp" by blast
  have "rs_rep d n (A \<union> set rs) (S \<union> (A \<inter> set rs)) \<and>
    dr_code d = dr_code drp @ map Spill_load (filter (\<lambda>r. r \<in> A) [r])"
  proof (cases "r \<in> A")
    case True
    moreover from True have "A \<union> set (r # rs) = A \<union> set rs" by auto
    moreover from True r(3) Cons.prems(3) have "S \<union> (A \<inter> set (r # rs)) - {r} = S \<union> (A \<inter> set rs)" by auto
    ultimately show ?thesis using d(2) by simp
  next
    case False
    moreover from False Cons.prems(3) have "A \<union> set (r # rs) - {r} = A \<union> set rs" by auto
    moreover from False have "S \<union> (A \<inter> set (r # rs)) = S \<union> (A \<inter> set rs)" by auto
    ultimately show ?thesis using d(2) r(3) by simp
  qed
  with Cons.IH [of d] Cons.prems d(1) show ?case by auto
qed

lemma unwind_free_all: "regset_unwind drp (Suc k) = regset_free_all drp (rev [1..<Suc k])"
proof (induction k arbitrary: drp)
  case 0
  then show ?case by simp
next
  case (Suc k)
  have "regset_unwind drp (Suc (Suc k)) = dt_regset_free drp (Suc k) \<bind> (\<lambda>d. regset_unwind d (Suc k))"
    by simp
  then show ?case unfolding Suc.IH by simp
qed

lemma xalloc_from_rep:
  assumes "rs_rep drp n (A \<union> {1..<reg}) (S \<union> (A \<inter> {1..<reg}))" and "S \<inter> {1..<reg} = {}" and "S \<subseteq> A"
    and "5 < n" and "1 \<le> reg" and "reg \<le> 6"
  shows "\<exists>rc drp'. regset_xalloc_from drp reg = Some (rc, drp') \<and>
    (if S \<inter> {1..5} = {}
     then rc = 0 \<and> rs_rep drp' n (A \<union> {1..5}) (S \<union> (A \<inter> {1..5})) \<and>
       dr_code drp' = dr_code drp @ map Spill_store (filter (\<lambda>r. r \<in> A) [reg..<6])
     else rc = - 1 \<and> rs_rep drp' n A S \<and>
       (\<exists>k \<ge> reg. k \<le> 5 \<and> dr_code drp' = dr_code drp @ map Spill_store (filter (\<lambda>r. r \<in> A) [reg..<k]) @
          map Spill_load (filter (\<lambda>r. r \<in> A) (rev [1..<k]))))"
  using assms
proof (induction "6 - reg" arbitrary: drp reg)
  case 0
  then have reg: "reg = 6" by simp
  moreover have "{1..<6::nat} = {1..5}" by auto
  ultimately show ?case using 0 by (subst regset_xalloc_from.simps) simp
next
  case (Suc m)
  then have reg: "reg \<le> 5" "reg < n" by auto
  have upto: "{1..<Suc reg} = insert reg {1..<reg}" using Suc.prems(5) by auto
  have notin: "reg \<notin> {1..<reg}" by simp
  from xalloc_rep [OF Suc.prems(1) reg(2)] obtain rc d where d: "dt_regset_xalloc drp reg = Some (rc, d)"
    "if reg \<notin> A \<union> {1..<reg} then rc = 0 \<and> rs_rep d n (insert reg (A \<union> {1..<reg})) (S \<union> (A \<inter> {1..<reg})) \<and> dr_code d = dr_code drp
     else if reg \<notin> S \<union> (A \<inter> {1..<reg}) then rc = 0 \<and> rs_rep d n (A \<union> {1..<reg}) (insert reg (S \<union> (A \<inter> {1..<reg}))) \<and>
       dr_code d = dr_code drp @ [Spill_store reg]
     else rc = - 1 \<and> d = drp" by blast
  show ?case
  proof (cases "reg \<in> S")
    case True
    with d notin Suc.prems(3) have rc: "rc = - 1" "d = drp" by auto
    obtain k where k: "reg = Suc k" using Suc.prems(5) by (cases reg) auto
    have "\<exists>drp'. regset_free_all drp (rev [1..<reg]) = Some drp' \<and> rs_rep drp' n A S \<and>
        dr_code drp' = dr_code drp @ map Spill_load (filter (\<lambda>r. r \<in> A) (rev [1..<reg]))"
      using Suc.prems reg by (intro free_all_rep) auto
    then obtain drp' where "regset_unwind drp reg = Some drp'" "rs_rep drp' n A S"
      "dr_code drp' = dr_code drp @ map Spill_load (filter (\<lambda>r. r \<in> A) (rev [1..<reg]))"
      unfolding k unwind_free_all by blast
    moreover have "S \<inter> {1..5} \<noteq> {}" using True reg Suc.prems(5) by auto
    ultimately show ?thesis using d(1) rc reg
      by (subst regset_xalloc_from.simps) (auto intro!: exI [of _ reg])
  next
    case False
    have rep: "rc = 0 \<and> rs_rep d n (A \<union> {1..<Suc reg}) (S \<union> (A \<inter> {1..<Suc reg})) \<and>
      dr_code d = dr_code drp @ map Spill_store (filter (\<lambda>r. r \<in> A) [reg])"
    proof (cases "reg \<in> A")
      case True
      then have "A \<union> {1..<Suc reg} = A \<union> {1..<reg}" "S \<union> (A \<inter> {1..<Suc reg}) = insert reg (S \<union> (A \<inter> {1..<reg}))"
        unfolding upto by auto
      with d(2) True False notin show ?thesis by simp
    next
      case F: False
      then have "A \<union> {1..<Suc reg} = insert reg (A \<union> {1..<reg})" "S \<union> (A \<inter> {1..<Suc reg}) = S \<union> (A \<inter> {1..<reg})"
        unfolding upto by auto
      with d(2) F False notin show ?thesis by simp
    qed
    have S': "S \<inter> {1..<Suc reg} = {}" unfolding upto using False Suc.prems(2) by auto
    have "m = 6 - Suc reg" using Suc.hyps(2) by simp
    from Suc.hyps(1) [OF this conjunct1 [OF conjunct2 [OF rep]] S' Suc.prems(3,4)] reg obtain rc' drp' where
      run: "regset_xalloc_from d (Suc reg) = Some (rc', drp')" and
      post: "if S \<inter> {1..5} = {}
       then rc' = 0 \<and> rs_rep drp' n (A \<union> {1..5}) (S \<union> (A \<inter> {1..5})) \<and>
         dr_code drp' = dr_code d @ map Spill_store (filter (\<lambda>r. r \<in> A) [Suc reg..<6])
       else rc' = - 1 \<and> rs_rep drp' n A S \<and>
         (\<exists>k \<ge> Suc reg. k \<le> 5 \<and> dr_code drp' = dr_code d @ map Spill_store (filter (\<lambda>r. r \<in> A) [Suc reg..<k]) @
            map Spill_load (filter (\<lambda>r. r \<in> A) (rev [1..<k])))" by auto
    have cons: "map Spill_store (filter (\<lambda>r. r \<in> A) [reg..<k]) =
        map Spill_store (filter (\<lambda>r. r \<in> A) [reg]) @ map Spill_store (filter (\<lambda>r. r \<in> A) [Suc reg..<k])"
      if "Suc reg \<le> k" for k
      using that by (simp add: upt_conv_Cons)
    have "regset_xalloc_from drp reg = Some (rc', drp')"
      using d(1) rep reg run by (subst regset_xalloc_from.simps) simp
    moreover have "dr_code d @ map Spill_store (filter (\<lambda>r. r \<in> A) [Suc reg..<k]) @ cs =
        dr_code drp @ map Spill_store (filter (\<lambda>r. r \<in> A) [reg..<k]) @ cs" if "Suc reg \<le> k" for k cs
      unfolding cons [OF that] using rep by simp
    note code = this
    ultimately show ?thesis
    proof (cases "S \<inter> {1..5} = {}")
      case True
      with post code [of 6 "[]"] reg have "dr_code drp' = dr_code drp @ map Spill_store (filter (\<lambda>r. r \<in> A) [reg..<6])"
        by simp
      with True post \<open>regset_xalloc_from drp reg = Some (rc', drp')\<close> show ?thesis by simp
    next
      case False
      with post obtain k where k: "Suc reg \<le> k" "k \<le> 5" "rc' = - 1" "rs_rep drp' n A S"
        "dr_code drp' = dr_code d @ map Spill_store (filter (\<lambda>r. r \<in> A) [Suc reg..<k]) @
            map Spill_load (filter (\<lambda>r. r \<in> A) (rev [1..<k]))" by auto
      from k(1) have "reg \<le> k" by simp
      with k(2-5) False code [OF k(1)] \<open>regset_xalloc_from drp reg = Some (rc', drp')\<close> show ?thesis
        by (simp del: map_append) blast
    qed
  qed
qed

lemma xalloc_args_rep:
  assumes "rs_rep drp n A S" and "5 < n"
  shows "\<exists>rc drp'. dt_regset_xalloc_args drp = Some (rc, drp') \<and>
    (if S \<inter> {1..5} = {}
     then rc = 0 \<and> rs_rep drp' n (A \<union> {1..5}) (S \<union> (A \<inter> {1..5})) \<and>
       dr_code drp' = dr_code drp @ map Spill_store (filter (\<lambda>r. r \<in> A) [1..<6])
     else rc = - 1 \<and> rs_rep drp' n A S \<and>
       (\<exists>k. dr_code drp' = dr_code drp @ map Spill_store (filter (\<lambda>r. r \<in> A) [1..<k]) @
          map Spill_load (filter (\<lambda>r. r \<in> A) (rev [1..<k]))))"
  using xalloc_from_rep [of drp n A 1 S] assms unfolding dt_regset_xalloc_args_def
  by (auto simp: rs_rep_def split: if_splits)

section \<open>Nested use of registers\<close>

text \<open>
  A client that allocates registers in a nested fashion, as the code generator does on the parse
  tree: \<open>With x c\<close> allocates a register, loads \<open>x\<close> into it, runs \<open>c\<close> and frees the register; \<open>Write k x\<close>
  writes to the \<open>k\<close>th register the client holds, counted from the most recent, provided the
  allocator has not given it out a second time since.
\<close>

datatype client = Skip | Write nat u64 | Seq client client | With u64 client

definition emitted :: "dt_regset \<Rightarrow> dt_regset \<Rightarrow> machine \<Rightarrow> machine" where
  "emitted drp drp' = fold spill_exec (drop (length (dr_code drp)) (dr_code drp'))"

fun client_run :: "client \<Rightarrow> dt_regset \<Rightarrow> nat list \<Rightarrow> machine \<Rightarrow> (dt_regset \<times> machine) option" where
  "client_run Skip drp own m = Some (drp, m)"
| "client_run (Write k x) drp own (R, M) =
     (if k < length own \<and> own ! k \<notin> set (take k own) then Some (drp, (R(own ! k := x), M)) else None)"
| "client_run (Seq c d) drp own m = do {
     (drp, m) \<leftarrow> client_run c drp own m;
     client_run d drp own m
   }"
| "client_run (With x c) drp own m = do {
     (reg, drp1) \<leftarrow> dt_regset_alloc drp;
     if reg < 0 then None
     else do {
       let (R, M) = emitted drp drp1 m;
       (drp2, m) \<leftarrow> client_run c drp1 (nat reg # own) (R(nat reg := x), M);
       drp3 \<leftarrow> dt_regset_free drp2 (nat reg);
       Some (drp3, emitted drp2 drp3 m)
     }
   }"

text \<open>The same client with as many registers as it asks for.\<close>

fun client_ideal :: "client \<Rightarrow> u64 list \<Rightarrow> u64 list" where
  "client_ideal Skip env = env"
| "client_ideal (Write k x) env = env[k := x]"
| "client_ideal (Seq c d) env = client_ideal d (client_ideal c env)"
| "client_ideal (With x c) env = tl (client_ideal c (x # env))"

definition holds :: "nat list \<Rightarrow> machine \<Rightarrow> u64 list" where
  "holds own m = map (\<lambda>k. (if own ! k \<in> set (take k own) then snd m else fst m) (own ! k)) [0..<length own]"

definition owns :: "dt_regset \<Rightarrow> nat \<Rightarrow> nat list \<Rightarrow> bool" where
  "owns drp n own \<longleftrightarrow> rs_rep drp n (set own) {r. 2 \<le> count_list own r} \<and> (\<forall>r. count_list own r \<le> 2)"

lemma length_holds [simp]: "length (holds own m) = length own"
  by (simp add: holds_def)

lemma nth_holds:
  "k < length own \<Longrightarrow> holds own m ! k = (if own ! k \<in> set (take k own) then snd m (own ! k) else fst m (own ! k))"
  by (simp add: holds_def)

lemma holds_Cons: "holds (r # own) m = fst m r # map (\<lambda>k. if own ! k = r then snd m r else holds own m ! k) [0..<length own]"
  by (rule nth_equalityI) (auto simp: nth_holds nth_Cons split: nat.splits)

lemma in_set_takeI: "j < k \<Longrightarrow> k \<le> length xs \<Longrightarrow> xs ! j \<in> set (take k xs)"
  by (auto simp: in_set_conv_nth intro!: exI [of _ j])

lemma in_take_count: "k < length xs \<Longrightarrow> xs ! k \<in> set (take k xs) \<Longrightarrow> 2 \<le> count_list xs (xs ! k)"
proof -
  assume k: "k < length xs" and mem: "xs ! k \<in> set (take k xs)"
  have "count_list xs (xs ! k) = count_list (take k xs @ xs ! k # drop (Suc k) xs) (xs ! k)"
    using id_take_nth_drop [OF k] by simp
  also have "\<dots> \<ge> 2" using mem by (simp add: count_list_0_iff Suc_le_eq zero_less_iff_neq_zero)
  finally show ?thesis .
qed

lemma emitted_code:
  "dr_code drp' = dr_code drp @ cs \<Longrightarrow> emitted drp drp' = fold spill_exec cs"
  by (simp add: emitted_def)

lemma owns_alloc:
  assumes "owns drp n own" and "dt_regset_alloc drp = Some (reg, drp')" and "\<not> reg < 0"
  shows "owns drp' n (nat reg # own) \<and>
    holds (nat reg # own) (case emitted drp drp' m of (R, M) \<Rightarrow> (R(nat reg := x), M)) = x # holds own m"
proof -
  let ?S = "{r. 2 \<le> count_list own r}"
  from assms have post: "alloc_post drp n (set own) ?S reg drp'"
    using alloc_rep [of drp n "set own" ?S] by (auto simp: owns_def)
  obtain R M where m: "m = (R, M)" by (cases m)
  show ?thesis
  proof (cases "{1..<n} \<subseteq> set own")
    case False
    with post have reg: "reg = int (Max ({1..<n} - set own))" and rep: "rs_rep drp' n (insert (nat reg) (set own)) ?S"
      and code: "dr_code drp' = dr_code drp @ []" by (auto simp: alloc_post_def)
    have new: "nat reg \<notin> set own" using Max_diff_mem [OF False] reg by simp
    then have "{r. 2 \<le> count_list (nat reg # own) r} = ?S" by (auto simp: count_notin)
    moreover have "count_list (nat reg # own) r \<le> 2" for r
      using assms(1) new by (auto simp: owns_def count_notin)
    ultimately have "owns drp' n (nat reg # own)" using rep by (simp add: owns_def)
    moreover have "own ! k \<noteq> nat reg" if "k < length own" for k using new that by (metis nth_mem)
    ultimately show ?thesis
      unfolding emitted_code [OF code] m holds_Cons
      by (auto intro!: nth_equalityI simp: nth_holds)
  next
    case True
    with post assms(3) have notS: "\<not> {1..<n} \<subseteq> ?S" and reg: "reg = int (Max ({1..<n} - ?S))"
      and rep: "rs_rep drp' n (set own) (insert (nat reg) ?S)"
      and code: "dr_code drp' = dr_code drp @ [Spill_store (nat reg)]" by (auto simp: alloc_post_def split: if_splits)
    have one: "nat reg \<in> set own" "nat reg \<notin> ?S" using Max_diff_mem [OF notS] reg True by auto
    then have cnt: "count_list own (nat reg) = 1"
      by (metis (no_types, lifting) One_nat_def Suc_1 count_list_0_iff le_SucE le_zero_eq mem_Collect_eq not_less_eq_eq)
    have "{r. 2 \<le> count_list (nat reg # own) r} = insert (nat reg) ?S" using cnt by auto
    moreover have "count_list (nat reg # own) r \<le> 2" for r using assms(1) cnt by (auto simp: owns_def)
    moreover have "insert (nat reg) (set own) = set own" using one by auto
    ultimately have "owns drp' n (nat reg # own)" using rep by (simp add: owns_def)
    moreover have "own ! k = nat reg \<Longrightarrow> own ! k \<notin> set (take k own)" if "k < length own" for k
      using in_take_count [OF that] cnt by auto
    ultimately show ?thesis
      unfolding emitted_code [OF code] m holds_Cons
      by (auto intro!: nth_equalityI simp: nth_holds)
  qed
qed

lemma owns_free:
  assumes "owns drp n (r # own)"
  shows "\<exists>drp'. dt_regset_free drp r = Some drp' \<and> owns drp' n own \<and>
    holds own (emitted drp drp' m) = tl (holds (r # own) m)"
proof -
  let ?S = "{q. 2 \<le> count_list (r # own) q}"
  have rep: "rs_rep drp n (set (r # own)) ?S" and le: "\<And>q. count_list (r # own) q \<le> 2"
    using assms by (auto simp: owns_def)
  then have r: "r < n" by (auto simp: rs_rep_def bt_rep_def)
  obtain R M where m: "m = (R, M)" by (cases m)
  from free_rep [OF rep r] obtain drp' where free: "dt_regset_free drp r = Some drp'"
    and post: "if r \<in> ?S then rs_rep drp' n (set (r # own)) (?S - {r}) \<and> dr_code drp' = dr_code drp @ [Spill_load r]
     else rs_rep drp' n (set (r # own) - {r}) ?S \<and> dr_code drp' = dr_code drp" by auto
  have cnt: "count_list own q \<le> 2" for q using le [of q] by (auto split: if_splits)
  show ?thesis
  proof (cases "r \<in> set own")
    case True
    then have one: "count_list own r = 1" using le [of r] count_list_0_iff [of own r] by simp
    then have "r \<in> ?S" and S: "?S - {r} = {q. 2 \<le> count_list own q}" by auto
    with post have rep': "rs_rep drp' n (set (r # own)) (?S - {r})" and code: "dr_code drp' = dr_code drp @ [Spill_load r]"
      by auto
    have "owns drp' n own" using rep' True cnt unfolding S owns_def by (simp add: insert_absorb)
    moreover have "own ! k = r \<Longrightarrow> own ! k \<notin> set (take k own)" if "k < length own" for k
      using in_take_count [OF that] one by auto
    then have "holds own (emitted drp drp' m) = tl (holds (r # own) m)"
      unfolding emitted_code [OF code] m holds_Cons
      by (auto intro!: nth_equalityI simp: nth_holds)
    ultimately show ?thesis using free by blast
  next
    case False
    then have "r \<notin> ?S" and S: "?S = {q. 2 \<le> count_list own q}" by (auto simp: count_notin)
    with post have rep': "rs_rep drp' n (set (r # own) - {r}) ?S" and code: "dr_code drp' = dr_code drp @ []"
      by auto
    have "set (r # own) - {r} = set own" using False by auto
    then have "owns drp' n own" using rep' cnt unfolding S owns_def by simp
    moreover have "own ! k \<noteq> r" if "k < length own" for k using False that by (metis nth_mem)
    then have "holds own (emitted drp drp' m) = tl (holds (r # own) m)"
      unfolding emitted_code [OF code] m holds_Cons
      by (auto intro!: nth_equalityI simp: nth_holds)
    ultimately show ?thesis using free by blast
  qed
qed

lemma length_client_ideal [simp]: "length (client_ideal c env) = length env"
  by (induction c arbitrary: env) simp_all

lemma client_run_sim:
  assumes "owns drp n own" and "client_run c drp own m = Some (drp', m')"
  shows "owns drp' n own \<and> holds own m' = client_ideal c (holds own m)"
  using assms
proof (induction c arbitrary: drp own m drp' m')
  case Skip
  then show ?case by simp
next
  case (Write k x)
  obtain R M where m: "m = (R, M)" by (cases m)
  with Write have k: "k < length own" "own ! k \<notin> set (take k own)" and res: "drp' = drp" "m' = (R(own ! k := x), M)"
    by (auto split: if_splits)
  have "own ! j \<in> set (take j own)" if "j < length own" "own ! j = own ! k" "j \<noteq> k" for j
  proof -
    have "\<not> j < k" using k that in_set_takeI [of j k own] by auto
    with that(3) have "k < j" by simp
    then show ?thesis using that in_set_takeI [of k j own] by simp
  qed
  then have "holds own m' ! j = (holds own m)[k := x] ! j" if "j < length own" for j
    using k that by (cases "j = k"; cases "own ! j = own ! k") (simp_all add: nth_holds res m)
  then have "holds own m' = (holds own m)[k := x]"
    by (simp add: list_eq_iff_nth_eq)
  with Write.prems(1) res show ?case by simp
next
  case (Seq c d)
  from Seq.prems obtain drp1 m1 where 1: "client_run c drp own m = Some (drp1, m1)"
    "client_run d drp1 own m1 = Some (drp', m')" by (auto split: bind_splits)
  from Seq.IH(1) [OF Seq.prems(1) 1(1)] Seq.IH(2) [of drp1 own m1, OF _ 1(2)] show ?case by simp
next
  case (With x c)
  from With.prems obtain reg drp1 R M drp2 m2 drp3 where
    run: "dt_regset_alloc drp = Some (reg, drp1)" "\<not> reg < 0" "emitted drp drp1 m = (R, M)"
      "client_run c drp1 (nat reg # own) (R(nat reg := x), M) = Some (drp2, m2)"
      "dt_regset_free drp2 (nat reg) = Some drp3" and res: "drp' = drp3" "m' = emitted drp2 drp3 m2"
    by (auto split: bind_splits if_splits prod.splits)
  from owns_alloc [OF With.prems(1) run(1,2), where m = m and x = x] run(3) have
    alloc: "owns drp1 n (nat reg # own)" "holds (nat reg # own) (R(nat reg := x), M) = x # holds own m" by simp_all
  from With.IH [OF alloc(1) run(4)] alloc(2) have
    body: "owns drp2 n (nat reg # own)" "holds (nat reg # own) m2 = client_ideal c (x # holds own m)" by simp_all
  from owns_free [OF body(1), of m2] run(5) res body(2) show ?case by auto
qed

section \<open>Properties\<close>

text \<open>
  C18.  The register allocator with spilling is transparent to clients that use registers in a nested
  fashion: whatever the client does, every register it holds has, when it ends, the value it would
  have with an unlimited supply of registers, although the allocator hands the same register out
  again and again and relies on stores and loads to the stack; and the allocator's bitmaps are
  back to what they were.
\<close>

theorem spilling_transparent:
  assumes "owns drp n own" and "client_run c drp own m = Some (drp', m')"
  shows "holds own m' = client_ideal c (holds own m) \<and> owns drp' n own"
  using client_run_sim [OF assms] by simp

theorem spilling_transparent_witness:
  "\<exists>drp drp' m'. dt_regset_create 1 [Some 1, Some 2, Some 3] = Some drp \<and>
     client_run (With 7 (Seq (With 8 (Write 0 9)) (With 5 Skip))) drp [] (\<lambda>_. 0, \<lambda>_. 0) = Some (drp', m') \<and>
     holds [] m' = [] \<and> owns drp' 2 []"
proof -
  let ?drp = "\<lparr>dr_size = 2, dr_active = [0], dr_spilled = [0], dr_code = []\<rparr>"
  let ?c = "With 7 (Seq (With 8 (Write 0 9)) (With 5 Skip))"
  have create: "dt_regset_create 1 [Some 1, Some 2, Some 3] = Some ?drp"
    by (simp add: dt_regset_create_def dt_regset_reset_def BT_BITOUL_def)
  have "rs_rep ?drp (1 + 1) {} {}" by (rule create_rs_rep [OF _ create]) simp
  then have own: "owns ?drp 2 []" by (simp add: owns_def one_add_one del: One_nat_def)
  have "client_run ?c ?drp [] (\<lambda>_. 0, \<lambda>_. 0) \<noteq> None"
    by (simp add: dt_regset_alloc_def dt_regset_free_def numeral_2_eq_2 BT_TEST_bit BT_SET_def BT_CLEAR_def BT_index
        BT_BIW_def dt_cg_spill_store_def dt_cg_spill_load_def emitted_def)
  then obtain drp' m' where run: "client_run ?c ?drp [] (\<lambda>_. 0, \<lambda>_. 0) = Some (drp', m')" by auto
  from spilling_transparent [OF own run] have "owns drp' 2 []" ..
  moreover have "holds [] m' = []" by (simp add: holds_def)
  ultimately show ?thesis using run create by blast
qed

text \<open>
  C20.  Allocation: the result is the highest free register above \<^verbatim>\<open>%r0\<close> if there is one; otherwise the
  highest register not yet spilled, with a store of it to the stack emitted first; and -1, with
  nothing changed, exactly when every register is spilled.  The bitmaps are accessed in bounds.
\<close>

theorem alloc_outcome:
  assumes "rs_rep drp n A S"
  shows "\<exists>reg drp'. dt_regset_alloc drp = Some (reg, drp') \<and>
    (if \<not> {1..<n} \<subseteq> A then
        reg = int (Max ({1..<n} - A)) \<and> rs_rep drp' n (insert (nat reg) A) S \<and> dr_code drp' = dr_code drp
      else if \<not> {1..<n} \<subseteq> S then
        reg = int (Max ({1..<n} - S)) \<and> rs_rep drp' n A (insert (nat reg) S) \<and>
        dr_code drp' = dr_code drp @ [Spill_store (nat reg)]
      else reg = - 1 \<and> drp' = drp)"
  using alloc_rep [OF assms] unfolding alloc_post_def .

theorem alloc_outcome_witness:
  "\<exists>drp reg drp'. rs_rep drp 4 {} {} \<and> dt_regset_alloc drp = Some (reg, drp') \<and> reg = int (Max {1..<4})"
proof -
  let ?drp = "\<lparr>dr_size = 4, dr_active = [0], dr_spilled = [0], dr_code = []\<rparr>"
  have "dt_regset_create 3 [Some 1, Some 2, Some 3] = Some ?drp"
    by (simp add: dt_regset_create_def dt_regset_reset_def BT_BITOUL_def)
  then have rep: "rs_rep ?drp 4 {} {}" using create_rs_rep [of 3 _ ?drp] by simp
  from alloc_outcome [OF rep] have "\<exists>reg drp'. dt_regset_alloc ?drp = Some (reg, drp') \<and> reg = int (Max {1..<4})"
    by auto
  with rep show ?thesis by blast
qed

text \<open>
  C19.  Allocating the argument registers \<^verbatim>\<open>%r1\<close> to \<^verbatim>\<open>%r5\<close> either succeeds, and freeing them again restores
  the allocator and, in the generated code, the values of all registers that were active before,
  whatever the call did to \<^verbatim>\<open>%r1\<close> to \<^verbatim>\<open>%r5\<close>; or it fails because one of the five is spilled already, and then
  the registers taken so far have been given back and the emitted code leaves every register as it
  was.
\<close>

theorem args_round_trip:
  assumes "rs_rep drp n A S" and "5 < n"
  shows "\<exists>rc drp1 cs. dt_regset_xalloc_args drp = Some (rc, drp1) \<and> dr_code drp1 = dr_code drp @ cs \<and>
    (if S \<inter> {1..5} = {}
     then rc = 0 \<and> (\<exists>drp2 ds. dt_regset_free_args drp1 = Some drp2 \<and> rs_rep drp2 n A S \<and> dr_code drp2 = dr_code drp1 @ ds \<and>
       (\<forall>R M R' M' r. fold spill_exec cs (R, M) = (R', M') \<longrightarrow> r \<in> A \<longrightarrow>
          (\<forall>Q. (\<forall>q. q \<notin> {1..5} \<longrightarrow> Q q = R' q) \<longrightarrow> fst (fold spill_exec ds (Q, M')) r = R r)))
     else rc = - 1 \<and> rs_rep drp1 n A S \<and> (\<forall>R M. fst (fold spill_exec cs (R, M)) = R))"
proof -
  from xalloc_args_rep [OF assms] obtain rc drp1 where run: "dt_regset_xalloc_args drp = Some (rc, drp1)"
    and post: "if S \<inter> {1..5} = {}
     then rc = 0 \<and> rs_rep drp1 n (A \<union> {1..5}) (S \<union> (A \<inter> {1..5})) \<and>
       dr_code drp1 = dr_code drp @ map Spill_store (filter (\<lambda>r. r \<in> A) [1..<6])
     else rc = - 1 \<and> rs_rep drp1 n A S \<and>
       (\<exists>k. dr_code drp1 = dr_code drp @ map Spill_store (filter (\<lambda>r. r \<in> A) [1..<k]) @
          map Spill_load (filter (\<lambda>r. r \<in> A) (rev [1..<k])))" by blast
  show ?thesis
  proof (cases "S \<inter> {1..5} = {}")
    case True
    have five: "set [1, 2, 3, 4, 5] = {1..5::nat}" by auto
    have "\<exists>drp2. dt_regset_free_args drp1 = Some drp2 \<and> rs_rep drp2 n A S \<and>
        dr_code drp2 = dr_code drp1 @ map Spill_load (filter (\<lambda>r. r \<in> A) [1, 2, 3, 4, 5])"
      unfolding dt_regset_free_args_def using True post assms(2)
      by (intro free_all_rep) (auto simp: five [simplified])
    then obtain drp2 where free: "dt_regset_free_args drp1 = Some drp2" "rs_rep drp2 n A S"
      "dr_code drp2 = dr_code drp1 @ map Spill_load (filter (\<lambda>r. r \<in> A) [1, 2, 3, 4, 5])" by blast
    let ?cs = "map Spill_store (filter (\<lambda>r. r \<in> A) [1..<6])"
      and ?ds = "map Spill_load (filter (\<lambda>r. r \<in> A) [1, 2, 3, 4, 5])"
    have sets: "r \<in> set (filter (\<lambda>r. r \<in> A) [1..<6]) \<longleftrightarrow> r \<in> A \<and> r \<in> {1..5}"
      "r \<in> set (filter (\<lambda>r. r \<in> A) [1, 2, 3, 4, 5]) \<longleftrightarrow> r \<in> A \<and> r \<in> {1..5}" for r
      unfolding set_filter five by auto
    have restore: "fst (fold spill_exec ?ds (Q, M')) r = R r"
      if "fold spill_exec ?cs (R, M) = (R', M')" "r \<in> A" "\<forall>q. q \<notin> {1..5} \<longrightarrow> Q q = R' q" for R M R' M' r Q
    proof -
      from that(1) have eq: "R = R' \<and> (\<lambda>r. if r \<in> A \<and> r \<in> {1..5} then R r else M r) = M'"
        unfolding fold_stores sets prod.inject .
      then have "r \<in> {1..5} \<Longrightarrow> M' r = R r" using that(2) by auto
      with eq that(2,3) show ?thesis unfolding fold_loads fst_conv sets by simp
    qed
    have "\<exists>drp2 ds. dt_regset_free_args drp1 = Some drp2 \<and> rs_rep drp2 n A S \<and> dr_code drp2 = dr_code drp1 @ ds \<and>
       (\<forall>R M R' M' r. fold spill_exec ?cs (R, M) = (R', M') \<longrightarrow> r \<in> A \<longrightarrow>
          (\<forall>Q. (\<forall>q. q \<notin> {1..5} \<longrightarrow> Q q = R' q) \<longrightarrow> fst (fold spill_exec ds (Q, M')) r = R r))"
      using free restore by (intro exI [of _ drp2] exI [of _ ?ds] conjI allI impI) blast+
    moreover have "dr_code drp1 = dr_code drp @ ?cs" "rc = 0" using post True by simp_all
    ultimately show ?thesis unfolding if_P [OF True] using run
      by - (rule exI [of _ rc], rule exI [of _ drp1], rule exI [of _ ?cs], intro conjI)
  next
    case False
    with post obtain k where k: "rc = - 1" "rs_rep drp1 n A S"
      "dr_code drp1 = dr_code drp @ map Spill_store (filter (\<lambda>r. r \<in> A) [1..<k]) @ map Spill_load (filter (\<lambda>r. r \<in> A) (rev [1..<k]))"
      by auto
    have "fst (fold spill_exec (map Spill_store (filter (\<lambda>r. r \<in> A) [1..<k]) @ map Spill_load (filter (\<lambda>r. r \<in> A) (rev [1..<k]))) (R, M)) = R"
      for R M by (auto simp: fold_stores fold_loads simp del: upt_Suc)
    with run k show ?thesis unfolding if_not_P [OF False] by blast
  qed
qed

theorem args_round_trip_witness:
  "\<exists>drp rc drp1. rs_rep drp 9 {} {} \<and> dt_regset_xalloc_args drp = Some (rc, drp1) \<and> rc = 0 \<and>
     (\<exists>drp2. dt_regset_free_args drp1 = Some drp2 \<and> rs_rep drp2 9 {} {})"
proof -
  let ?drp = "\<lparr>dr_size = 9, dr_active = [0], dr_spilled = [0], dr_code = []\<rparr>"
  have "dt_regset_create 8 [Some 1, Some 2, Some 3] = Some ?drp"
    by (simp add: dt_regset_create_def dt_regset_reset_def BT_BITOUL_def)
  then have rep: "rs_rep ?drp 9 {} {}" using create_rs_rep [of 8 _ ?drp] by simp
  from args_round_trip [OF rep] rep show ?thesis by auto
qed

end
