(* ===== verification/Strings.thy ===== *)
theory Strings
  imports Prelude
begin

text \<open>
  The string helpers of \<^verbatim>\<open>libdtrace/dt_string.c\<close>: escape sequences in both directions, base names,
  identifier checks, glob detection, hyphenation and reverse search.  Characters are their byte
  values: 92 is the backslash, 34 the double quote, 48 to 57 the digits.

  \<^verbatim>\<open>stresc2chr\<close> works in place; since it never writes ahead of what it has read, it is a function of
  the original string, and its result is the list of characters written.  Overflow of the C \<^verbatim>\<open>int\<close> that
  collects hexadecimal digits is a fault, as is any access outside a buffer.
\<close>

section \<open>Escape sequences\<close>

definition is_octal :: "u8 \<Rightarrow> bool" where
  "is_octal c \<longleftrightarrow> 48 \<le> c \<and> c \<le> 55"

text \<open>After the first octal digit: at most two more.\<close>

fun esc_octal :: "u8 \<Rightarrow> u8 list \<Rightarrow> u8 \<times> u8 list" where
  "esc_octal c [] = (c, [])"
| "esc_octal c [d] = (if is_octal d then (c * 8 + d - 48, []) else (c, [d]))"
| "esc_octal c (d # e # cs) =
     (if is_octal d then
        (let c = c * 8 + d - 48
         in if is_octal e then (c * 8 + e - 48, cs) else (c, e # cs))
      else (c, d # e # cs))"

definition INT_MAX :: int where
  "INT_MAX = 2 ^ 31 - 1"

fun esc_hex :: "int \<Rightarrow> u8 list \<Rightarrow> (int \<times> u8 list) option" where
  "esc_hex x [] = Some (x, [])"
| "esc_hex x (c # cs) =
     (if 48 \<le> c \<and> c \<le> 57 then
        (if x * 16 + uint c > INT_MAX then None else esc_hex (x * 16 + uint c - 48) cs)
      else if 97 \<le> c \<and> c \<le> 102 then
        (if x * 16 + uint c > INT_MAX then None else esc_hex (x * 16 + uint c - 97 + 10) cs)
      else if 65 \<le> c \<and> c \<le> 70 then
        (if x * 16 + uint c > INT_MAX then None else esc_hex (x * 16 + uint c - 65 + 10) cs)
      else Some (x, c # cs))"

lemma esc_octal_length: "length (snd (esc_octal c cs)) \<le> length cs"
  by (induction c cs rule: esc_octal.induct) (auto simp: Let_def)

lemma esc_octal_rest: "(v, rest) = esc_octal c cs \<Longrightarrow> length rest < Suc (length cs)"
  using esc_octal_length [of c cs] by (metis le_imp_less_Suc snd_conv)

lemma esc_hex_length: "esc_hex x cs = Some (y, rest) \<Longrightarrow> length rest \<le> length cs"
  by (induction x cs rule: esc_hex.induct) (auto simp: Let_def split: if_splits)

function stresc2chr_loop :: "bool \<Rightarrow> u8 list \<Rightarrow> u8 list option" where
  "stresc2chr_loop esc [] = Some []"
| "stresc2chr_loop esc (c # cs) =
     (if c = 0 then Some []
      else if esc then
        (if is_octal c then
           (case esc_octal (c - 48) cs of
              (v, rest) \<Rightarrow> map_option ((#) v) (stresc2chr_loop False rest))
         else if c = 97 then map_option ((#) 7) (stresc2chr_loop False cs)
         else if c = 98 then map_option ((#) 8) (stresc2chr_loop False cs)
         else if c = 102 then map_option ((#) 12) (stresc2chr_loop False cs)
         else if c = 110 then map_option ((#) 10) (stresc2chr_loop False cs)
         else if c = 114 then map_option ((#) 13) (stresc2chr_loop False cs)
         else if c = 116 then map_option ((#) 9) (stresc2chr_loop False cs)
         else if c = 118 then map_option ((#) 11) (stresc2chr_loop False cs)
         else if c = 120 then
           (case esc_hex 0 cs of
              None \<Rightarrow> None
            | Some (x, rest) \<Rightarrow> map_option ((#) (word_of_int x)) (stresc2chr_loop False rest))
         else if c = 34 \<or> c = 92 then map_option ((#) c) (stresc2chr_loop False cs)
         else map_option (\<lambda>t. 92 # c # t) (stresc2chr_loop False cs))
      else if c = 92 then stresc2chr_loop True cs
      else map_option ((#) c) (stresc2chr_loop False cs))"
  by pat_completeness auto
termination
  by (relation "measure (\<lambda>(esc, cs). length cs)")
    (auto simp: le_imp_less_Suc esc_hex_length dest: esc_octal_rest)

text \<open>The characters written before the final zero; their number is the result of the C function.\<close>

definition stresc2chr :: "u8 list \<Rightarrow> u8 list option" where
  "stresc2chr s = stresc2chr_loop False s"

fun chr2esc_addl :: "u8 list \<Rightarrow> nat" where
  "chr2esc_addl [] = 0"
| "chr2esc_addl (c # cs) =
     (if c \<in> {0, 7, 8, 12, 10, 13, 9, 11, 34, 92} then 1
      else if c = 32 then 0
      else if sint c < 33 \<or> sint c > 126 then 3 else 0) + chr2esc_addl cs"

definition chr2esc :: "u8 \<Rightarrow> u8 list" where
  "chr2esc c =
     (if c = 0 then [92, 48]
      else if c = 7 then [92, 97]
      else if c = 8 then [92, 98]
      else if c = 12 then [92, 102]
      else if c = 10 then [92, 110]
      else if c = 13 then [92, 114]
      else if c = 9 then [92, 116]
      else if c = 11 then [92, 118]
      else if c = 34 then [92, 34]
      else if c = 92 then [92, 92]
      else if c = 32 then [c]
      else if sint c < 33 \<or> sint c > 126 then
        [92, (drop_bit 6 c AND 3) + 48, (drop_bit 3 c AND 7) + 48, (c AND 7) + 48]
      else [c])"

fun chr2esc_loop :: "u8 list \<Rightarrow> u8 list" where
  "chr2esc_loop [] = []"
| "chr2esc_loop (c # cs) = chr2esc c @ (if c = 0 then [] else chr2esc_loop cs)"

text \<open>
  The first \<open>n\<close> bytes at \<open>s\<close> are read, so there must be as many; the result, with its final zero, must
  fit into the block that was allocated.  The inner option is the returned pointer.
\<close>

definition strchr2esc :: "u8 list \<Rightarrow> nat \<Rightarrow> allocs \<Rightarrow> u8 list option option" where
  "strchr2esc s n mm = do {
     c_assert (n \<le> length s);
     let addl = chr2esc_addl (take n s);
     (case c_alloc mm of
        (None, _) \<Rightarrow> Some None
      | (Some _, _) \<Rightarrow> do {
          let s2 = chr2esc_loop (take n s);
          c_assert (length s2 + 1 \<le> n + addl + 1);
          Some (Some s2)
        })
   }"

section \<open>Names\<close>

text \<open>The suffix after the last slash.\<close>

definition strbasename :: "u8 list \<Rightarrow> u8 list" where
  "strbasename s =
     (let s = c_str s
      in if 47 \<in> set s then rev (takeWhile (\<lambda>c. c \<noteq> 47) (rev s)) else s)"

definition is_space :: "u8 \<Rightarrow> bool" where
  "is_space c \<longleftrightarrow> c = 32 \<or> 9 \<le> c \<and> c \<le> 13"

definition is_digit :: "u8 \<Rightarrow> bool" where
  "is_digit c \<longleftrightarrow> 48 \<le> c \<and> c \<le> 57"

definition is_alpha :: "u8 \<Rightarrow> bool" where
  "is_alpha c \<longleftrightarrow> 65 \<le> c \<and> c \<le> 90 \<or> 97 \<le> c \<and> c \<le> 122"

definition digit_val :: "u8 \<Rightarrow> nat option" where
  "digit_val c =
     (if is_digit c then Some (unat c - 48)
      else if 97 \<le> c \<and> c \<le> 122 then Some (unat c - 87)
      else if 65 \<le> c \<and> c \<le> 90 then Some (unat c - 55)
      else None)"

text \<open>
  \<^verbatim>\<open>strtoull\<close> of the C library: white space, a sign, a prefix that selects the base when it is given as
  0, then digits.  The result is the value, the unread rest, and whether the value was out of
  range.  Without a digit nothing is read.
\<close>

fun strto_digits :: "nat \<Rightarrow> nat \<Rightarrow> u8 list \<Rightarrow> nat \<times> u8 list" where
  "strto_digits base v [] = (v, [])"
| "strto_digits base v (c # cs) =
     (case digit_val c of
        Some d \<Rightarrow> if d < base then strto_digits base (v * base + d) cs else (v, c # cs)
      | None \<Rightarrow> (v, c # cs))"

definition strto_prefix :: "nat \<Rightarrow> u8 list \<Rightarrow> nat \<times> u8 list" where
  "strto_prefix base s =
     (case s of
        a # x # d # _ \<Rightarrow>
          if (base = 0 \<or> base = 16) \<and> a = 48 \<and> (x = 120 \<or> x = 88) \<and>
             (case digit_val d of Some v \<Rightarrow> v < 16 | None \<Rightarrow> False) then (16, drop 2 s)
          else if base = 0 then (if a = 48 then 8 else 10, s) else (base, s)
      | a # _ \<Rightarrow> if base = 0 then (if a = 48 then 8 else 10, s) else (base, s)
      | [] \<Rightarrow> (if base = 0 then 10 else base, s))"

definition strtoull :: "u8 list \<Rightarrow> nat \<Rightarrow> u64 \<times> u8 list \<times> bool" where
  "strtoull s base =
     (let s = c_str s;
          t = dropWhile is_space s;
          neg = (t \<noteq> [] \<and> hd t = 45);
          t = (if t \<noteq> [] \<and> (hd t = 45 \<or> hd t = 43) then tl t else t);
          (b, t) = strto_prefix base t;
          (v, rest) = strto_digits b 0 t
      in if t \<noteq> [] \<and> (case digit_val (hd t) of Some d \<Rightarrow> d < b | None \<Rightarrow> False) then
           if v \<ge> 2 ^ 64 then (- 1, rest, True)
           else (if neg then - word_of_nat v else word_of_nat v, rest, False)
         else (0, s, False))"

text \<open>The position of the first character that makes a string no identifier or integer.\<close>

fun badid_from :: "nat \<Rightarrow> u8 list \<Rightarrow> nat option" where
  "badid_from i [] = None"
| "badid_from i (c # cs) =
     (if \<not> is_digit c \<and> \<not> is_alpha c \<and> c \<noteq> 95 \<and> c \<noteq> 96 then Some i else badid_from (Suc i) cs)"

definition strbadidnum :: "u8 list \<Rightarrow> nat option" where
  "strbadidnum s =
     (if c_str s = [] then Some 0
      else case strtoull s 0 of
        (_, rest, erange) \<Rightarrow>
          if \<not> erange \<and> rest = [] then None else badid_from 0 (c_str s))"

fun strisglob :: "u8 list \<Rightarrow> bool" where
  "strisglob [] = False"
| "strisglob (c # cs) =
     (if c = 0 then False
      else if c = 91 \<or> c = 63 \<or> c = 42 \<or> c = 92 then True else strisglob cs)"

section \<open>Hyphenation and reverse search\<close>

text \<open>\<^verbatim>\<open>memmove(buf + d, buf + s, n)\<close> inside one buffer.\<close>

definition c_memmove :: "u8 list \<Rightarrow> nat \<Rightarrow> nat \<Rightarrow> nat \<Rightarrow> u8 list option" where
  "c_memmove buf d s n =
     (if d + n \<le> length buf \<and> s + n \<le> length buf
      then Some (take d buf @ take n (drop s buf) @ drop (d + n) buf) else None)"

function hyphenate_loop :: "u8 list \<Rightarrow> nat \<Rightarrow> nat \<Rightarrow> u8 list option" where
  "hyphenate_loop buf p q =
     (if p < q then
        if Suc p < length buf then
          if buf ! p = 95 \<and> buf ! Suc p = 95 then
            (case c_memmove (buf[p := 45]) (p + 1) (p + 2) (q - p - 1) of
               None \<Rightarrow> None
             | Some buf \<Rightarrow> hyphenate_loop buf (Suc p) q)
          else hyphenate_loop buf (Suc p) q
        else None
      else Some buf)"
  by pat_completeness auto
termination
  by (relation "measure (\<lambda>(buf, p, q). q - p)") auto

declare hyphenate_loop.simps [simp del]

text \<open>The argument is the buffer that holds the string and its final zero.\<close>

definition strhyphenate :: "u8 list \<Rightarrow> u8 list option" where
  "strhyphenate s = do {
     c_assert (0 \<in> set s);
     hyphenate_loop s 0 (length (c_str s))
   }"

text \<open>\<^verbatim>\<open>strstr\<close> from an offset into the string; an offset past the final zero is out of bounds.\<close>

fun strstr_from :: "u8 list \<Rightarrow> u8 list \<Rightarrow> nat \<Rightarrow> nat option" where
  "strstr_from [] needle i = (if needle = [] then Some i else None)"
| "strstr_from (c # cs) needle i =
     (if take (length needle) (c # cs) = needle then Some i else strstr_from cs needle (Suc i))"

definition strstr_at :: "u8 list \<Rightarrow> u8 list \<Rightarrow> nat \<Rightarrow> nat option option" where
  "strstr_at haystack needle i =
     (if i \<le> length haystack then Some (strstr_from (drop i haystack) needle i) else None)"

text \<open>\<open>s\<close> is the offset of \<^verbatim>\<open>s + 1\<close> in the code.\<close>

partial_function (option) strrstr_loop :: "u8 list \<Rightarrow> u8 list \<Rightarrow> nat \<Rightarrow> nat option \<Rightarrow> nat option option" where
  "strrstr_loop haystack needle s prev_s = do {
     r \<leftarrow> strstr_at haystack needle s;
     (case r of
        None \<Rightarrow> Some prev_s
      | Some i \<Rightarrow> strrstr_loop haystack needle (Suc i) (Some i))
   }"

definition strrstr :: "u8 list \<Rightarrow> u8 list \<Rightarrow> nat option option" where
  "strrstr haystack needle = strrstr_loop (c_str haystack) (c_str needle) 0 None"

section \<open>Round trip of the escapes\<close>

lemma word_low_bits:
  fixes w :: u8
  shows "w AND 3 = word_of_nat (unat w mod 4)" and "w AND 7 = word_of_nat (unat w mod 8)"
proof -
  have "take_bit k w = word_of_nat (take_bit k (unat w))" for k
    using take_bit_of_nat [of k "unat w", where 'a = u8] by simp
  moreover have "w AND 3 = take_bit 2 w" "w AND 7 = take_bit 3 w"
    by (simp_all add: take_bit_eq_mask mask_eq_exp_minus_1)
  ultimately show "w AND 3 = word_of_nat (unat w mod 4)" "w AND 7 = word_of_nat (unat w mod 8)"
    by (simp_all add: take_bit_eq_mod [of _ "unat w"])
qed

lemma is_octal_of_nat:
  assumes "k < 8"
  shows "is_octal (word_of_nat k + 48)"
proof -
  have "unat (word_of_nat (k + 48) :: u8) = k + 48"
    using assms by (simp only: unat_of_nat) simp
  then have "unat (word_of_nat k + 48 :: u8) = k + 48" by simp
  then show ?thesis using assms unfolding is_octal_def word_le_nat_alt by simp
qed

lemma octal_digits:
  fixes c :: u8
  defines "d \<equiv> (drop_bit 6 c AND 3) + 48" and "e \<equiv> (drop_bit 3 c AND 7) + 48" and "f \<equiv> (c AND 7) + 48"
  shows "is_octal d \<and> is_octal e \<and> is_octal f \<and> ((d - 48) * 8 + e - 48) * 8 + f - 48 = c"
proof -
  let ?n = "unat c"
  have d: "d = word_of_nat (?n div 64 mod 4) + 48" and e: "e = word_of_nat (?n div 8 mod 8) + 48"
    and f: "f = word_of_nat (?n mod 8) + 48"
    unfolding d_def e_def f_def word_low_bits by (simp_all add: unat_div_distrib drop_bit_eq_div)
  have "?n < 256" using unsigned_less [of c] by simp
  then have "?n div 64 mod 4 = ?n div 8 div 8" by (simp add: less_mult_imp_div_less flip: div_mult2_eq)
  then have n: "(?n div 64 mod 4 * 8 + ?n div 8 mod 8) * 8 + ?n mod 8 = ?n" by (simp only: div_mult_mod_eq)
  have "((d - 48) * 8 + e - 48) * 8 + f - 48 = word_of_nat ((?n div 64 mod 4 * 8 + ?n div 8 mod 8) * 8 + ?n mod 8)"
    by (simp only: d e f) (simp add: algebra_simps)
  also have "\<dots> = c" unfolding n by simp
  finally show ?thesis unfolding d e f by (simp add: is_octal_of_nat)
qed

lemma stresc2chr_plain:
  "c \<noteq> 0 \<Longrightarrow> c \<noteq> 92 \<Longrightarrow> stresc2chr_loop False (c # rest) = map_option ((#) c) (stresc2chr_loop False rest)"
  by simp

lemma chr2esc_round_trip:
  assumes "c \<noteq> 0"
  shows "stresc2chr_loop False (chr2esc c @ rest) = map_option ((#) c) (stresc2chr_loop False rest)"
proof -
  consider "c \<in> {7, 8, 12, 10, 13, 9, 11, 34, 92}"
    | "c \<notin> {7, 8, 12, 10, 13, 9, 11, 34, 92}" "c = 32 \<or> \<not> (sint c < 33 \<or> sint c > 126)"
    | "c \<notin> {7, 8, 12, 10, 13, 9, 11, 34, 92}" "\<not> (c = 32 \<or> \<not> (sint c < 33 \<or> sint c > 126))" by blast
  then show ?thesis
  proof cases
    case 1
    then show ?thesis
      by (elim insertE emptyE) (simp_all add: chr2esc_def is_octal_def del: stresc2chr_loop.simps,
          simp_all add: is_octal_def)
  next
    case 2
    then have "chr2esc c = [c]" using assms by (auto simp: chr2esc_def)
    moreover have "c \<noteq> 92" using 2 by simp
    ultimately show ?thesis using assms by (simp only: append_Cons append_Nil) (rule stresc2chr_plain)
  next
    case 3
    let ?d = "(drop_bit 6 c AND 3) + 48" and ?e = "(drop_bit 3 c AND 7) + 48" and ?f = "(c AND 7) + 48"
    from 3 assms have esc: "chr2esc c = [92, ?d, ?e, ?f]" by (simp add: chr2esc_def)
    define d e f where "d = ?d" and "e = ?e" and "f = ?f"
    have o: "is_octal d" "is_octal e" "is_octal f" "((d - 48) * 8 + e - 48) * 8 + f - 48 = c"
      using octal_digits [of c] unfolding d_def e_def f_def by simp_all
    have "d \<noteq> 0" using o(1) by (auto simp: is_octal_def)
    then have "stresc2chr_loop False ([92, d, e, f] @ rest) = map_option ((#) c) (stresc2chr_loop False rest)"
      using o by (simp add: Let_def)
    then show ?thesis unfolding esc d_def e_def f_def .
  qed
qed

lemma chr2esc_loop_round_trip:
  "0 \<notin> set s \<Longrightarrow> stresc2chr_loop False (chr2esc_loop s) = Some s"
  by (induction s) (simp_all add: chr2esc_round_trip)

lemma chr2esc_length: "length (chr2esc_loop s) \<le> length s + chr2esc_addl s"
  by (induction s) (auto simp: chr2esc_def)

section \<open>Hyphenation\<close>

text \<open>The specification: pairs of underscores, from the left and without overlap, become hyphens.\<close>

fun hyphenate :: "u8 list \<Rightarrow> u8 list" where
  "hyphenate (a # b # cs) = (if a = 95 \<and> b = 95 then 45 # hyphenate cs else a # hyphenate (b # cs))"
| "hyphenate cs = cs"

lemma hyphenate_Cons:
  "\<not> (a = 95 \<and> cs \<noteq> [] \<and> hd cs = 95) \<Longrightarrow> hyphenate (a # cs) = a # hyphenate cs"
  by (cases cs) auto

lemma memmove_pair:
  assumes "Suc p < q" and "q < length buf" and "buf ! q = 0"
  defines "buf' \<equiv> take p buf @ 45 # take (q - p - 1) (drop (p + 2) buf) @ drop q buf"
  shows "c_memmove (buf[p := 45]) (p + 1) (p + 2) (q - p - 1) = Some buf'"
    and "length buf' = length buf" and "buf' ! q = 0"
    and "take (Suc p) buf' = take p buf @ [45]" and "c_str (drop (Suc p) buf') = c_str (drop (p + 2) buf)"
proof -
  have "take (Suc p) (buf[p := 45]) = take p buf @ [45]"
    using assms(1,2) by (simp add: take_Suc_conv_app_nth)
  then show "c_memmove (buf[p := 45]) (p + 1) (p + 2) (q - p - 1) = Some buf'"
    using assms(1,2) by (simp add: c_memmove_def buf'_def)
  show len: "length buf' = length buf" using assms(1,2) by (simp add: buf'_def)
  let ?a = "take p buf @ 45 # take (q - p - 1) (drop (p + 2) buf)"
  have "buf' = ?a @ drop q buf" "length ?a = q" using assms(1,2) by (simp_all add: buf'_def)
  then show "buf' ! q = 0" using assms(2,3) by (simp only: nth_append) simp
  show "take (Suc p) buf' = take p buf @ [45]" using assms(1,2) by (simp add: buf'_def)
  have "p + 2 + (q - p - 2) = q" using assms(1) by simp
  then have "(drop (p + 2) buf) ! (q - p - 2) = 0" using assms(1-3) by (simp only: nth_drop)
  then have zero: "0 \<in> set (take (q - p - 1) (drop (p + 2) buf))"
    using assms(1,2) by (auto simp: in_set_conv_nth intro!: exI [of _ "q - p - 2"])
  moreover have "drop (Suc p) buf' = take (q - p - 1) (drop (p + 2) buf) @ drop q buf"
    using assms(1,2) by (simp add: buf'_def)
  ultimately show "c_str (drop (Suc p) buf') = c_str (drop (p + 2) buf)"
    using c_str_prefix [OF zero] by (simp add: c_str_append)
qed

lemma hyphenate_loop_correct:
  assumes "q < length buf" and "buf ! q = 0" and "p \<le> q"
  shows "\<exists>out. hyphenate_loop buf p q = Some out \<and> length out = length buf \<and>
    c_str out = (if 0 \<in> set (take p buf) then c_str buf else take p buf @ hyphenate (c_str (drop p buf)))"
  using assms
proof (induction "q - p" arbitrary: buf p)
  case 0
  then have "p = q" by simp
  moreover have "drop q buf = 0 # drop (Suc q) buf" using 0 by (metis Cons_nth_drop_Suc)
  ultimately show ?case
    using 0 c_str_at [of q buf] by (subst hyphenate_loop.simps) simp
next
  case (Suc n)
  then have p: "p < q" "Suc p < length buf" "p < length buf" and n: "n = q - Suc p" by auto
  have d: "drop p buf = buf ! p # drop (Suc p) buf" and d': "drop (Suc p) buf = buf ! Suc p # drop (p + 2) buf"
    using p by (simp_all add: Cons_nth_drop_Suc)
  have t: "take (Suc p) buf = take p buf @ [buf ! p]" using p by (simp add: take_Suc_conv_app_nth)
  show ?case
  proof (cases "buf ! p = 95 \<and> buf ! Suc p = 95")
    case True
    with Suc.prems(2) have "Suc p \<noteq> q" by auto
    with p have pq: "Suc p < q" by simp
    define buf' where "buf' = take p buf @ 45 # take (q - p - 1) (drop (p + 2) buf) @ drop q buf"
    note mv = memmove_pair [OF pq Suc.prems(1,2), folded buf'_def]
    have "hyphenate_loop buf p q = hyphenate_loop buf' (Suc p) q"
      using True p mv(1) by (subst hyphenate_loop.simps) simp
    moreover have "\<exists>out. hyphenate_loop buf' (Suc p) q = Some out \<and> length out = length buf' \<and>
        c_str out = (if 0 \<in> set (take (Suc p) buf') then c_str buf' else take (Suc p) buf' @ hyphenate (c_str (drop (Suc p) buf')))"
      using Suc.hyps(1) [OF n, of buf'] mv(2,3) Suc.prems(1) p by simp
    moreover have "c_str buf' = c_str buf" if "0 \<in> set (take p buf)"
      using that c_str_append [of "take p buf"] c_str_prefix [of p buf] by (simp add: buf'_def)
    moreover have "hyphenate (c_str (drop p buf)) = 45 # hyphenate (c_str (drop (p + 2) buf))"
      using True by (simp add: d d')
    ultimately show ?thesis using mv(2,4,5) by auto
  next
    case False
    have "hyphenate_loop buf p q = hyphenate_loop buf (Suc p) q"
      using False p by (subst hyphenate_loop.simps) auto
    moreover have "\<exists>out. hyphenate_loop buf (Suc p) q = Some out \<and> length out = length buf \<and>
        c_str out = (if 0 \<in> set (take (Suc p) buf) then c_str buf else take (Suc p) buf @ hyphenate (c_str (drop (Suc p) buf)))"
      using Suc.hyps(1) [OF n, of buf] Suc.prems p by simp
    moreover have "c_str buf = take p buf" if "buf ! p = 0" "0 \<notin> set (take p buf)"
      using that p by (intro c_str_at) auto
    moreover have "hyphenate (c_str (drop p buf)) = buf ! p # hyphenate (c_str (drop (Suc p) buf))" if "buf ! p \<noteq> 0"
      unfolding d using that False by (simp add: d' hyphenate_Cons)
    ultimately show ?thesis by (cases "buf ! p = 0") (auto simp: t d)
  qed
qed

section \<open>Reverse search\<close>

lemma strstr_from_Some:
  "strstr_from s needle i = Some j \<Longrightarrow>
   i \<le> j \<and> j \<le> i + length s \<and> take (length needle) (drop (j - i) s) = needle \<and>
   (\<forall>k < j - i. take (length needle) (drop k s) \<noteq> needle)"
proof (induction s arbitrary: i)
  case Nil
  then show ?case by (auto split: if_splits)
next
  case (Cons c s)
  show ?case
  proof (cases "take (length needle) (c # s) = needle")
    case True
    with Cons.prems show ?thesis by simp
  next
    case False
    with Cons.prems have "strstr_from s needle (Suc i) = Some j" by simp
    note IH = Cons.IH [OF this]
    then have ji: "j - i = Suc (j - Suc i)" by (simp add: Suc_diff_Suc)
    then have "drop (j - i) (c # s) = drop (j - Suc i) s" by simp
    moreover have "take (length needle) (drop k (c # s)) \<noteq> needle" if "k < j - i" for k
      using that IH False ji by (cases k) auto
    ultimately show ?thesis using IH by simp
  qed
qed

lemma strstr_from_None: "strstr_from s needle i = None \<Longrightarrow> take (length needle) (drop k s) \<noteq> needle"
proof (induction s arbitrary: i k)
  case Nil
  then show ?case by (auto split: if_splits)
next
  case (Cons c s)
  then show ?case by (cases k) (auto split: if_splits)
qed

definition occurs :: "u8 list \<Rightarrow> u8 list \<Rightarrow> nat \<Rightarrow> bool" where
  "occurs needle hay k \<longleftrightarrow> take (length needle) (drop k hay) = needle"

lemma strrstr_loop_correct:
  assumes "needle \<noteq> []" and "s \<le> length hay"
  shows "(\<exists>j \<ge> s. occurs needle hay j \<and> (\<forall>k > j. \<not> occurs needle hay k) \<and>
      strrstr_loop hay needle s prev = Some (Some j)) \<or>
    (\<forall>k \<ge> s. \<not> occurs needle hay k) \<and> strrstr_loop hay needle s prev = Some prev"
  using assms(2)
proof (induction "length hay - s" arbitrary: s prev rule: less_induct)
  case less
  show ?case
  proof (cases "strstr_from (drop s hay) needle s")
    case None
    have "\<not> occurs needle hay k" if "s \<le> k" for k
      using strstr_from_None [OF None, of "k - s"] that by (simp add: occurs_def)
    moreover have "strrstr_loop hay needle s prev = Some prev"
      using None less.prems by (subst strrstr_loop.simps) (simp add: strstr_at_def)
    ultimately show ?thesis by blast
  next
    case (Some j)
    from strstr_from_Some [OF Some] have j: "s \<le> j" "occurs needle hay j" by (auto simp: occurs_def)
    with assms(1) have jl: "j < length hay" unfolding occurs_def by (metis drop_eq_Nil leI take_Nil)
    have run: "strrstr_loop hay needle s prev = strrstr_loop hay needle (Suc j) (Some j)"
      using Some less.prems by (subst strrstr_loop.simps) (simp add: strstr_at_def)
    have "length hay - Suc j < length hay - s" using j(1) jl by simp
    from less.hyps [OF this Suc_leI [OF jl], of "Some j"] show ?thesis
    proof
      assume "\<exists>i \<ge> Suc j. occurs needle hay i \<and> (\<forall>k > i. \<not> occurs needle hay k) \<and>
        strrstr_loop hay needle (Suc j) (Some j) = Some (Some i)"
      then show ?thesis unfolding run using j(1) by (meson Suc_leD le_trans)
    next
      assume "(\<forall>k \<ge> Suc j. \<not> occurs needle hay k) \<and> strrstr_loop hay needle (Suc j) (Some j) = Some (Some j)"
      then show ?thesis unfolding run using j by (auto simp: Suc_le_eq)
    qed
  qed
qed

section \<open>Properties\<close>

text \<open>
  C25.  Escaping a string and unescaping the result gives the string back, for every string without a
  zero byte; the escaped copy fits the block \<^verbatim>\<open>strchr2esc\<close> allocates for it.
\<close>

theorem escape_round_trip:
  assumes "0 \<notin> set s" and "c_alloc mm = (Some a, mm')"
  shows "\<exists>s2. strchr2esc s (length s) mm = Some (Some s2) \<and> stresc2chr s2 = Some s"
  using assms chr2esc_length [of s] chr2esc_loop_round_trip [of s]
  by (simp add: strchr2esc_def stresc2chr_def)

theorem escape_round_trip_witness:
  "\<exists>s2. strchr2esc [97, 10, 92, 200, 34] (length [97, 10, 92, 200, 34 :: u8]) [Some 1] = Some (Some s2) \<and>
     stresc2chr s2 = Some [97, 10, 92, 200, 34]"
  using escape_round_trip [of "[97, 10, 92, 200, 34]" "[Some 1]" 1 "[]"] by simp

text \<open>
  C27.  \<^verbatim>\<open>strhyphenate\<close>, which shifts the rest of the buffer for each pair of underscores it replaces and
  goes on scanning up to the original end, computes the same string as replacing the pairs from the
  left one by one, stays inside the buffer and does not change its size.
\<close>

theorem strhyphenate_correct:
  assumes "0 \<in> set buf"
  shows "\<exists>out. strhyphenate buf = Some out \<and> length out = length buf \<and> c_str out = hyphenate (c_str buf)"
proof -
  obtain xs ys where buf: "buf = xs @ 0 # ys" "0 \<notin> set xs" using assms by (metis split_list_first)
  then have "c_str buf = xs" by (simp add: c_str_append)
  with buf have "length (c_str buf) < length buf" "buf ! length (c_str buf) = 0" by simp_all
  from hyphenate_loop_correct [OF this, of 0] assms show ?thesis by (simp add: strhyphenate_def)
qed

theorem strhyphenate_correct_witness:
  "\<exists>out. strhyphenate [97, 95, 95, 95, 95, 98, 0] = Some out \<and> c_str out = [97, 45, 45, 98]"
  using strhyphenate_correct [of "[97, 95, 95, 95, 95, 98, 0]"] by auto

text \<open>
  C28.  \<^verbatim>\<open>strrstr\<close> ends for every needle that is not empty and returns the last occurrence of the needle,
  or NULL if there is none.
\<close>

theorem strrstr_last:
  assumes "c_str needle \<noteq> []"
  shows "\<exists>r. strrstr haystack needle = Some r \<and>
    (case r of
       None \<Rightarrow> \<forall>k. \<not> occurs (c_str needle) (c_str haystack) k
     | Some j \<Rightarrow> occurs (c_str needle) (c_str haystack) j \<and> (\<forall>k > j. \<not> occurs (c_str needle) (c_str haystack) k))"
  using strrstr_loop_correct [OF assms, of 0 "c_str haystack" None] by (auto simp: strrstr_def)

theorem strrstr_last_witness:
  "\<exists>j. strrstr [97, 98, 97, 98] [98] = Some (Some j) \<and> occurs [98] [97, 98, 97, 98] j \<and>
     (\<forall>k > j. \<not> occurs [98] [97, 98, 97, 98] k)"
proof -
  have cs: "c_str [98] = [98]" "c_str [97, 98, 97, 98] = [97, 98, 97, 98]" by simp_all
  from strrstr_last [of "[98]" "[97, 98, 97, 98]", unfolded cs] obtain r where r: "strrstr [97, 98, 97, 98] [98] = Some r"
    and post: "case r of
       None \<Rightarrow> \<forall>k. \<not> occurs [98] [97, 98, 97, 98] k
     | Some j \<Rightarrow> occurs [98] [97, 98, 97, 98] j \<and> (\<forall>k > j. \<not> occurs [98] [97, 98, 97, 98] k)" by auto
  have "occurs [98] [97, 98, 97, 98] 1" by (simp add: occurs_def)
  with r post show ?thesis by (cases r) auto
qed

text \<open>
  C33.  With an empty needle \<^verbatim>\<open>strrstr\<close> reads past the end of the haystack: \<^verbatim>\<open>strstr\<close> finds the empty string
  everywhere, so the search never stops inside the string.
\<close>

theorem strrstr_empty_needle: "strrstr haystack [] = None"
proof -
  have "strrstr_loop hay [] s prev = None" if "s \<le> length hay" for hay s prev
    using that
  proof (induction "length hay - s" arbitrary: s prev)
    case 0
    then show ?case
      by (subst strrstr_loop.simps, subst strrstr_loop.simps) (simp add: strstr_at_def)
  next
    case (Suc n)
    then have "strstr_at hay [] s = Some (Some s)" by (cases "drop s hay") (auto simp: strstr_at_def)
    moreover have "strrstr_loop hay [] (Suc s) (Some s) = None" using Suc by simp
    ultimately show ?case by (subst strrstr_loop.simps) simp
  qed
  then show ?thesis by (simp add: strrstr_def)
qed

text \<open>
  A hexadecimal escape whose value does not fit the C \<^verbatim>\<open>int\<close> in which \<^verbatim>\<open>stresc2chr\<close> collects it overflows it, which is
  undefined; of the smaller value of the second example the last byte is taken.
\<close>

lemma hex_escape_overflow:
  "stresc2chr [92, 120, 56, 48, 48, 48, 48, 48, 48, 48] = None \<and>
   stresc2chr [92, 120, 55, 48, 48, 48, 48, 48, 52, 49] = Some [0x41]"
  by (simp add: stresc2chr_def is_octal_def INT_MAX_def)

end
