(* ===== verification/Version.thy ===== *)
theory Version
  imports Strings
begin

text \<open>
  Version numbers, \<^verbatim>\<open>libdtrace/dt_version.c\<close>: three components packed into 32 bits, their decimal
  representation and its parser.  The array of known versions is generated by the build and is a
  parameter.
\<close>

section \<open>Packing\<close>

definition DT_VERSION_NUMBER :: "u32 \<Rightarrow> u32 \<Rightarrow> u32 \<Rightarrow> u32" where
  "DT_VERSION_NUMBER M m u =
     push_bit 24 (M AND 0xFF) OR push_bit 12 (m AND 0xFFF) OR (u AND 0xFFF)"

definition DT_VERSION_MAJOR :: "u32 \<Rightarrow> u32" where
  "DT_VERSION_MAJOR v = drop_bit 24 (v AND 0xFF000000)"

definition DT_VERSION_MINOR :: "u32 \<Rightarrow> u32" where
  "DT_VERSION_MINOR v = drop_bit 12 (v AND 0x00FFF000)"

definition DT_VERSION_MICRO :: "u32 \<Rightarrow> u32" where
  "DT_VERSION_MICRO v = v AND 0x00000FFF"

section \<open>Printing and parsing\<close>

text \<open>The conversion \<^verbatim>\<open>%u\<close>, and \<^verbatim>\<open>snprintf\<close> into a buffer of \<open>len\<close> bytes.\<close>

function c_dec :: "nat \<Rightarrow> u8 list" where
  "c_dec n = (if n < 10 then [48 + word_of_nat n] else c_dec (n div 10) @ [48 + word_of_nat (n mod 10)])"
  by pat_completeness auto
termination
  by (relation "measure id") auto

declare c_dec.simps [simp del]

definition c_snprintf :: "nat \<Rightarrow> u8 list \<Rightarrow> u8 list" where
  "c_snprintf len s = (if len = 0 then [] else take (len - 1) s)"

definition dt_version_num2str :: "u32 \<Rightarrow> nat \<Rightarrow> u8 list" where
  "dt_version_num2str v len =
     (let M = DT_VERSION_MAJOR v; m = DT_VERSION_MINOR v; u = DT_VERSION_MICRO v
      in if u = 0 then c_snprintf len (c_dec (unat M) @ 46 # c_dec (unat m))
         else c_snprintf len (c_dec (unat M) @ 46 # c_dec (unat m) @ 46 # c_dec (unat u)))"

text \<open>
  The outer option is overflow of a C \<^verbatim>\<open>int\<close>, the inner one the result \<^verbatim>\<open>-1\<close>.
\<close>

fun str2num_loop :: "int list \<Rightarrow> nat \<Rightarrow> u8 list \<Rightarrow> int list option option" where
  "str2num_loop n i [] = Some (Some n)"
| "str2num_loop n i (c # cs) =
     (if c = 0 then Some (Some n)
      else if is_digit c then
        if n ! i * 10 + uint c > INT_MAX then None
        else str2num_loop (n[i := n ! i * 10 + uint c - 48]) i cs
      else if c \<noteq> 46 \<or> i \<ge> 2 then Some None
      else str2num_loop n (Suc i) cs)"

definition dt_version_str2num :: "u8 list \<Rightarrow> u32 option option" where
  "dt_version_str2num s = do {
     r \<leftarrow> str2num_loop [0, 0, 0] 0 s;
     Some (case r of
        None \<Rightarrow> None
      | Some n \<Rightarrow>
          if n ! 0 > 0xFF \<or> n ! 1 > 0xFFF \<or> n ! 2 > 0xFFF then None
          else Some (DT_VERSION_NUMBER (word_of_int (n ! 0)) (word_of_int (n ! 1)) (word_of_int (n ! 2))))
   }"

definition dt_version_defined :: "u32 list \<Rightarrow> u32 \<Rightarrow> bool" where
  "dt_version_defined versions v \<longleftrightarrow> v \<in> set versions"

text \<open>
  The conversion \<^verbatim>\<open>%d\<close> of \<^verbatim>\<open>sscanf\<close>: white space, a sign and digits; the value and the unread rest, or
  nothing when there is no digit.  A value that an \<^verbatim>\<open>int\<close> cannot hold is undefined.
\<close>

definition scan_int :: "u8 list \<Rightarrow> (int \<times> u8 list) option option" where
  "scan_int s =
     (let t = dropWhile is_space s;
          neg = (t \<noteq> [] \<and> hd t = 45);
          t = (if t \<noteq> [] \<and> (hd t = 45 \<or> hd t = 43) then tl t else t);
          (v, rest) = strto_digits 10 0 t
      in if t = [] \<or> \<not> is_digit (hd t) then Some None
         else if int v > INT_MAX + (if neg then 1 else 0) then None
         else Some (Some (if neg then - int v else int v, rest)))"

definition scan_dot_int :: "u8 list \<Rightarrow> (int \<times> u8 list) option option" where
  "scan_dot_int s = (case s of c # cs \<Rightarrow> if c = 46 then scan_int cs else Some None | [] \<Rightarrow> Some None)"

definition dt_str2kver :: "u8 list \<Rightarrow> u32 option option" where
  "dt_str2kver kverstr = do {
     k1 \<leftarrow> scan_int (c_str kverstr);
     (case k1 of
        None \<Rightarrow> Some None
      | Some (kv1, s) \<Rightarrow> do {
          k2 \<leftarrow> scan_dot_int s;
          (case k2 of
             None \<Rightarrow> Some None
           | Some (kv2, s) \<Rightarrow> do {
               k3 \<leftarrow> scan_dot_int s;
               Some (Some (DT_VERSION_NUMBER (word_of_int kv1) (word_of_int kv2)
                 (case k3 of None \<Rightarrow> 0 | Some (kv3, _) \<Rightarrow> word_of_int kv3)))
             })
        })
   }"

section \<open>Packing and unpacking\<close>

lemma AND_mask:
  fixes w :: u32
  shows "w AND 0xFF = take_bit 8 w" and "w AND 0xFFF = take_bit 12 w"
    and "w AND 0xFF000000 = push_bit 24 (drop_bit 24 w)" and "w AND 0xFFF000 = push_bit 12 (take_bit 12 (drop_bit 12 w))"
proof -
  show "w AND 0xFF = take_bit 8 w" "w AND 0xFFF = take_bit 12 w"
    by (simp_all add: take_bit_eq_mask mask_eq_exp_minus_1)
  have eq: "(0xFF000000 :: u32) = push_bit 24 (Bit_Operations.mask 8)" "(0xFFF000 :: u32) = push_bit 12 (Bit_Operations.mask 12)"
    by (simp_all add: mask_eq_exp_minus_1 push_bit_eq_mult)
  show "w AND 0xFF000000 = push_bit 24 (drop_bit 24 w)"
    unfolding eq(1) by (rule bit_word_eqI) (auto simp: bit_simps)
  show "w AND 0xFFF000 = push_bit 12 (take_bit 12 (drop_bit 12 w))"
    unfolding eq(2) by (rule bit_word_eqI) (auto simp: bit_simps)
qed

lemmas version_defs = DT_VERSION_NUMBER_def DT_VERSION_MAJOR_def DT_VERSION_MINOR_def DT_VERSION_MICRO_def

lemma version_unpack_pack:
  "DT_VERSION_NUMBER (DT_VERSION_MAJOR v) (DT_VERSION_MINOR v) (DT_VERSION_MICRO v) = v"
proof (rule bit_word_eqI)
  fix n :: nat
  assume "n < LENGTH(32)"
  then show "bit (DT_VERSION_NUMBER (DT_VERSION_MAJOR v) (DT_VERSION_MINOR v) (DT_VERSION_MICRO v)) n = bit v n"
    by (cases "24 \<le> n"; cases "12 \<le> n") (auto simp: version_defs AND_mask bit_simps)
qed

lemma version_bounds:
  "unat (DT_VERSION_MAJOR v) \<le> 0xFF" "unat (DT_VERSION_MINOR v) \<le> 0xFFF" "unat (DT_VERSION_MICRO v) \<le> 0xFFF"
proof -
  have "unat (take_bit k w) < 2 ^ k" for k and w :: u32
    by (simp add: unsigned_take_bit_eq)
  note less = this [of 12 "drop_bit 12 v"] this [of 12 v]
  have "n < 8" if "bit v (24 + n)" for n using bit_imp_le_length [OF that] by simp
  then have "DT_VERSION_MAJOR v = drop_bit 24 v" "DT_VERSION_MINOR v = take_bit 12 (drop_bit 12 v)"
    by (auto intro!: bit_word_eqI simp: version_defs AND_mask bit_simps)
  moreover have "unat v < 2 ^ LENGTH(32)" by (rule unsigned_less)
  then have "unat (drop_bit 24 v) < 256"
    by (simp add: unat_div_distrib drop_bit_eq_div less_mult_imp_div_less)
  ultimately show "unat (DT_VERSION_MAJOR v) \<le> 0xFF" "unat (DT_VERSION_MINOR v) \<le> 0xFFF" "unat (DT_VERSION_MICRO v) \<le> 0xFFF"
    using less by (simp_all add: DT_VERSION_MICRO_def AND_mask)
qed

section \<open>Decimal round trip\<close>

lemma dec_digit:
  assumes "d < 10"
  shows "is_digit (48 + word_of_nat d)" and "uint (48 + word_of_nat d :: u8) = 48 + int d"
proof -
  have "unat (word_of_nat (48 + d) :: u8) = 48 + d" using assms by (simp only: unat_of_nat) simp
  then have u: "unat (48 + word_of_nat d :: u8) = 48 + d" by simp
  then show "is_digit (48 + word_of_nat d)" using assms by (simp add: is_digit_def word_le_nat_alt)
  show "uint (48 + word_of_nat d :: u8) = 48 + int d" using u by (simp only: uint_nat)
qed

lemma str2num_digit:
  assumes "d < 10" and "n ! i = int v" and "v * 10 + d + 48 \<le> 2 ^ 31 - 1"
  shows "str2num_loop n i ((48 + word_of_nat d) # cs) = str2num_loop (n[i := int (v * 10 + d)]) i cs"
proof -
  have "(48 + word_of_nat d :: u8) \<noteq> 0" using dec_digit(2) [OF assms(1)] by (auto simp: uint_0_iff)
  moreover have "n ! i * 10 + uint (48 + word_of_nat d :: u8) = int (v * 10 + d) + 48"
    using assms(2) dec_digit(2) [OF assms(1)] by simp
  ultimately show ?thesis using dec_digit(1) [OF assms(1)] assms(3) by (simp add: INT_MAX_def)
qed

lemma str2num_dec:
  assumes "i < length n" and "n ! i = 0" and "v \<le> 100000"
  shows "str2num_loop n i (c_dec v @ cs) = str2num_loop (n[i := int v]) i cs"
  using assms
proof (induction v arbitrary: cs rule: c_dec.induct)
  case (1 v)
  show ?case
  proof (cases "v < 10")
    case True
    then show ?thesis using str2num_digit [of v n i 0 cs] 1(3) by (simp add: c_dec.simps)
  next
    case False
    have "str2num_loop n i (c_dec (v div 10) @ [48 + word_of_nat (v mod 10)] @ cs) =
        str2num_loop (n[i := int (v div 10)]) i ([48 + word_of_nat (v mod 10)] @ cs)"
      using False 1 by (intro "1.IH") auto
    also have "\<dots> = str2num_loop (n[i := int v]) i cs"
      using str2num_digit [of "v mod 10" "n[i := int (v div 10)]" i "v div 10" cs] 1(2,4) by simp
    finally show ?thesis using False by (subst c_dec.simps) simp
  qed
qed

lemma str2num_dot: "i < 2 \<Longrightarrow> str2num_loop n i (46 # cs) = str2num_loop n (Suc i) cs"
  by (simp add: is_digit_def)

section \<open>Properties\<close>

lemma c_dec_length: "n < 10 ^ k \<Longrightarrow> 0 < k \<Longrightarrow> length (c_dec n) \<le> k"
proof (induction k arbitrary: n)
  case 0
  then show ?case by simp
next
  case (Suc k)
  show ?case
  proof (cases "n < 10")
    case True
    then show ?thesis by (simp add: c_dec.simps)
  next
    case False
    with Suc.prems have "n div 10 < 10 ^ k" "0 < k" by (auto simp: less_mult_imp_div_less intro!: Suc_leI gr0I)
    with Suc.IH [of "n div 10"] False show ?thesis by (subst c_dec.simps) simp
  qed
qed

text \<open>
  C26.  Printing a version number and parsing the result gives the number back, for all \<open>2^32\<close> numbers and
  every buffer of at least \<^verbatim>\<open>DT_VERSION_STRMAX\<close> bytes: nothing is truncated and nothing overflows.
\<close>

theorem version_round_trip:
  assumes "16 \<le> len"
  shows "dt_version_str2num (dt_version_num2str v len) = Some (Some v)"
proof -
  let ?M = "unat (DT_VERSION_MAJOR v)" and ?m = "unat (DT_VERSION_MINOR v)" and ?u = "unat (DT_VERSION_MICRO v)"
  note b = version_bounds [of v]
  have len: "length (c_dec ?M) \<le> 3" "length (c_dec ?m) \<le> 4" "length (c_dec ?u) \<le> 4"
    using b by (auto intro!: c_dec_length)
  have trunc: "c_snprintf len s = s" if "length s \<le> 13" for s
    using that assms by (auto simp: c_snprintf_def)
  let ?s = "if DT_VERSION_MICRO v = 0 then [] else 46 # c_dec ?u"
  have print: "dt_version_num2str v len = c_dec ?M @ 46 # c_dec ?m @ ?s"
    using len by (simp add: dt_version_num2str_def Let_def trunc)
  have "str2num_loop [0, 0, 0] 0 (c_dec ?M @ 46 # c_dec ?m @ ?s) = str2num_loop [int ?M, int ?m, 0] 1 ?s"
    using b by (simp add: str2num_dec str2num_dot del: str2num_loop.simps)
  also have "\<dots> = Some (Some [int ?M, int ?m, int ?u])"
    using b str2num_dec [of 2 "[int ?M, int ?m, 0]" ?u "[]"]
    by (auto simp: str2num_dot numeral_2_eq_2 simp del: str2num_loop.simps(2))
  finally have "str2num_loop [0, 0, 0] 0 (c_dec ?M @ 46 # c_dec ?m @ ?s) = Some (Some [int ?M, int ?m, int ?u])" .
  moreover have "uint (DT_VERSION_MAJOR v) \<le> 0xFF" "uint (DT_VERSION_MINOR v) \<le> 0xFFF" "uint (DT_VERSION_MICRO v) \<le> 0xFFF"
    using b [THEN of_nat_mono [where 'a = int]] by simp_all
  ultimately show ?thesis unfolding print dt_version_str2num_def
    using version_unpack_pack [of v] by (simp add: nth_Cons')
qed

theorem version_round_trip_witness:
  "dt_version_str2num (dt_version_num2str 0x02000003 16) = Some (Some 0x02000003)"
  using version_round_trip [of 16 "0x02000003"] by simp

end
