(* ===== verification/Buf.thy ===== *)
theory Buf
  imports Prelude
begin

text \<open>
  The growing memory buffer of \<^verbatim>\<open>libdtrace/dt_buf.c\<close>.  The buffer is the list of all its bytes, the write
  position an offset into it; NULL is \<open>None\<close>.  An error is kept in the buffer and makes later writes do
  nothing.  The doubling of the size wraps at 64 bits and is a loop that may not end; that it does
  end for sizes that fit is part of what is shown.
\<close>

section \<open>Operations\<close>

record dt_buf =
  dbu_buf :: "u8 list option"
  dbu_ptr :: nat
  dbu_len :: nat
  dbu_err :: int
  dbu_resizes :: nat

definition EDT_NOMEM :: int where "EDT_NOMEM = 1008"

definition dtrace_bufsize :: nat where "dtrace_bufsize = 512"

definition dt_zalloc :: "nat \<Rightarrow> allocs \<Rightarrow> u8 list option \<times> allocs" where
  "dt_zalloc n mm =
     (case c_alloc mm of
        (None, mm) \<Rightarrow> (None, mm)
      | (Some _, mm) \<Rightarrow> (Some (replicate n 0), mm))"

definition dt_buf_create :: "nat \<Rightarrow> allocs \<Rightarrow> dt_buf \<times> allocs" where
  "dt_buf_create len mm =
     (let len = (if len = 0 then dtrace_bufsize else len);
          (buf, mm) = dt_zalloc len mm
      in (\<lparr>dbu_buf = buf, dbu_ptr = 0, dbu_len = len,
           dbu_err = (if buf = None then EDT_NOMEM else 0), dbu_resizes = 0\<rparr>, mm))"

definition dt_buf_reset :: "dt_buf \<Rightarrow> allocs \<Rightarrow> dt_buf \<times> allocs" where
  "dt_buf_reset bp mm =
     (if dbu_buf bp \<noteq> None then (bp\<lparr>dbu_ptr := 0, dbu_err := 0\<rparr>, mm)
      else dt_buf_create (dbu_len bp) mm)"

text \<open>\<^verbatim>\<open>roundup\<close> of the C library's \<^verbatim>\<open>sys/param.h\<close>; the caller's alignment is not zero.\<close>

definition c_roundup :: "nat \<Rightarrow> nat \<Rightarrow> nat option" where
  "c_roundup x y = (if y = 0 then None else Some ((x + (y - 1)) div y * y))"

partial_function (option) buf_grow :: "nat \<Rightarrow> nat \<Rightarrow> nat \<Rightarrow> (nat \<times> nat) option" where
  "buf_grow need new_len r =
     (if need > new_len then buf_grow need (new_len * 2 mod 2 ^ 64) (Suc r) else Some (new_len, r))"

text \<open>\<^verbatim>\<open>memcpy\<close> into the buffer at the write position.\<close>

definition buf_copy :: "u8 list \<Rightarrow> nat \<Rightarrow> u8 list \<Rightarrow> u8 list option" where
  "buf_copy dst off src =
     (if off + length src \<le> length dst
      then Some (take off dst @ src @ drop (off + length src) dst) else None)"

definition dt_buf_write :: "dt_buf \<Rightarrow> u8 list \<Rightarrow> nat \<Rightarrow> allocs \<Rightarrow> (dt_buf \<times> allocs) option" where
  "dt_buf_write bp data align mm = do {
     let off = dbu_ptr bp;
     ru \<leftarrow> c_roundup off align;
     let adj = ru - off;
     if dbu_err bp \<noteq> 0 then Some (bp, mm)
     else do {
       let need = off + adj + length data;
       (bp, mm) \<leftarrow>
         (if need > dbu_len bp then do {
            (new_len, r) \<leftarrow> buf_grow need (dbu_len bp * 2 mod 2 ^ 64) 1;
            (case dt_zalloc new_len mm of
               (None, mm) \<Rightarrow> Some (bp\<lparr>dbu_err := EDT_NOMEM\<rparr>, mm)
             | (Some new_buf, mm) \<Rightarrow> do {
                 old \<leftarrow> dbu_buf bp;
                 new_buf \<leftarrow> buf_copy new_buf 0 (take off old);
                 Some (bp\<lparr>dbu_buf := Some new_buf, dbu_len := new_len,
                          dbu_resizes := dbu_resizes bp + r\<rparr>, mm)
               })
          }
          else Some (bp, mm));
       if dbu_err bp \<noteq> 0 then Some (bp, mm)
       else do {
         buf \<leftarrow> dbu_buf bp;
         buf \<leftarrow> buf_copy buf (off + adj) data;
         Some (bp\<lparr>dbu_buf := Some buf, dbu_ptr := off + adj + length data\<rparr>, mm)
       }
     }
   }"

definition dt_buf_concat :: "dt_buf \<Rightarrow> dt_buf \<Rightarrow> nat \<Rightarrow> allocs \<Rightarrow> (dt_buf \<times> allocs) option" where
  "dt_buf_concat dst src align mm =
     (if dbu_err dst = 0 \<and> dbu_err src \<noteq> 0 then Some (dst\<lparr>dbu_err := dbu_err src\<rparr>, mm)
      else dt_buf_write dst (case dbu_buf src of None \<Rightarrow> [] | Some b \<Rightarrow> take (dbu_ptr src) b) align mm)"

definition dt_buf_offset :: "dt_buf \<Rightarrow> nat \<Rightarrow> nat option" where
  "dt_buf_offset bp align = c_roundup (dbu_ptr bp) align"

definition dt_buf_len :: "dt_buf \<Rightarrow> nat" where
  "dt_buf_len bp = dbu_ptr bp"

definition dt_buf_error :: "dt_buf \<Rightarrow> int" where
  "dt_buf_error bp = dbu_err bp"

definition dt_buf_ptr :: "dt_buf \<Rightarrow> u8 list option" where
  "dt_buf_ptr bp = dbu_buf bp"

definition dt_buf_claim :: "dt_buf \<Rightarrow> u8 list option \<times> dt_buf" where
  "dt_buf_claim bp =
     (if dbu_err bp \<noteq> 0 then None else dbu_buf bp, bp\<lparr>dbu_buf := None, dbu_ptr := 0, dbu_len := 0\<rparr>)"

section \<open>Contents\<close>

text \<open>
  \<open>buf_rep bp cs\<close>: the buffer is in no error and holds the bytes \<open>cs\<close>.
\<close>

definition buf_rep :: "dt_buf \<Rightarrow> u8 list \<Rightarrow> bool" where
  "buf_rep bp cs \<longleftrightarrow> dbu_err bp = 0 \<and> 0 < dbu_len bp \<and> dbu_ptr bp = length cs \<and>
     (\<exists>rest. dbu_buf bp = Some (cs @ rest) \<and> length (cs @ rest) = dbu_len bp)"

lemma buf_rep_create:
  "len < 2 ^ 64 \<Longrightarrow> dt_buf_create len mm = (bp, mm') \<Longrightarrow>
   buf_rep bp [] \<or> dbu_err bp = EDT_NOMEM"
  by (auto simp: dt_buf_create_def dt_zalloc_def buf_rep_def Let_def dtrace_bufsize_def
      split: prod.splits option.splits if_splits)

lemma c_roundup_ge: "c_roundup x y = Some r \<Longrightarrow> x \<le> r \<and> y dvd r \<and> r < x + y"
proof -
  assume "c_roundup x y = Some r"
  then have y: "0 < y" and r: "r = (x + (y - 1)) div y * y" by (auto simp: c_roundup_def split: if_splits)
  have "(x + (y - 1)) div y * y + (x + (y - 1)) mod y = x + (y - 1)" by simp
  moreover have "(x + (y - 1)) mod y < y" using y by simp
  moreover have "(x + (y - 1)) div y * y \<le> x + (y - 1)" by simp
  ultimately show ?thesis unfolding r using y by (intro conjI dvd_triv_right) linarith+
qed

lemma buf_grow_ok:
  assumes "0 < n" and "need \<le> 2 ^ 63" and "n < 2 ^ 64"
  shows "\<exists>m r'. buf_grow need n r = Some (m, r') \<and> need \<le> m \<and> m < 2 ^ 64 \<and> 0 < m"
  using assms
proof (induction "need - n" arbitrary: n r rule: less_induct)
  case less
  show ?case
  proof (cases "need > n")
    case True
    with less.prems have "n * 2 mod 2 ^ 64 = n * 2" by simp
    moreover have "\<exists>m r'. buf_grow need (n * 2) (Suc r) = Some (m, r') \<and> need \<le> m \<and> m < 2 ^ 64 \<and> 0 < m"
      using True less.prems by (intro less.hyps) auto
    ultimately show ?thesis using True by (subst buf_grow.simps) simp
  next
    case False
    with less.prems show ?thesis by (subst buf_grow.simps) simp
  qed
qed

text \<open>The padding before an aligned write is what the buffer had there; after a resize, zeros.\<close>

lemma buf_write_rep:
  assumes rep: "buf_rep bp cs" and align: "0 < align"
    and small: "length cs + align + length data \<le> 2 ^ 63" "dbu_len bp < 2 ^ 63"
  shows "\<exists>bp' mm'. dt_buf_write bp data align mm = Some (bp', mm') \<and>
    ((\<exists>pad. buf_rep bp' (cs @ pad @ data) \<and> align dvd length (cs @ pad) \<and> length pad < align) \<or>
     dbu_err bp' = EDT_NOMEM \<and> dbu_buf bp' = dbu_buf bp \<and> dbu_ptr bp' = dbu_ptr bp)"
proof -
  from rep obtain rest where b: "dbu_err bp = 0" "0 < dbu_len bp" "dbu_ptr bp = length cs"
    "dbu_buf bp = Some (cs @ rest)" "length (cs @ rest) = dbu_len bp" by (auto simp: buf_rep_def)
  obtain ru where ru: "c_roundup (length cs) align = Some ru" using align by (simp add: c_roundup_def)
  note r = c_roundup_ge [OF ru]
  define adj where "adj = ru - length cs"
  let ?need = "length cs + adj + length data"
  have adj: "length cs + adj = ru" "adj < align" using r by (simp_all add: adj_def) linarith
  have need: "?need \<le> 2 ^ 63" using adj small(1) by linarith
  show ?thesis
  proof (cases "?need > dbu_len bp")
    case False
    define pad where "pad = take adj rest"
    have lr: "adj + length data \<le> length rest" using False b(5) by simp
    then have pad: "length pad = adj" by (simp add: pad_def)
    have rest: "rest = pad @ drop adj rest" by (simp add: pad_def)
    have "buf_copy (cs @ rest) (length cs + adj) data = Some (cs @ pad @ data @ drop (adj + length data) rest)"
      using lr by (subst rest) (simp add: buf_copy_def pad add.commute)
    then have "dt_buf_write bp data align mm = Some (bp\<lparr>dbu_buf := Some (cs @ pad @ data @ drop (adj + length data) rest),
        dbu_ptr := ?need\<rparr>, mm)"
      using False b ru by (simp add: dt_buf_write_def adj_def [symmetric])
    moreover have "buf_rep (bp\<lparr>dbu_buf := Some (cs @ pad @ data @ drop (adj + length data) rest), dbu_ptr := ?need\<rparr>) (cs @ pad @ data)"
      using b pad lr by (simp add: buf_rep_def)
    ultimately show ?thesis using r adj pad by auto
  next
    case True
    have "dbu_len bp * 2 mod 2 ^ 64 = dbu_len bp * 2" using small(2) by simp
    with buf_grow_ok [of "dbu_len bp * 2" ?need 1] b(2) need small(2) obtain m k where
      grow: "buf_grow ?need (dbu_len bp * 2 mod 2 ^ 64) 1 = Some (m, k)" "?need \<le> m" "0 < m" by auto
    obtain p mm' where al: "c_alloc mm = (p, mm')" by (cases "c_alloc mm")
    show ?thesis
    proof (cases p)
      case None
      then show ?thesis using True b ru grow al
        by (simp add: dt_buf_write_def adj_def [symmetric] dt_zalloc_def EDT_NOMEM_def)
    next
      case (Some a)
      define pad where "pad = replicate adj (0 :: u8)"
      have c1: "buf_copy (replicate m 0) 0 (take (length cs) (cs @ rest)) = Some (cs @ replicate (m - length cs) 0)"
        using grow(2) by (simp add: buf_copy_def)
      have c2: "buf_copy (cs @ replicate (m - length cs) 0) (length cs + adj) data =
          Some (cs @ pad @ data @ replicate (m - ?need) 0)"
        using grow(2) by (auto simp: buf_copy_def pad_def min_def add.assoc)
      let ?bp = "bp\<lparr>dbu_buf := Some (cs @ pad @ data @ replicate (m - ?need) 0), dbu_len := m,
          dbu_resizes := dbu_resizes bp + k, dbu_ptr := ?need\<rparr>"
      have "dt_buf_write bp data align mm = Some (?bp, mm')"
        using True b ru grow al Some c1 c2 by (simp add: dt_buf_write_def adj_def [symmetric] dt_zalloc_def Let_def)
      moreover have "buf_rep ?bp (cs @ pad @ data)"
        using b(1) grow(2,3) by (simp add: buf_rep_def pad_def)
      ultimately show ?thesis using r adj by (auto simp: pad_def)
    qed
  qed
qed

section \<open>Properties\<close>

text \<open>
  C29.  A write to a buffer without error either fails for lack of memory, leaving the contents as they
  were and recording the error; or appends the data, after padding to the requested alignment, and
  keeps everything written before, also when the buffer had to grow.  It stays inside the buffer,
  and the loop that doubles the size ends for all sizes up to \<open>2^63\<close>.
\<close>

theorem buf_write_appends:
  assumes "buf_rep bp cs" and "0 < align" and "length cs + align + length data \<le> 2 ^ 63" and "dbu_len bp < 2 ^ 63"
  shows "\<exists>bp' mm'. dt_buf_write bp data align mm = Some (bp', mm') \<and>
    ((\<exists>pad. buf_rep bp' (cs @ pad @ data) \<and> align dvd length (cs @ pad) \<and> length pad < align) \<or>
     dbu_err bp' = EDT_NOMEM \<and> dbu_buf bp' = dbu_buf bp \<and> dbu_ptr bp' = dbu_ptr bp)"
  using assms by (rule buf_write_rep)

theorem buf_write_appends_witness:
  "\<exists>bp' mm'. dt_buf_write \<lparr>dbu_buf = Some [7, 0, 0], dbu_ptr = 1, dbu_len = 3, dbu_err = 0, dbu_resizes = 0\<rparr> [1, 2, 3] 4 [Some 9] = Some (bp', mm') \<and>
     (\<exists>pad. buf_rep bp' ([7] @ pad @ [1, 2, 3]) \<or> dbu_err bp' = EDT_NOMEM)"
proof -
  have "buf_rep \<lparr>dbu_buf = Some [7, 0, 0], dbu_ptr = 1, dbu_len = 3, dbu_err = 0, dbu_resizes = 0\<rparr> [7]"
    by (simp add: buf_rep_def)
  from buf_write_appends [OF this, of 4 "[1, 2, 3]" "[Some 9]"] show ?thesis by auto
qed

text \<open>
  C30.  Errors are persistent: a buffer in error is not changed by any further write, passes its error
  on to a buffer it is appended to, and is never handed out by \<^verbatim>\<open>dt_buf_claim\<close>.
\<close>

theorem buf_error_sticky:
  assumes "dbu_err bp \<noteq> 0" and "0 < align"
  shows "dt_buf_write bp data align mm = Some (bp, mm) \<and>
    (dbu_err dst = 0 \<longrightarrow> (\<exists>dst'. dt_buf_concat dst bp align mm = Some (dst', mm) \<and> dbu_err dst' = dbu_err bp \<and>
      dbu_buf dst' = dbu_buf dst)) \<and>
    fst (dt_buf_claim bp) = None"
  using assms by (simp add: dt_buf_write_def dt_buf_concat_def dt_buf_claim_def c_roundup_def)

theorem buf_error_sticky_witness:
  "dt_buf_write \<lparr>dbu_buf = None, dbu_ptr = 0, dbu_len = 512, dbu_err = 1008, dbu_resizes = 0\<rparr> [1] 8 [] =
     Some (\<lparr>dbu_buf = None, dbu_ptr = 0, dbu_len = 512, dbu_err = 1008, dbu_resizes = 0\<rparr>, [])"
  using buf_error_sticky [of "\<lparr>dbu_buf = None, dbu_ptr = 0, dbu_len = 512, dbu_err = 1008, dbu_resizes = 0\<rparr>" 8 "[1]" "[]"
      "\<lparr>dbu_buf = None, dbu_ptr = 0, dbu_len = 512, dbu_err = 0, dbu_resizes = 0\<rparr>"]
  by simp

text \<open>
  C31.  Writing to a buffer that has been claimed never returns: its size is zero, and doubling zero
  does not make it larger.
\<close>

theorem buf_write_after_claim:
  assumes "dbu_err bp = 0" and "data \<noteq> []" and "0 < align"
  shows "dt_buf_write (snd (dt_buf_claim bp)) data align mm = None"
proof -
  have "buf_grow need n r = Some y \<Longrightarrow> n = 0 \<longrightarrow> need = 0" for need n r y
    by (rule buf_grow.raw_induct [where P = "\<lambda>need n r y. n = 0 \<longrightarrow> need = 0"]) (auto split: if_splits)
  then have "buf_grow need 0 r = None" if "0 < need" for need r
    using that by (cases "buf_grow need 0 r") fastforce+
  then show ?thesis
    using assms by (simp add: dt_buf_claim_def dt_buf_write_def c_roundup_def)
qed

theorem buf_write_after_claim_witness:
  "dt_buf_write (snd (dt_buf_claim \<lparr>dbu_buf = Some [0], dbu_ptr = 1, dbu_len = 1, dbu_err = 0, dbu_resizes = 0\<rparr>)) [5] 1 [Some 3] = None"
  using buf_write_after_claim [of "\<lparr>dbu_buf = Some [0], dbu_ptr = 1, dbu_len = 1, dbu_err = 0, dbu_resizes = 0\<rparr>" "[5]" 1 "[Some 3]"]
  by simp

end
