(* ===== verification/Chunks.thy ===== *)
theory Chunks
  imports Htab
begin

text \<open>
  The storage that \<^verbatim>\<open>libdtrace/dt_strtab.c\<close> and \<^verbatim>\<open>libdtrace/dt_rodata.c\<close> share in all but name: data is kept in a
  list of buffers of one size, an item may extend over several, and only the last buffer is partly
  filled.  A byte of a buffer that has not been written is \<open>None\<close>, and so is what a read of it gives.

  \<open>chunk_rep bufsz bufs ptr cs\<close> says that the buffers, filled up to \<open>ptr\<close> in the last one, hold the bytes
  \<open>cs\<close>; the lemmas turn the loops over buffers into operations on \<open>cs\<close>.
\<close>

section \<open>Loops over buffers\<close>

type_synonym chunk = "u8 option list"

text \<open>The number of hash buckets of either table.\<close>

definition dtrace_strbuckets :: nat where "dtrace_strbuckets = 211"

text \<open>
  Adding a buffer: one allocation for the buffer, one for the array of pointers.  \<open>bufs\<close> is the array,
  its length the number of buffers.
\<close>

definition chunk_grow :: "nat \<Rightarrow> chunk list \<Rightarrow> allocs \<Rightarrow> chunk list option \<times> allocs" where
  "chunk_grow bufsz bufs mm =
     (case c_alloc mm of
        (None, mm) \<Rightarrow> (None, mm)
      | (Some _, mm) \<Rightarrow>
          (case c_alloc mm of
             (None, mm) \<Rightarrow> (None, mm)
           | (Some _, mm) \<Rightarrow> (Some (bufs @ [replicate bufsz None]), mm)))"

text \<open>\<^verbatim>\<open>memcpy\<close> to offset \<open>i\<close> of buffer \<open>b\<close>.\<close>

definition chunk_put :: "chunk list \<Rightarrow> nat \<Rightarrow> nat \<Rightarrow> u8 list \<Rightarrow> chunk list" where
  "chunk_put bufs b i xs =
     bufs[b := take i (bufs ! b) @ map Some xs @ drop (i + length xs) (bufs ! b)]"

text \<open>
  The loop that copies data in.  When no buffer can be added the loop ends with \<open>False\<close>, and the
  buffers and position it has reached.
\<close>

partial_function (option) chunk_copy ::
  "nat \<Rightarrow> chunk list \<Rightarrow> nat \<Rightarrow> u8 list \<Rightarrow> allocs \<Rightarrow> (bool \<times> chunk list \<times> nat \<times> allocs) option" where
  "chunk_copy bufsz bufs ptr str mm =
     (if str = [] then Some (True, bufs, ptr, mm)
      else
        (case (if ptr = bufsz then
                 (case chunk_grow bufsz bufs mm of
                    (None, mm) \<Rightarrow> (None, ptr, mm)
                  | (Some bufs, mm) \<Rightarrow> (Some bufs, 0, mm))
               else (Some bufs, ptr, mm)) of
           (None, ptr, mm) \<Rightarrow> Some (False, bufs, ptr, mm)
         | (Some bufs, ptr, mm) \<Rightarrow>
             (let n = min (bufsz - ptr) (length str)
              in chunk_copy bufsz (chunk_put bufs (length bufs - 1) ptr (take n str)) (ptr + n) (drop n str) mm)))"

definition chunk_copyin ::
  "nat \<Rightarrow> chunk list \<Rightarrow> nat \<Rightarrow> u8 list \<Rightarrow> allocs \<Rightarrow> (int \<times> chunk list \<times> nat \<times> allocs) option" where
  "chunk_copyin bufsz bufs ptr str mm =
     (case chunk_copy bufsz bufs ptr str mm of
        None \<Rightarrow> None
      | Some (True, bufs', ptr', mm) \<Rightarrow> Some (0, bufs', ptr', mm)
      | Some (False, bufs', _, mm) \<Rightarrow> Some (- 1, take (length bufs) bufs', ptr, mm))"

text \<open>
  The loop that compares data with the bytes from offset \<open>i\<close> of buffer \<open>b\<close> on, with \<^verbatim>\<open>strncmp\<close> or \<^verbatim>\<open>memcmp\<close>
  as \<open>cmp\<close>.  A buffer past the end of the array is out of bounds.
\<close>

partial_function (option) chunk_compare ::
  "(chunk \<Rightarrow> u8 list \<Rightarrow> int option) \<Rightarrow> nat \<Rightarrow> chunk list \<Rightarrow> nat \<Rightarrow> nat \<Rightarrow> u8 list \<Rightarrow> int option" where
  "chunk_compare cmp bufsz bufs b i str =
     (if str = [] then Some 0
      else
        (case (if i = bufsz then (Suc b, 0) else (b, i)) of
           (b, i) \<Rightarrow>
             if b < length bufs then
               (let n = min (bufsz - i) (length str)
                in case cmp (take n (drop i (bufs ! b))) (take n str) of
                     None \<Rightarrow> None
                   | Some rv \<Rightarrow>
                       if rv \<noteq> 0 then Some rv else chunk_compare cmp bufsz bufs b (i + n) (drop n str))
             else None))"

fun c_strncmp :: "chunk \<Rightarrow> u8 list \<Rightarrow> int option" where
  "c_strncmp x [] = Some 0"
| "c_strncmp [] (b # bs) = None"
| "c_strncmp (None # x) (b # bs) = None"
| "c_strncmp (Some a # x) (b # bs) =
     (if a \<noteq> b then Some (uint a - uint b) else if a = 0 then Some 0 else c_strncmp x bs)"

fun c_memcmp :: "chunk \<Rightarrow> u8 list \<Rightarrow> int option" where
  "c_memcmp x [] = Some 0"
| "c_memcmp [] (b # bs) = None"
| "c_memcmp (None # x) (b # bs) = None"
| "c_memcmp (Some a # x) (b # bs) = (if a \<noteq> b then Some (uint a - uint b) else c_memcmp x bs)"

text \<open>
  The loop that hands the buffers to a callback, whose arguments are the data, its length, the number
  of bytes before it and its own state; it stops when the callback returns zero or less.
\<close>

fun chunk_write :: "(chunk \<Rightarrow> nat \<Rightarrow> int \<Rightarrow> 'p \<Rightarrow> (int \<times> 'p) option) \<Rightarrow> nat \<Rightarrow> nat \<Rightarrow> chunk list \<Rightarrow> int \<Rightarrow> 'p \<Rightarrow>
    (int \<times> 'p) option" where
  "chunk_write func bufsz ptr [] tot p = Some (tot, p)"
| "chunk_write func bufsz ptr (buf # bufs) tot p = do {
     let n = (if bufs = [] then ptr else bufsz);
     (res, p) \<leftarrow> func buf n tot p;
     if res \<le> 0 then Some (tot, p) else chunk_write func bufsz ptr bufs (tot + res) p
   }"

declare chunk_copy.simps [code]
declare chunk_compare.simps [code]

section \<open>Contents of the buffers\<close>

definition chunk_rep :: "nat \<Rightarrow> chunk list \<Rightarrow> nat \<Rightarrow> u8 list \<Rightarrow> bool" where
  "chunk_rep bufsz bufs ptr cs \<longleftrightarrow> 0 < bufsz \<and> bufs \<noteq> [] \<and> (\<forall>buf \<in> set bufs. length buf = bufsz) \<and>
     ptr \<le> bufsz \<and> length cs = (length bufs - 1) * bufsz + ptr \<and>
     (\<exists>rest. concat bufs = map Some cs @ rest)"

lemma length_concat_const: "\<forall>b \<in> set bufs. length b = n \<Longrightarrow> length (concat bufs) = length bufs * n"
  by (induction bufs) auto

lemma take_concat_const:
  "\<forall>b \<in> set bufs. length b = n \<Longrightarrow> concat (take k bufs) = take (k * n) (concat bufs)"
proof (induction bufs arbitrary: k)
  case Nil
  then show ?case by simp
next
  case (Cons b bufs)
  then show ?case by (cases k) auto
qed

lemma drop_concat_const:
  "\<forall>b \<in> set bufs. length b = n \<Longrightarrow> concat (drop k bufs) = drop (k * n) (concat bufs)"
proof (induction bufs arbitrary: k)
  case Nil
  then show ?case by simp
next
  case (Cons b bufs)
  then show ?case by (cases k) auto
qed

lemma chunk_rep_prefix:
  assumes rep: "chunk_rep bufsz bufs ptr' (cs @ xs)" and k: "0 < k" "k \<le> length bufs"
    and ptr: "ptr \<le> bufsz" "length cs = (k - 1) * bufsz + ptr"
  shows "chunk_rep bufsz (take k bufs) ptr cs"
proof -
  from rep obtain rest where c: "concat bufs = map Some (cs @ xs) @ rest"
    and len: "\<forall>b \<in> set bufs. length b = bufsz" by (auto simp: chunk_rep_def)
  obtain j where j: "k = Suc j" using k(1) by (cases k) auto
  have "length cs \<le> k * bufsz" using ptr by (simp add: j)
  then have "concat (take k bufs) = map Some cs @ take (k * bufsz - length cs) (map Some xs @ rest)"
    unfolding take_concat_const [OF len] c by simp
  moreover have "\<forall>b \<in> set (take k bufs). length b = bufsz" using len set_take_subset by fastforce
  ultimately show ?thesis using rep k ptr by (auto simp: chunk_rep_def min_def)
qed

lemma chunk_rep_grow:
  assumes "chunk_rep bufsz bufs bufsz cs"
  shows "chunk_rep bufsz (bufs @ [replicate bufsz None]) 0 cs"
proof -
  from assms obtain rest where c: "concat bufs = map Some cs @ rest" and len: "\<forall>b \<in> set bufs. length b = bufsz"
    and l: "length cs = (length bufs - 1) * bufsz + bufsz" "bufs \<noteq> []" by (auto simp: chunk_rep_def)
  then have "length cs = length bufs * bufsz" by (cases bufs) auto
  with assms c len show ?thesis by (auto simp: chunk_rep_def)
qed

lemma chunk_rep_put:
  assumes rep: "chunk_rep bufsz bufs ptr cs" and n: "length xs \<le> bufsz - ptr"
  shows "chunk_rep bufsz (chunk_put bufs (length bufs - 1) ptr xs) (ptr + length xs) (cs @ xs)"
proof -
  from rep have "bufs \<noteq> []" by (simp add: chunk_rep_def)
  then obtain bs buf where bufs: "bufs = bs @ [buf]" by (metis rev_exhaust)
  from rep obtain rest where c: "concat bs @ buf = map Some cs @ rest"
    and len: "\<forall>b \<in> set (bs @ [buf]). length b = bufsz" and ptr: "ptr \<le> bufsz"
    and l: "length cs = length bs * bufsz + ptr" by (auto simp: chunk_rep_def bufs)
  have cb: "length (concat bs) = length bs * bufsz" using len by (intro length_concat_const) simp
  have "take (length bs * bufsz + ptr) (concat bs @ buf) = map Some cs" unfolding c by (simp add: l [symmetric])
  then have pre: "concat bs @ take ptr buf = map Some cs" by (simp add: cb)
  let ?buf = "take ptr buf @ map Some xs @ drop (ptr + length xs) buf"
  have "chunk_put bufs (length bufs - 1) ptr xs = bs @ [?buf]" by (simp add: chunk_put_def bufs)
  moreover have "concat (bs @ [?buf]) = map Some (cs @ xs) @ drop (ptr + length xs) buf"
    using pre by (simp flip: append_assoc)
  then have "\<exists>rest. concat (bs @ [?buf]) = map Some (cs @ xs) @ rest" ..
  moreover have "length ?buf = bufsz" using len n ptr by simp
  ultimately show ?thesis using rep n ptr l len by (auto simp: chunk_rep_def bufs)
qed

lemma length_chunk_put [simp]: "length (chunk_put bufs b i xs) = length bufs"
  by (simp add: chunk_put_def)

lemma chunk_copy_rep:
  assumes "chunk_rep bufsz bufs ptr cs"
  shows "\<exists>ok bufs' ptr' mm'. chunk_copy bufsz bufs ptr str mm = Some (ok, bufs', ptr', mm') \<and>
    length bufs \<le> length bufs' \<and>
    (if ok then chunk_rep bufsz bufs' ptr' (cs @ str) \<and> (0 < ptr \<or> str \<noteq> [] \<longrightarrow> 0 < ptr')
     else chunk_rep bufsz (take (length bufs) bufs') ptr cs \<and> (None \<in> set mm \<or> length mm < 2 * length str))"
  using assms
proof (induction "length str" arbitrary: bufs ptr cs str mm rule: less_induct)
  case less
  show ?case
  proof (cases "str = []")
    case True
    with less.prems show ?thesis by (subst chunk_copy.simps) (simp, blast)
  next
    case False
    from less.prems have b: "0 < bufsz" "ptr \<le> bufsz" "bufs \<noteq> []" "length cs = (length bufs - 1) * bufsz + ptr"
      by (auto simp: chunk_rep_def)
    have step: ?thesis
      if g: "(if ptr = bufsz then (case chunk_grow bufsz bufs mm of (None, mm) \<Rightarrow> (None, ptr, mm) | (Some bufs, mm) \<Rightarrow> (Some bufs, 0, mm))
           else (Some bufs, ptr, mm)) = (Some bufs1, ptr1, mm1)"
        and rep1: "chunk_rep bufsz bufs1 ptr1 cs" and p1: "ptr1 < bufsz" and l1: "length bufs \<le> length bufs1"
        and mm1: "set mm1 \<subseteq> set mm" "length mm \<le> length mm1 + 2" for bufs1 ptr1 mm1
    proof -
      define n where "n = min (bufsz - ptr1) (length str)"
      have n: "0 < n" "n \<le> length str" "n \<le> bufsz - ptr1" using False p1 by (auto simp: n_def)
      have rep2: "chunk_rep bufsz (chunk_put bufs1 (length bufs1 - 1) ptr1 (take n str)) (ptr1 + n) (cs @ take n str)"
        using chunk_rep_put [OF rep1, of "take n str"] n by simp
      have "length (drop n str) < length str" using n by simp
      from less.hyps [OF this rep2, of mm1, unfolded length_chunk_put] obtain ok bufs' ptr' mm' where
        run: "chunk_copy bufsz (chunk_put bufs1 (length bufs1 - 1) ptr1 (take n str)) (ptr1 + n) (drop n str) mm1 =
          Some (ok, bufs', ptr', mm')" and l': "length bufs1 \<le> length bufs'"
        and post: "if ok then chunk_rep bufsz bufs' ptr' ((cs @ take n str) @ drop n str) \<and>
            (0 < ptr1 + n \<or> drop n str \<noteq> [] \<longrightarrow> 0 < ptr')
          else chunk_rep bufsz (take (length bufs1) bufs') (ptr1 + n) (cs @ take n str) \<and>
            (None \<in> set mm1 \<or> length mm1 < 2 * length (drop n str))" by blast
      have "chunk_copy bufsz bufs ptr str mm = Some (ok, bufs', ptr', mm')"
        using False g run by (subst chunk_copy.simps) (simp add: n_def)
      moreover have "chunk_rep bufsz (take (length bufs) bufs') ptr cs" if "\<not> ok"
      proof -
        from that post have "chunk_rep bufsz (take (length bufs1) bufs') (ptr1 + n) (cs @ take n str)" by simp
        from chunk_rep_prefix [OF this, of "length bufs" ptr] b l1 l' show ?thesis by (simp add: min_def)
      qed
      ultimately show ?thesis using post l1 l' mm1 n by (auto split: if_splits)
    qed
    show ?thesis
    proof (cases "ptr = bufsz")
      case False
      with less.prems b show ?thesis by (intro step [of bufs ptr mm]) auto
    next
      case True
      show ?thesis
      proof (cases "chunk_grow bufsz bufs mm")
        case (Pair g mm1)
        then have mm1: "set mm1 \<subseteq> set mm" "length mm \<le> length mm1 + 2"
          by (auto simp: chunk_grow_def split: option.splits prod.splits) (cases mm; cases "tl mm"; auto)+
        show ?thesis
        proof (cases g)
          case None
          have "None \<in> set mm \<or> length mm < 2"
            using Pair None by (cases mm; cases "tl mm") (auto simp: chunk_grow_def split: option.splits)
          moreover have "2 \<le> 2 * length str" using \<open>str \<noteq> []\<close> by (cases str) auto
          ultimately have "None \<in> set mm \<or> length mm < 2 * length str" by linarith
          moreover have run: "chunk_copy bufsz bufs ptr str mm = Some (False, bufs, ptr, mm1)"
            using \<open>str \<noteq> []\<close> True Pair None by (subst chunk_copy.simps) simp
          ultimately show ?thesis using less.prems unfolding run by (intro exI [of _ False]) simp
        next
          case (Some bufs1)
          then have "bufs1 = bufs @ [replicate bufsz None]"
            using Pair by (auto simp: chunk_grow_def split: option.splits prod.splits)
          with chunk_rep_grow less.prems True b Pair Some mm1 show ?thesis
            by (intro step [of bufs1 0 mm1]) auto
        qed
      qed
    qed
  qed
qed

lemma chunk_copyin_rep:
  assumes "chunk_rep bufsz bufs ptr cs"
  shows "\<exists>rc bufs' ptr' mm'. chunk_copyin bufsz bufs ptr str mm = Some (rc, bufs', ptr', mm') \<and>
    (rc = 0 \<and> chunk_rep bufsz bufs' ptr' (cs @ str) \<and> length bufs \<le> length bufs' \<and> (str \<noteq> [] \<longrightarrow> 0 < ptr') \<or>
     rc = - 1 \<and> chunk_rep bufsz bufs' ptr' cs \<and> ptr' = ptr \<and> length bufs' = length bufs \<and>
       (None \<in> set mm \<or> length mm < 2 * length str))"
proof -
  from chunk_copy_rep [OF assms, of str mm] obtain ok bufs' ptr' mm' where
    "chunk_copy bufsz bufs ptr str mm = Some (ok, bufs', ptr', mm')" "length bufs \<le> length bufs'"
    "if ok then chunk_rep bufsz bufs' ptr' (cs @ str) \<and> (0 < ptr \<or> str \<noteq> [] \<longrightarrow> 0 < ptr')
     else chunk_rep bufsz (take (length bufs) bufs') ptr cs \<and> (None \<in> set mm \<or> length mm < 2 * length str)" by blast
  then show ?thesis by (cases ok) (auto simp: chunk_copyin_def)
qed

section \<open>Comparison with the contents\<close>

lemma c_memcmp_append:
  "length x = length u \<Longrightarrow> c_memcmp (x @ y) (u @ v) =
     (case c_memcmp x u of None \<Rightarrow> None | Some r \<Rightarrow> if r \<noteq> 0 then Some r else c_memcmp y v)"
  by (induction x u rule: c_memcmp.induct) auto

lemma c_strncmp_memcmp: "0 \<notin> set (butlast u) \<Longrightarrow> length x = length u \<Longrightarrow> c_strncmp x u = c_memcmp x u"
proof (induction x u rule: c_strncmp.induct)
  case (4 a x b bs)
  then show ?case by (cases bs) auto
qed auto

text \<open>The loop over buffers compares the concatenation, for any comparison that agrees with \<^verbatim>\<open>memcmp\<close>.\<close>

lemma chunk_compare_concat:
  assumes "0 < bufsz" and "\<forall>buf \<in> set bufs. length buf = bufsz" and "b < length bufs" and "i \<le> bufsz"
    and "\<And>u x. (\<exists>pre suf. str = pre @ u @ suf) \<Longrightarrow> length x = length u \<Longrightarrow> cmp x u = c_memcmp x u"
  shows "chunk_compare cmp bufsz bufs b i str = c_memcmp (drop (b * bufsz + i) (concat bufs)) str"
  using assms(3-5)
proof (induction "length str" arbitrary: str b i rule: less_induct)
  case less
  have at: "drop (b * bufsz + i) (concat bufs) = drop i (bufs ! b) @ concat (drop (Suc b) bufs)"
    if "b < length bufs" "i \<le> bufsz" for b i
  proof -
    have "drop (b * bufsz) (concat bufs) = concat (drop b bufs)" using drop_concat_const [OF assms(2)] by simp
    also have "\<dots> = bufs ! b @ concat (drop (Suc b) bufs)" using that by (simp flip: Cons_nth_drop_Suc)
    finally have "drop i (drop (b * bufsz) (concat bufs)) = drop i (bufs ! b) @ concat (drop (Suc b) bufs)"
      using that assms(2) by (simp add: nth_mem)
    then show ?thesis by (simp add: add.commute)
  qed
  have full: "chunk_compare cmp bufsz bufs b i str = c_memcmp (drop (b * bufsz + i) (concat bufs)) str"
    if "b < length bufs" "i < bufsz" "str \<noteq> []" for b i
  proof -
    define n where "n = min (bufsz - i) (length str)"
    have n: "0 < n" "n \<le> length str" "i + n \<le> bufsz" using that by (auto simp: n_def)
    have lb: "length (bufs ! b) = bufsz" using that assms(2) by simp
    let ?x = "take n (drop i (bufs ! b))" and ?u = "take n str"
    have len: "length ?x = length ?u" using n lb by simp
    have "\<exists>pre suf. str = pre @ ?u @ suf" by (rule exI [of _ "[]"], rule exI [of _ "drop n str"]) simp
    then have "cmp ?x ?u = c_memcmp ?x ?u" using len by (rule less.prems(3))
    moreover have IH: "chunk_compare cmp bufsz bufs b (i + n) (drop n str) = c_memcmp (drop (b * bufsz + (i + n)) (concat bufs)) (drop n str)"
    proof (rule less.hyps)
      show "length (drop n str) < length str" using n by simp
      show "cmp x u = c_memcmp x u" if "\<exists>pre suf. drop n str = pre @ u @ suf" "length x = length u" for x u
        using that(2) less.prems(3) [of u x] that(1) by (metis append_assoc append_take_drop_id)
    qed (use that n in auto)
    moreover have "c_memcmp (drop (b * bufsz + i) (concat bufs)) str =
        (case c_memcmp ?x ?u of None \<Rightarrow> None | Some r \<Rightarrow> if r \<noteq> 0 then Some r
         else c_memcmp (drop (b * bufsz + (i + n)) (concat bufs)) (drop n str))"
    proof -
      have "drop i (bufs ! b) = ?x @ drop (i + n) (bufs ! b)"
        by (metis append_take_drop_id drop_drop add.commute)
      with at [OF that(1), of i] at [OF that(1) n(3)] that(2)
      have "drop (b * bufsz + i) (concat bufs) = ?x @ drop (b * bufsz + (i + n)) (concat bufs)" by simp
      with c_memcmp_append [OF len, of "drop (b * bufsz + (i + n)) (concat bufs)" "drop n str"] show ?thesis by simp
    qed
    ultimately show ?thesis using that
      by (subst chunk_compare.simps) (simp add: n_def [symmetric] Let_def split: option.split)
  qed
  show ?case
  proof (cases "str = []")
    case True
    then show ?thesis by (subst chunk_compare.simps) simp
  next
    case False
    show ?thesis
    proof (cases "i = bufsz")
      case False
      with \<open>str \<noteq> []\<close> less.prems show ?thesis by (intro full) auto
    next
      case True
      show ?thesis
      proof (cases "Suc b < length bufs")
        case ok: True
        have "chunk_compare cmp bufsz bufs b i str = chunk_compare cmp bufsz bufs (Suc b) 0 str"
          using True assms(1) by (subst (1 2) chunk_compare.simps) simp
        also have "\<dots> = c_memcmp (drop (Suc b * bufsz + 0) (concat bufs)) str"
          using ok assms(1) \<open>str \<noteq> []\<close> by (intro full) auto
        finally show ?thesis using True by (simp add: add.commute)
      next
        case bad: False
        then have "length (concat bufs) = b * bufsz + i"
          using True less.prems(1) length_concat_const [OF assms(2)] by (metis Suc_lessI add.commute mult_Suc)
        then have "c_memcmp (drop (b * bufsz + i) (concat bufs)) str = None" using \<open>str \<noteq> []\<close> by (cases str) auto
        with bad True \<open>str \<noteq> []\<close> show ?thesis by (subst chunk_compare.simps) simp
      qed
    qed
  qed
qed

section \<open>Writing the contents out\<close>

text \<open>The callback both users pass: \<^verbatim>\<open>memcpy(buf + off, s, n)\<close>.\<close>

definition chunk_copyout :: "chunk \<Rightarrow> nat \<Rightarrow> int \<Rightarrow> u8 list \<Rightarrow> (int \<times> u8 list) option" where
  "chunk_copyout s n off dst = do {
     c_assert (n \<le> length s \<and> 0 \<le> off \<and> nat off + n \<le> length dst);
     xs \<leftarrow> those (take n s);
     Some (int n, take (nat off) dst @ xs @ drop (nat off + n) dst)
   }"

lemma those_map_Some [simp]: "those (map Some xs) = Some xs"
  by (induction xs) simp_all

lemma chunk_write_suffix:
  assumes "bufs \<noteq> []" and "\<forall>b \<in> set bufs. length b = bufsz" and "0 < bufsz" and "0 < ptr" and "ptr \<le> bufsz"
    and "concat bufs = map Some xs @ rest" and "length xs = (length bufs - 1) * bufsz + ptr"
    and "k + length xs \<le> length dst"
  shows "chunk_write chunk_copyout bufsz ptr bufs (int k) dst =
    Some (int (k + length xs), take k dst @ xs @ drop (k + length xs) dst)"
  using assms
proof (induction bufs arbitrary: xs k dst)
  case Nil
  then show ?case by simp
next
  case (Cons b bufs)
  show ?case
  proof (cases "bufs = []")
    case True
    with Cons.prems have "length b = bufsz" "b = map Some xs @ rest" "length xs = ptr" by auto
    then have "chunk_copyout b ptr (int k) dst = Some (int ptr, take k dst @ xs @ drop (k + ptr) dst)"
      using Cons.prems by (simp add: chunk_copyout_def)
    with True Cons.prems \<open>length xs = ptr\<close> show ?thesis by simp
  next
    case False
    define ys zs where "ys = take bufsz xs" and "zs = drop bufsz xs"
    have l: "bufsz \<le> length xs" using Cons.prems(7) False by (cases bufs) auto
    have lb: "length b = bufsz" using Cons.prems(2) by simp
    have "take bufsz (b @ concat bufs) = take bufsz (map Some xs @ rest)" using Cons.prems(6) by simp
    then have b: "b = map Some ys" using l lb by (simp add: ys_def take_map)
    have "drop bufsz (b @ concat bufs) = drop bufsz (map Some xs @ rest)" using Cons.prems(6) by simp
    then have bufs: "concat bufs = map Some zs @ rest" using l lb by (simp add: zs_def drop_map)
    have lys: "length ys = bufsz" and xs: "xs = ys @ zs" using l by (simp_all add: ys_def zs_def)
    have lzs: "length zs = (length bufs - 1) * bufsz + ptr"
      using Cons.prems(7) False lys xs by (cases bufs) auto
    let ?dst = "take k dst @ ys @ drop (k + bufsz) dst"
    have "chunk_copyout b bufsz (int k) dst = Some (int bufsz, ?dst)"
      using Cons.prems(8) b lys xs by (simp add: chunk_copyout_def)
    moreover have "chunk_write chunk_copyout bufsz ptr bufs (int (k + bufsz)) ?dst =
        Some (int (k + bufsz + length zs), take (k + bufsz) ?dst @ zs @ drop (k + bufsz + length zs) ?dst)"
      using Cons.prems False bufs lzs lys xs by (intro Cons.IH) auto
    moreover have "take (k + bufsz) ?dst = take k dst @ ys" using Cons.prems(8) lys xs by simp
    moreover have "drop (k + bufsz + length zs) ?dst = drop (k + length xs) dst" using Cons.prems(8) lys xs by (simp add: ac_simps)
    ultimately show ?thesis using False Cons.prems(3) lys xs by (simp add: ac_simps)
  qed
qed

lemma chunk_write_copyout:
  assumes "chunk_rep bufsz bufs ptr cs" and "0 < ptr" and "length cs \<le> length dst"
  shows "chunk_write chunk_copyout bufsz ptr bufs 0 dst = Some (int (length cs), cs @ drop (length cs) dst)"
  using chunk_write_suffix [of bufs bufsz ptr cs _ 0 dst] assms by (auto simp: chunk_rep_def)

section \<open>The interface of an interning store\<close>

text \<open>Inserting items one after the other.\<close>

fun ins_all :: "('t \<Rightarrow> 'k \<Rightarrow> allocs \<Rightarrow> (int \<times> 't \<times> allocs) option) \<Rightarrow> 't \<Rightarrow> 'k list \<Rightarrow> allocs \<Rightarrow>
    (int list \<times> 't \<times> allocs) option" where
  "ins_all ins t [] mm = Some ([], t, mm)"
| "ins_all ins t (k # ks) mm = do {
     (r, t, mm) \<leftarrow> ins t k mm;
     (rs, t, mm) \<leftarrow> ins_all ins t ks mm;
     Some (r # rs, t, mm)
   }"

text \<open>
  What the users of the string table and of the read-only data rely on: inserting an item yields the
  offset of its bytes in a byte sequence that only ever grows at the end; or it fails and the
  sequence stays as it was.  \<open>adm\<close> is what an item must satisfy.  \<open>idx\<close> finds the offset of an item, which
  never changes once the item is there.
\<close>

locale interning =
  fixes ins :: "'t \<Rightarrow> 'k \<Rightarrow> allocs \<Rightarrow> (int \<times> 't \<times> allocs) option"
    and idx :: "'t \<Rightarrow> 'k \<Rightarrow> int option"
    and bytes :: "'t \<Rightarrow> u8 list \<Rightarrow> bool"
    and enc :: "'k \<Rightarrow> u8 list"
    and adm :: "'k \<Rightarrow> bool"
  assumes ins_grows: "bytes t cs \<Longrightarrow> adm k \<Longrightarrow>
      \<exists>r t' mm' xs. ins t k mm = Some (r, t', mm') \<and> bytes t' (cs @ xs) \<and> idx t' k = Some r \<and>
        (r = - 1 \<and> xs = [] \<or> 0 \<le> r \<and> take (length (enc k)) (drop (nat r) (cs @ xs)) = enc k) \<and>
        (\<forall>k'. adm k' \<longrightarrow> idx t k' \<noteq> Some (- 1) \<longrightarrow> idx t' k' = idx t k')"
    and idx_enc: "bytes t cs \<Longrightarrow> adm k \<Longrightarrow> adm k' \<Longrightarrow> enc k = enc k' \<Longrightarrow> idx t k = idx t k'"
begin

lemma take_drop_append: "take n (drop k cs) = e \<Longrightarrow> length e = n \<Longrightarrow> take n (drop k (cs @ xs)) = e"
  by (auto simp: take_append)

lemma ins_all_offsets:
  assumes "bytes t cs" and "\<And>k. k \<in> set ks \<Longrightarrow> adm k"
  shows "\<exists>rs t' mm' xs. ins_all ins t ks mm = Some (rs, t', mm') \<and> bytes t' (cs @ xs) \<and> length rs = length ks \<and>
    (\<forall>k'. adm k' \<longrightarrow> idx t k' \<noteq> Some (- 1) \<longrightarrow> idx t' k' = idx t k') \<and>
    (\<forall>j < length ks. rs ! j = - 1 \<or> idx t' (ks ! j) = Some (rs ! j) \<and> 0 \<le> rs ! j \<and>
       take (length (enc (ks ! j))) (drop (nat (rs ! j)) (cs @ xs)) = enc (ks ! j))"
  using assms
proof (induction ks arbitrary: t cs mm)
  case Nil
  then show ?case by (auto intro!: exI [of _ "[]"])
next
  case (Cons k ks)
  from ins_grows [OF Cons.prems(1), of k mm] Cons.prems(2) obtain r t1 mm1 xs where
    one: "ins t k mm = Some (r, t1, mm1)" "bytes t1 (cs @ xs)" "idx t1 k = Some r"
    "r = - 1 \<and> xs = [] \<or> 0 \<le> r \<and> take (length (enc k)) (drop (nat r) (cs @ xs)) = enc k"
    "\<forall>k'. adm k' \<longrightarrow> idx t k' \<noteq> Some (- 1) \<longrightarrow> idx t1 k' = idx t k'" by auto
  from Cons.IH [OF one(2), of mm1] Cons.prems(2) obtain rs t' mm' ys where
    rest: "ins_all ins t1 ks mm1 = Some (rs, t', mm')" "bytes t' ((cs @ xs) @ ys)" "length rs = length ks"
    "\<forall>k'. adm k' \<longrightarrow> idx t1 k' \<noteq> Some (- 1) \<longrightarrow> idx t' k' = idx t1 k'"
    "\<forall>j < length ks. rs ! j = - 1 \<or> idx t' (ks ! j) = Some (rs ! j) \<and> 0 \<le> rs ! j \<and>
       take (length (enc (ks ! j))) (drop (nat (rs ! j)) ((cs @ xs) @ ys)) = enc (ks ! j)" by auto
  have "r = - 1 \<or> idx t' k = Some r \<and> 0 \<le> r \<and> take (length (enc k)) (drop (nat r) ((cs @ xs) @ ys)) = enc k"
    using one(3,4) rest(4) Cons.prems(2) take_drop_append [of "length (enc k)" "nat r" "cs @ xs" "enc k" ys] by auto
  with rest(3,5) have "\<forall>j < length (k # ks). (r # rs) ! j = - 1 \<or> idx t' ((k # ks) ! j) = Some ((r # rs) ! j) \<and>
      0 \<le> (r # rs) ! j \<and>
      take (length (enc ((k # ks) ! j))) (drop (nat ((r # rs) ! j)) ((cs @ xs) @ ys)) = enc ((k # ks) ! j)"
    by (auto simp: nth_Cons split: nat.split)
  moreover have "ins_all ins t (k # ks) mm = Some (r # rs, t', mm')" using one(1) rest(1) by simp
  moreover have "\<forall>k'. adm k' \<longrightarrow> idx t k' \<noteq> Some (- 1) \<longrightarrow> idx t' k' = idx t k'" using one(5) rest(4) by simp
  ultimately show ?case using rest(2,3)
    by (intro exI [of _ "r # rs"] exI [of _ t'] exI [of _ mm'] exI [of _ "xs @ ys"]) simp
qed

text \<open>Two items share an offset exactly when they have the same bytes, provided no encoding extends another.\<close>

lemma ins_all_shared:
  assumes "bytes t cs" and "\<And>k. k \<in> set ks \<Longrightarrow> adm k"
    and prefix_free: "\<And>k k' ws. adm k \<Longrightarrow> adm k' \<Longrightarrow>
      take (length (enc k)) ws = enc k \<Longrightarrow> take (length (enc k')) ws = enc k' \<Longrightarrow> enc k = enc k'"
    and run: "ins_all ins t ks mm = Some (rs, t', mm')"
    and ij: "i < length ks" "j < length ks" "rs ! i \<noteq> - 1" "rs ! j \<noteq> - 1"
  shows "rs ! i = rs ! j \<longleftrightarrow> enc (ks ! i) = enc (ks ! j)"
proof -
  have "\<exists>xs. bytes t' (cs @ xs) \<and> (\<forall>j < length ks. rs ! j = - 1 \<or> idx t' (ks ! j) = Some (rs ! j) \<and> 0 \<le> rs ! j \<and>
       take (length (enc (ks ! j))) (drop (nat (rs ! j)) (cs @ xs)) = enc (ks ! j))"
    using ins_all_offsets [OF assms(1,2), of ks mm] unfolding run by (metis Pair_inject option.inject)
  then obtain xs where bs: "bytes t' (cs @ xs)"
    and at: "\<forall>j < length ks. rs ! j = - 1 \<or> idx t' (ks ! j) = Some (rs ! j) \<and> 0 \<le> rs ! j \<and>
       take (length (enc (ks ! j))) (drop (nat (rs ! j)) (cs @ xs)) = enc (ks ! j)" by blast
  from ij have adm: "adm (ks ! i)" "adm (ks ! j)" using assms(2) by simp_all
  show ?thesis
  proof
    assume "rs ! i = rs ! j"
    with at ij show "enc (ks ! i) = enc (ks ! j)" by (metis prefix_free adm)
  next
    assume "enc (ks ! i) = enc (ks ! j)"
    with idx_enc [OF bs adm] at ij show "rs ! i = rs ! j" by (metis option.inject)
  qed
qed

end

end
