(* ===== verification/Strtab.thy ===== *)
theory Strtab
  imports Chunks
begin

text \<open>
  The string table of the compiler, \<^verbatim>\<open>libdtrace/dt_strtab.c\<close>: strings are stored once, zero-terminated, in a
  growing list of buffers, and are named by their offset in the concatenation of the buffers.  A
  hash table finds the strings already stored.

  \<open>strtab_rep sp cs\<close> is the invariant: the table holds the byte sequence \<open>cs\<close>, which starts with the empty
  string, and every hash entry is the offset of a zero-terminated string in it.
\<close>

section \<open>Operations\<close>

text \<open>
  \<open>sh_data\<close> is the position of the string in the buffer with index \<open>sh_buf\<close>; a chain is a list of entries.
\<close>

record dt_strhash =
  sh_data :: nat
  sh_buf :: nat
  sh_off :: nat
  sh_len :: nat

record dt_strtab =
  str_hash :: "dt_strhash list list"
  str_hashsz :: nat
  str_bufs :: "chunk list"
  str_ptr :: nat
  str_bufsz :: nat
  str_nstrs :: nat
  str_size :: nat

definition dt_strtab_grow :: "dt_strtab \<Rightarrow> allocs \<Rightarrow> int \<times> dt_strtab \<times> allocs" where
  "dt_strtab_grow sp mm =
     (case chunk_grow (str_bufsz sp) (str_bufs sp) mm of
        (None, mm) \<Rightarrow> (- 1, sp, mm)
      | (Some bufs, mm) \<Rightarrow> (0, sp\<lparr>str_bufs := bufs, str_ptr := 0\<rparr>, mm))"

text \<open>The outer option is the assertion, the inner one the returned pointer.\<close>

definition dt_strtab_create :: "nat \<Rightarrow> allocs \<Rightarrow> dt_strtab option option" where
  "dt_strtab_create bufsz mm =
     (case c_alloc mm of
        (sp, mm) \<Rightarrow>
          if bufsz = 0 then None
          else if sp = None then Some None
          else
            (case c_alloc mm of
               (None, _) \<Rightarrow> Some None
             | (Some _, mm) \<Rightarrow>
                 (case dt_strtab_grow
                    \<lparr>str_hash = replicate dtrace_strbuckets [], str_hashsz = dtrace_strbuckets, str_bufs = [],
                     str_ptr = 0, str_bufsz = bufsz, str_nstrs = 1, str_size = 1\<rparr> mm of
                    (rc, sp, _) \<Rightarrow>
                      if rc = - 1 then Some None
                      else Some (Some (sp\<lparr>str_bufs := chunk_put (str_bufs sp) (length (str_bufs sp) - 1) (str_ptr sp) [0],
                             str_ptr := str_ptr sp + 1, str_size := 1, str_nstrs := 1\<rparr>)))))"

definition dt_strtab_compare :: "dt_strtab \<Rightarrow> dt_strhash \<Rightarrow> u8 list \<Rightarrow> int option" where
  "dt_strtab_compare sp hp str =
     chunk_compare c_strncmp (str_bufsz sp) (str_bufs sp) (sh_buf hp) (sh_data hp) str"

definition dt_strtab_copyin :: "dt_strtab \<Rightarrow> u8 list \<Rightarrow> allocs \<Rightarrow> (int \<times> dt_strtab \<times> allocs) option" where
  "dt_strtab_copyin sp str mm =
     (case chunk_copyin (str_bufsz sp) (str_bufs sp) (str_ptr sp) str mm of
        None \<Rightarrow> None
      | Some (rc, bufs, ptr, mm) \<Rightarrow> Some (rc, sp\<lparr>str_bufs := bufs, str_ptr := ptr\<rparr>, mm))"

fun strtab_scan :: "dt_strtab \<Rightarrow> dt_strhash list \<Rightarrow> u8 list \<Rightarrow> int option" where
  "strtab_scan sp [] str = Some (- 1)"
| "strtab_scan sp (hp # hps) str = do {
     rv \<leftarrow> dt_strtab_compare sp hp str;
     if rv = 0 then Some (int (sh_off hp)) else strtab_scan sp hps str
   }"

text \<open>\<open>str\<close> is the string with its terminating zero: \<^verbatim>\<open>len + 1\<close> bytes.\<close>

definition dt_strtab_xindex :: "dt_strtab \<Rightarrow> u8 list \<Rightarrow> nat \<Rightarrow> int option" where
  "dt_strtab_xindex sp str h =
     (if h < length (str_hash sp) then strtab_scan sp (str_hash sp ! h) str else None)"

definition strtab_hash :: "dt_strtab \<Rightarrow> u8 list \<Rightarrow> nat" where
  "strtab_hash sp s = unat (str2hval (Some s) (word_of_nat (length s))) mod str_hashsz sp"

definition dt_strtab_index :: "dt_strtab \<Rightarrow> u8 list option \<Rightarrow> int option" where
  "dt_strtab_index sp str =
     (case str of
        None \<Rightarrow> Some 0
      | Some str \<Rightarrow>
          let s = c_str str
          in if s = [] then Some 0 else dt_strtab_xindex sp (s @ [0]) (strtab_hash sp s))"

definition dt_strtab_insert :: "dt_strtab \<Rightarrow> u8 list option \<Rightarrow> allocs \<Rightarrow> (int \<times> dt_strtab \<times> allocs) option" where
  "dt_strtab_insert sp str mm =
     (case str of
        None \<Rightarrow> Some (0, sp, mm)
      | Some str \<Rightarrow>
          let s = c_str str
          in if s = [] then Some (0, sp, mm)
             else do {
               let slen = length s;
               let h = strtab_hash sp s;
               off \<leftarrow> dt_strtab_xindex sp (s @ [0]) h;
               if off \<noteq> - 1 then Some (off, sp, mm)
               else
                 (case c_alloc mm of
                    (None, mm) \<Rightarrow> Some (- 1, sp, mm)
                  | (Some _, mm) \<Rightarrow> do {
                      let hp = \<lparr>sh_data = str_ptr sp, sh_buf = length (str_bufs sp) - 1, sh_off = str_size sp, sh_len = slen\<rparr>;
                      let next = str_hash sp ! h;
                      (rc, sp, mm) \<leftarrow> dt_strtab_copyin sp (s @ [0]) mm;
                      if rc = - 1 then Some (- 1, sp, mm)
                      else Some (int (sh_off hp),
                        sp\<lparr>str_nstrs := str_nstrs sp + 1, str_size := str_size sp + slen + 1,
                           str_hash := (str_hash sp)[h := hp # next]\<rparr>, mm)
                    })
             })"

definition dt_strtab_size :: "dt_strtab \<Rightarrow> nat" where
  "dt_strtab_size sp = str_size sp"

definition dt_strtab_copystr :: "chunk \<Rightarrow> nat \<Rightarrow> int \<Rightarrow> u8 list \<Rightarrow> (int \<times> u8 list) option" where
  "dt_strtab_copystr s n off buf = chunk_copyout s n off buf"

definition dt_strtab_write :: "dt_strtab \<Rightarrow> (chunk \<Rightarrow> nat \<Rightarrow> int \<Rightarrow> 'p \<Rightarrow> (int \<times> 'p) option) \<Rightarrow> 'p \<Rightarrow> (int \<times> 'p) option" where
  "dt_strtab_write sp func private = do {
     (tot, private) \<leftarrow> chunk_write func (str_bufsz sp) (str_ptr sp) (str_bufs sp) 0 private;
     if tot = 0 \<and> str_size sp \<noteq> 0 then Some (- 1, private) else Some (tot, private)
   }"

section \<open>The invariant\<close>

text \<open>An entry describes a zero-terminated string of the contents, and says where it is.\<close>

definition strhash_ok :: "nat \<Rightarrow> nat \<Rightarrow> u8 list \<Rightarrow> dt_strhash \<Rightarrow> bool" where
  "strhash_ok bufsz nbufs cs hp \<longleftrightarrow> sh_data hp \<le> bufsz \<and> sh_buf hp < nbufs \<and>
     sh_off hp = sh_buf hp * bufsz + sh_data hp \<and> sh_off hp < length cs \<and>
     0 \<in> set (drop (sh_off hp) cs) \<and> length (c_str (drop (sh_off hp) cs)) = sh_len hp"

definition strtab_rep :: "dt_strtab \<Rightarrow> u8 list \<Rightarrow> bool" where
  "strtab_rep sp cs \<longleftrightarrow> chunk_rep (str_bufsz sp) (str_bufs sp) (str_ptr sp) cs \<and> 0 < str_ptr sp \<and>
     str_size sp = length cs \<and> str_hashsz sp = length (str_hash sp) \<and> 0 < str_hashsz sp \<and>
     cs \<noteq> [] \<and> hd cs = 0 \<and>
     (\<forall>hps \<in> set (str_hash sp). \<forall>hp \<in> set hps. strhash_ok (str_bufsz sp) (length (str_bufs sp)) cs hp)"

lemma c_memcmp_cstr:
  "0 \<notin> set s \<Longrightarrow> 0 \<notin> set t \<Longrightarrow> \<exists>r. c_memcmp (map Some (t @ [0]) @ z) (s @ [0]) = Some r \<and> (r = 0 \<longleftrightarrow> s = t)"
proof (induction s arbitrary: t)
  case Nil
  then show ?case by (cases t) (auto simp: uint_0_iff)
next
  case (Cons a s)
  show ?case
  proof (cases t)
    case Nil
    with Cons.prems show ?thesis by (auto simp: uint_0_iff)
  next
    case (Cons b t')
    with Cons.prems Cons.IH [of t'] show ?thesis by auto
  qed
qed

lemma c_str_terminated: "0 \<in> set cs \<Longrightarrow> \<exists>r. cs = c_str cs @ 0 # r"
proof (induction cs)
  case Nil
  then show ?case by simp
next
  case (Cons c cs)
  then show ?case by (cases "c = 0") auto
qed

lemma butlast_infix: "s @ [0] = pre @ u @ suf \<Longrightarrow> 0 \<notin> set s \<Longrightarrow> 0 \<notin> set (butlast u)"
proof -
  assume eq: "s @ [0] = pre @ u @ suf" and s: "0 \<notin> set s"
  show ?thesis
  proof (cases "suf = []")
    case True
    with eq have "butlast (s @ [0]) = pre @ butlast u \<or> u = []" by (cases u) (auto simp: butlast_append)
    with s show ?thesis by auto
  next
    case False
    with eq have "butlast (s @ [0]) = pre @ u @ butlast suf" by (simp add: butlast_append)
    with s show ?thesis by (auto dest: in_set_butlastD)
  qed
qed

lemma strtab_compare_rep:
  assumes rep: "strtab_rep sp cs" and hp: "strhash_ok (str_bufsz sp) (length (str_bufs sp)) cs hp" and s: "0 \<notin> set s"
  shows "\<exists>r. dt_strtab_compare sp hp (s @ [0]) = Some r \<and> (r = 0 \<longleftrightarrow> s = c_str (drop (sh_off hp) cs))"
proof -
  from rep obtain rest where c: "concat (str_bufs sp) = map Some cs @ rest" and z: "0 < str_bufsz sp"
    and len: "\<forall>buf \<in> set (str_bufs sp). length buf = str_bufsz sp" by (auto simp: strtab_rep_def chunk_rep_def)
  from hp have off: "sh_data hp \<le> str_bufsz sp" "sh_buf hp < length (str_bufs sp)"
    "sh_off hp = sh_buf hp * str_bufsz sp + sh_data hp" "sh_off hp < length cs" "0 \<in> set (drop (sh_off hp) cs)"
    unfolding strhash_ok_def by blast+
  have "dt_strtab_compare sp hp (s @ [0]) = c_memcmp (drop (sh_off hp) (concat (str_bufs sp))) (s @ [0])"
    unfolding dt_strtab_compare_def off(3)
  proof (rule chunk_compare_concat [OF z len off(2,1)])
    show "c_strncmp x u = c_memcmp x u" if "\<exists>pre suf. s @ [0] = pre @ u @ suf" "length x = length u" for u x
      using that s by (auto intro!: c_strncmp_memcmp dest: butlast_infix)
  qed
  moreover obtain r where "drop (sh_off hp) cs = c_str (drop (sh_off hp) cs) @ 0 # r"
    using c_str_terminated [OF off(5)] by blast
  then have "drop (sh_off hp) (concat (str_bufs sp)) = map Some (c_str (drop (sh_off hp) cs) @ [0]) @ (map Some r @ rest)"
    unfolding c using off(4) by (simp add: drop_map) (metis append_Cons append_assoc list.simps(9) map_append)
  ultimately show ?thesis using c_memcmp_cstr [OF s, of "c_str (drop (sh_off hp) cs)"] by simp
qed

text \<open>Scanning a chain is searching it for the entry of the string.\<close>

lemma strtab_scan_find:
  assumes "strtab_rep sp cs" and "0 \<notin> set s"
    and "\<And>hp. hp \<in> set hps \<Longrightarrow> strhash_ok (str_bufsz sp) (length (str_bufs sp)) cs hp"
  shows "strtab_scan sp hps (s @ [0]) =
    Some (case find (\<lambda>hp. c_str (drop (sh_off hp) cs) = s) hps of None \<Rightarrow> - 1 | Some hp \<Rightarrow> int (sh_off hp))"
  using assms(3)
proof (induction hps)
  case Nil
  then show ?case by simp
next
  case (Cons hp hps)
  obtain r where "dt_strtab_compare sp hp (s @ [0]) = Some r" "r = 0 \<longleftrightarrow> s = c_str (drop (sh_off hp) cs)"
    using strtab_compare_rep [OF assms(1) _ assms(2), of hp] Cons.prems by auto
  then show ?case using Cons by (cases "r = 0") auto
qed

lemma strtab_hash_less: "strtab_rep sp cs \<Longrightarrow> strtab_hash sp s < length (str_hash sp)"
  unfolding strtab_rep_def strtab_hash_def by (metis mod_less_divisor)

definition strtab_find :: "dt_strtab \<Rightarrow> u8 list \<Rightarrow> u8 list \<Rightarrow> dt_strhash option" where
  "strtab_find sp cs s = find (\<lambda>hp. c_str (drop (sh_off hp) cs) = s) (str_hash sp ! strtab_hash sp s)"

lemma strtab_xindex_find:
  assumes "strtab_rep sp cs" and "0 \<notin> set s"
  shows "dt_strtab_xindex sp (s @ [0]) (strtab_hash sp s) =
    Some (case strtab_find sp cs s of None \<Rightarrow> - 1 | Some hp \<Rightarrow> int (sh_off hp))"
proof -
  have "\<And>hp. hp \<in> set (str_hash sp ! strtab_hash sp s) \<Longrightarrow> strhash_ok (str_bufsz sp) (length (str_bufs sp)) cs hp"
    using assms(1) strtab_hash_less [OF assms(1)] by (auto simp: strtab_rep_def dest!: nth_mem)
  from strtab_scan_find [OF assms this] show ?thesis
    using strtab_hash_less [OF assms(1)] by (simp add: dt_strtab_xindex_def strtab_find_def)
qed

lemma strtab_findD:
  assumes "strtab_rep sp cs" and "strtab_find sp cs s = Some hp"
  shows "sh_off hp < length cs" and "c_str (drop (sh_off hp) cs) = s" and "0 \<in> set (drop (sh_off hp) cs)"
proof -
  from assms(2) have "hp \<in> set (str_hash sp ! strtab_hash sp s)" "c_str (drop (sh_off hp) cs) = s"
    by (auto simp: strtab_find_def dest: find_SomeD)
  moreover have "str_hash sp ! strtab_hash sp s \<in> set (str_hash sp)" using strtab_hash_less [OF assms(1)] by simp
  ultimately have "strhash_ok (str_bufsz sp) (length (str_bufs sp)) cs hp" using assms(1) unfolding strtab_rep_def by blast
  then show "sh_off hp < length cs" "c_str (drop (sh_off hp) cs) = s" "0 \<in> set (drop (sh_off hp) cs)"
    using \<open>c_str (drop (sh_off hp) cs) = s\<close> by (auto simp: strhash_ok_def)
qed

lemma c_str_append_terminated: "0 \<in> set cs \<Longrightarrow> c_str (cs @ xs) = c_str cs"
  by (induction cs) auto

lemma strhash_ok_append:
  "strhash_ok bufsz n cs hp \<Longrightarrow> n \<le> n' \<Longrightarrow> strhash_ok bufsz n' (cs @ xs) hp"
  by (auto simp: strhash_ok_def c_str_append_terminated)

section \<open>Insertion\<close>

definition strtab_index_of :: "dt_strtab \<Rightarrow> u8 list \<Rightarrow> u8 list \<Rightarrow> int" where
  "strtab_index_of sp cs s =
     (if s = [] then 0 else case strtab_find sp cs s of None \<Rightarrow> - 1 | Some hp \<Rightarrow> int (sh_off hp))"

lemma strtab_index_rep:
  "strtab_rep sp cs \<Longrightarrow> dt_strtab_index sp (Some str) = Some (strtab_index_of sp cs (c_str str))"
  by (simp add: dt_strtab_index_def strtab_index_of_def Let_def strtab_xindex_find)

lemma strtab_index_of_at:
  assumes "strtab_rep sp cs" and "strtab_index_of sp cs s \<noteq> - 1"
  shows "0 \<le> strtab_index_of sp cs s \<and> nat (strtab_index_of sp cs s) < length cs \<and>
    c_str (drop (nat (strtab_index_of sp cs s)) cs) = s \<and> 0 \<in> set (drop (nat (strtab_index_of sp cs s)) cs)"
proof (cases "s = []")
  case True
  with assms(1) show ?thesis by (cases cs) (auto simp: strtab_index_of_def strtab_rep_def)
next
  case False
  with assms(2) obtain hp where "strtab_find sp cs s = Some hp" "strtab_index_of sp cs s = int (sh_off hp)"
    by (auto simp: strtab_index_of_def split: option.splits)
  with strtab_findD [OF assms(1)] show ?thesis by simp
qed

lemma strtab_index_of_update:
  assumes "str_hash sp' = str_hash sp" and "str_hashsz sp' = str_hashsz sp"
  shows "strtab_index_of sp' cs t = strtab_index_of sp cs t"
  using assms by (simp add: strtab_index_of_def strtab_find_def strtab_hash_def)

lemma strtab_find_append:
  assumes "strtab_rep sp cs"
  shows "find (\<lambda>hp. c_str (drop (sh_off hp) (cs @ xs)) = t) (str_hash sp ! strtab_hash sp u) =
    find (\<lambda>hp. c_str (drop (sh_off hp) cs) = t) (str_hash sp ! strtab_hash sp u)"
proof (rule find_cong [OF refl])
  fix hp assume hp: "hp \<in> set (str_hash sp ! strtab_hash sp u)"
  have "str_hash sp ! strtab_hash sp u \<in> set (str_hash sp)" using strtab_hash_less [OF assms] by simp
  with hp have "strhash_ok (str_bufsz sp) (length (str_bufs sp)) cs hp" using assms unfolding strtab_rep_def by blast
  then have "0 \<in> set (drop (sh_off hp) cs)" "sh_off hp < length cs" unfolding strhash_ok_def by blast+
  then show "(c_str (drop (sh_off hp) (cs @ xs)) = t) = (c_str (drop (sh_off hp) cs) = t)"
    by (simp add: c_str_append_terminated)
qed

text \<open>The table after a string has been added at the end of the contents.\<close>

lemma strtab_added_rep:
  fixes sp cs s bufs ptr
  defines "hp \<equiv> \<lparr>sh_data = str_ptr sp, sh_buf = length (str_bufs sp) - 1, sh_off = str_size sp, sh_len = length s\<rparr>"
    and "h \<equiv> strtab_hash sp s"
  defines "sp' \<equiv> sp\<lparr>str_bufs := bufs, str_ptr := ptr, str_nstrs := str_nstrs sp + 1,
    str_size := str_size sp + length s + 1, str_hash := (str_hash sp)[h := hp # str_hash sp ! h]\<rparr>"
  assumes rep: "strtab_rep sp cs" and s: "0 \<notin> set s"
    and new: "chunk_rep (str_bufsz sp) bufs ptr (cs @ s @ [0])" "0 < ptr" "length (str_bufs sp) \<le> length bufs"
  shows "strtab_rep sp' (cs @ s @ [0])" and "strtab_index_of sp' (cs @ s @ [0]) t =
      (if t = s \<and> s \<noteq> [] then int (length cs) else strtab_index_of sp cs t)"
proof -
  have h: "h < length (str_hash sp)" unfolding h_def by (rule strtab_hash_less [OF rep])
  have sz: "str_size sp = length cs" "str_bufs sp \<noteq> []" using rep by (auto simp: strtab_rep_def chunk_rep_def)
  have off: "length cs = (length (str_bufs sp) - 1) * str_bufsz sp + str_ptr sp" "str_ptr sp \<le> str_bufsz sp"
    using rep by (auto simp: strtab_rep_def chunk_rep_def)
  have hp: "strhash_ok (str_bufsz sp) (length bufs) (cs @ s @ [0]) hp"
    using off new(3) sz s by (simp add: strhash_ok_def hp_def c_str_append) (cases "str_bufs sp"; auto)
  have "strhash_ok (str_bufsz sp) (length bufs) (cs @ s @ [0]) e"
    if "hps \<in> set ((str_hash sp)[h := hp # str_hash sp ! h])" "e \<in> set hps" for hps e
  proof -
    from that have "e = hp \<or> (\<exists>hps \<in> set (str_hash sp). e \<in> set hps)"
      using h set_update_subset_insert [of "str_hash sp" h "hp # str_hash sp ! h"] by auto
    then show ?thesis
      using hp rep new(3) strhash_ok_append [of "str_bufsz sp" "length (str_bufs sp)" cs e "length bufs"]
      by (auto simp: strtab_rep_def)
  qed
  then show "strtab_rep sp' (cs @ s @ [0])"
    using rep new(1,2) sz unfolding strtab_rep_def sp'_def by auto
  have at: "c_str (drop (sh_off hp) (cs @ s @ [0])) = s" using s sz by (simp add: hp_def c_str_append)
  have "strtab_find sp' (cs @ s @ [0]) t = (if t = s then Some hp else strtab_find sp cs t)" (is "?l = _")
  proof -
    have hash: "strtab_hash sp' t = strtab_hash sp t" by (simp add: strtab_hash_def sp'_def)
    have "?l = find (\<lambda>e. c_str (drop (sh_off e) (cs @ s @ [0])) = t) ((str_hash sp)[h := hp # str_hash sp ! h] ! strtab_hash sp t)"
      unfolding strtab_find_def hash by (simp add: sp'_def)
    also have "\<dots> = (if t = s then Some hp else strtab_find sp cs t)"
    proof (cases "strtab_hash sp t = h")
      case True
      then show ?thesis using h at strtab_find_append [OF rep, of "s @ [0]" t t] by (auto simp: strtab_find_def)
    next
      case False
      then show ?thesis using strtab_find_append [OF rep, of "s @ [0]" t t] by (auto simp: strtab_find_def h_def)
    qed
    finally show ?thesis .
  qed
  then show "strtab_index_of sp' (cs @ s @ [0]) t = (if t = s \<and> s \<noteq> [] then int (length cs) else strtab_index_of sp cs t)"
    using sz by (auto simp: strtab_index_of_def hp_def)
qed

text \<open>
  Insertion as a whole.  The last two conjuncts say what becomes of every index, and that insertion
  fails only when memory runs out.
\<close>

lemma strtab_insert_rep:
  assumes rep: "strtab_rep sp cs"
  shows "\<exists>r sp' mm' xs. dt_strtab_insert sp (Some str) mm = Some (r, sp', mm') \<and> strtab_rep sp' (cs @ xs) \<and>
    str_bufsz sp' = str_bufsz sp \<and>
    (\<forall>t. strtab_index_of sp' (cs @ xs) t = (if t = c_str str then r else strtab_index_of sp cs t)) \<and>
    (strtab_index_of sp cs (c_str str) \<noteq> - 1 \<longrightarrow> sp' = sp \<and> xs = []) \<and>
    (r = - 1 \<longrightarrow> xs = [] \<and> (None \<in> set mm \<or> length mm < 2 * length (c_str str) + 3))"
proof -
  define s where "s = c_str str"
  have s: "0 \<notin> set s" by (simp add: s_def)
  note ins = dt_strtab_insert_def s_def [symmetric] Let_def strtab_xindex_find [OF rep s]
  show ?thesis
  proof (cases "s \<noteq> [] \<and> strtab_find sp cs s = None")
    case False
    then have "dt_strtab_insert sp (Some str) mm = Some (strtab_index_of sp cs s, sp, mm)"
      and "strtab_index_of sp cs s \<noteq> - 1" by (auto simp: ins strtab_index_of_def)
    then show ?thesis unfolding s_def [symmetric] using rep by (intro exI conjI) (assumption, auto)
  next
    case fresh: True
    then have no: "strtab_index_of sp cs s = - 1" by (simp add: strtab_index_of_def)
    show ?thesis
    proof (cases "c_alloc mm")
      case (Pair a mm1)
      show ?thesis
      proof (cases a)
        case None
        then have "dt_strtab_insert sp (Some str) mm = Some (- 1, sp, mm1)" using fresh Pair by (simp add: ins)
        moreover have "None \<in> set mm \<or> length mm < 2 * length s + 3" using Pair None by (cases mm) auto
        ultimately show ?thesis unfolding s_def [symmetric] using rep no by (intro exI conjI) (assumption, auto)
      next
        case (Some p)
        then have mm: "mm = Some p # mm1" using Pair by (cases mm) auto
        from rep have "chunk_rep (str_bufsz sp) (str_bufs sp) (str_ptr sp) cs" by (simp add: strtab_rep_def)
        from chunk_copyin_rep [OF this, of "s @ [0]" mm1] obtain rc bufs ptr mm2 where
          copy: "chunk_copyin (str_bufsz sp) (str_bufs sp) (str_ptr sp) (s @ [0]) mm1 = Some (rc, bufs, ptr, mm2)"
          and post: "rc = 0 \<and> chunk_rep (str_bufsz sp) bufs ptr (cs @ s @ [0]) \<and> length (str_bufs sp) \<le> length bufs \<and>
            (s @ [0] \<noteq> [] \<longrightarrow> 0 < ptr) \<or> rc = - 1 \<and>
            chunk_rep (str_bufsz sp) bufs ptr cs \<and> ptr = str_ptr sp \<and> length bufs = length (str_bufs sp) \<and>
            (None \<in> set mm1 \<or> length mm1 < 2 * length (s @ [0]))" by blast
        show ?thesis
        proof (cases "rc = - 1")
          case True
          let ?sp = "sp\<lparr>str_bufs := bufs, str_ptr := ptr\<rparr>"
          have "dt_strtab_insert sp (Some str) mm = Some (- 1, ?sp, mm2)"
            using fresh Pair Some copy True by (simp add: ins dt_strtab_copyin_def)
          moreover have "strtab_rep ?sp (cs @ [])" using rep post True by (auto simp: strtab_rep_def)
          moreover have "strtab_index_of ?sp cs t = strtab_index_of sp cs t" for t by (rule strtab_index_of_update) simp_all
          ultimately show ?thesis unfolding s_def [symmetric] using no post True mm by (intro exI conjI) (assumption+, auto)
        next
          case False
          with post have new: "chunk_rep (str_bufsz sp) bufs ptr (cs @ s @ [0])" "0 < ptr" "length (str_bufs sp) \<le> length bufs"
            by simp_all
          note added = strtab_added_rep [OF rep s new]
          have size: "str_size sp = length cs" using rep by (simp add: strtab_rep_def)
          let ?hp = "\<lparr>sh_data = str_ptr sp, sh_buf = length (str_bufs sp) - 1, sh_off = str_size sp, sh_len = length s\<rparr>"
            and ?h = "strtab_hash sp s"
          let ?sp = "sp\<lparr>str_bufs := bufs, str_ptr := ptr, str_nstrs := str_nstrs sp + 1,
            str_size := str_size sp + length s + 1, str_hash := (str_hash sp)[?h := ?hp # str_hash sp ! ?h]\<rparr>"
          have "dt_strtab_insert sp (Some str) mm = Some (int (length cs), ?sp, mm2)"
            using fresh Pair Some copy False size by (simp add: ins dt_strtab_copyin_def)
          with added no fresh show ?thesis unfolding s_def [symmetric]
            by (intro exI [of _ "int (length cs)"] exI [of _ ?sp] exI [of _ mm2] exI [of _ "s @ [0]"] conjI) auto
        qed
      qed
    qed
  qed
qed

section \<open>The string table as an interning store\<close>

definition str_enc :: "u8 list option \<Rightarrow> u8 list" where
  "str_enc str = (case str of None \<Rightarrow> [0] | Some str \<Rightarrow> c_str str @ [0])"

lemma c_str_encoded: "0 \<in> set cs \<Longrightarrow> take (Suc (length (c_str cs))) cs = c_str cs @ [0]"
  by (induction cs) auto

lemma str_enc_prefix_free:
  assumes "take (length (str_enc k)) ws = str_enc k" and "take (length (str_enc k')) ws = str_enc k'"
  shows "str_enc k = str_enc k'"
proof -
  have "c_str ws @ [0] = str_enc k" if "take (length (str_enc k)) ws = str_enc k" for k
  proof -
    obtain s where s: "str_enc k = s @ [0]" "0 \<notin> set s" by (cases k) (auto simp: str_enc_def)
    with that have "ws = s @ [0] @ drop (length (s @ [0])) ws" by (metis append.assoc append_take_drop_id)
    with s show ?thesis by (metis append_Cons append_Nil2 c_str_append c_str_simps(1) c_str_simps(2))
  qed
  with assms show ?thesis by metis
qed

interpretation strtab: interning dt_strtab_insert dt_strtab_index strtab_rep str_enc "\<lambda>_. True"
proof
  fix sp :: dt_strtab and cs k mm assume rep: "strtab_rep sp cs"
  show "\<exists>r t' mm' xs. dt_strtab_insert sp k mm = Some (r, t', mm') \<and> strtab_rep t' (cs @ xs) \<and> dt_strtab_index t' k = Some r \<and>
      (r = - 1 \<and> xs = [] \<or> 0 \<le> r \<and> take (length (str_enc k)) (drop (nat r) (cs @ xs)) = str_enc k) \<and>
      (\<forall>k'. True \<longrightarrow> dt_strtab_index sp k' \<noteq> Some (- 1) \<longrightarrow> dt_strtab_index t' k' = dt_strtab_index sp k')"
  proof (cases k)
    case None
    with rep show ?thesis
      by (intro exI [of _ 0] exI [of _ sp] exI [of _ mm] exI [of _ "[]"])
        (cases cs, auto simp: dt_strtab_insert_def dt_strtab_index_def str_enc_def strtab_rep_def)
  next
    case (Some str)
    from strtab_insert_rep [OF rep, of str mm] obtain r sp' mm' xs where
      ins: "dt_strtab_insert sp (Some str) mm = Some (r, sp', mm')" "strtab_rep sp' (cs @ xs)"
      "\<forall>t. strtab_index_of sp' (cs @ xs) t = (if t = c_str str then r else strtab_index_of sp cs t)"
      "strtab_index_of sp cs (c_str str) \<noteq> - 1 \<longrightarrow> sp' = sp \<and> xs = []" "r = - 1 \<longrightarrow> xs = []" by blast
    have idx: "dt_strtab_index sp' (Some str) = Some r" using strtab_index_rep [OF ins(2)] ins(3) by simp
    have "take (length (str_enc k)) (drop (nat r) (cs @ xs)) = str_enc k \<and> 0 \<le> r" if "r \<noteq> - 1"
      using strtab_index_of_at [OF ins(2), of "c_str str"] that ins(3)
        c_str_encoded [of "drop (nat r) (cs @ xs)"] by (simp add: str_enc_def Some)
    moreover have "dt_strtab_index sp' k' = dt_strtab_index sp k'" if "dt_strtab_index sp k' \<noteq> Some (- 1)" for k'
    proof (cases k')
      case None
      then show ?thesis by (simp add: dt_strtab_index_def)
    next
      case (Some t)
      then show ?thesis using that strtab_index_rep [OF ins(2), of t] strtab_index_rep [OF rep, of t] ins(3,4)
        by (cases "c_str t = c_str str") auto
    qed
    ultimately show ?thesis using ins(1,2,5) idx Some by blast
  qed
next
  fix sp :: dt_strtab and cs k k' assume "strtab_rep sp cs" "str_enc k = str_enc k'"
  then show "dt_strtab_index sp k = dt_strtab_index sp k'"
    by (auto simp: dt_strtab_index_def str_enc_def split: option.splits)
qed

section \<open>Properties\<close>

lemma strtab_create_rep:
  assumes "0 < bufsz" and "mm = Some a # Some b # Some c # Some d # mm'"
  shows "\<exists>sp. dt_strtab_create bufsz mm = Some (Some sp) \<and> strtab_rep sp [0]"
proof -
  define sp where "sp = \<lparr>str_hash = replicate dtrace_strbuckets ([] :: dt_strhash list), str_hashsz = dtrace_strbuckets,
    str_bufs = [Some 0 # replicate (bufsz - 1) None], str_ptr = 1, str_bufsz = bufsz, str_nstrs = 1, str_size = 1\<rparr>"
  have drop: "drop (Suc 0) (replicate bufsz (None :: u8 option)) = replicate (bufsz - 1) None" by simp
  have "dt_strtab_create bufsz mm = Some (Some sp)" using assms
    by (simp add: dt_strtab_create_def dt_strtab_grow_def chunk_grow_def chunk_put_def sp_def drop del: drop_replicate)
  moreover have "strtab_rep sp [0]"
    using assms(1) by (auto simp: strtab_rep_def chunk_rep_def sp_def dtrace_strbuckets_def)
  ultimately show ?thesis by blast
qed

lemma strtab_write_rep:
  assumes "strtab_rep sp cs" and "length cs \<le> length dst"
  shows "dt_strtab_write sp dt_strtab_copystr dst = Some (int (length cs), cs @ drop (length cs) dst)"
proof -
  have "dt_strtab_copystr = chunk_copyout" by (simp add: dt_strtab_copystr_def fun_eq_iff)
  with assms chunk_write_copyout [of "str_bufsz sp" "str_bufs sp" "str_ptr sp" cs dst] show ?thesis
    by (auto simp: dt_strtab_write_def strtab_rep_def)
qed

text \<open>
  C16. Round trip of the string table.  On a table that represents a byte sequence, \<^verbatim>\<open>dt_strtab_insert\<close> returns.  A
  string that was there keeps its offset and leaves the table as it is.  Otherwise the bytes are extended at the
  end, and \<^verbatim>\<open>dt_strtab_index\<close> then finds the string at the returned offset, where it stands zero-terminated;
  all other strings have the index they had.  Only lack of memory makes it fail, and then it
  returns -1 and no index changes.
\<close>

theorem strtab_insert_index:
  assumes "strtab_rep sp cs"
  shows "\<exists>r sp' mm' xs. dt_strtab_insert sp (Some str) mm = Some (r, sp', mm') \<and> strtab_rep sp' (cs @ xs) \<and>
    dt_strtab_index sp' (Some str) = Some r \<and>
    (\<forall>t. c_str t \<noteq> c_str str \<longrightarrow> dt_strtab_index sp' (Some t) = dt_strtab_index sp (Some t)) \<and>
    (dt_strtab_index sp (Some str) \<noteq> Some (- 1) \<longrightarrow> sp' = sp \<and> dt_strtab_index sp (Some str) = Some r) \<and>
    (if r = - 1 then xs = [] \<and> (None \<in> set mm \<or> length mm < 2 * length (c_str str) + 3)
     else 0 \<le> r \<and> nat r < length (cs @ xs) \<and> c_str (drop (nat r) (cs @ xs)) = c_str str \<and> 0 \<in> set (drop (nat r) (cs @ xs)))"
proof -
  from strtab_insert_rep [OF assms, of str mm] obtain r sp' mm' xs where
    ins: "dt_strtab_insert sp (Some str) mm = Some (r, sp', mm')" "strtab_rep sp' (cs @ xs)"
    "\<forall>t. strtab_index_of sp' (cs @ xs) t = (if t = c_str str then r else strtab_index_of sp cs t)"
    "strtab_index_of sp cs (c_str str) \<noteq> - 1 \<longrightarrow> sp' = sp \<and> xs = []"
    "r = - 1 \<longrightarrow> xs = [] \<and> (None \<in> set mm \<or> length mm < 2 * length (c_str str) + 3)" by blast
  note idx = strtab_index_rep [OF assms] strtab_index_rep [OF ins(2)]
  have "strtab_index_of sp' (cs @ xs) (c_str str) = r"
    and "\<forall>t. t \<noteq> c_str str \<longrightarrow> strtab_index_of sp' (cs @ xs) t = strtab_index_of sp cs t" using ins(3) by simp_all
  then show ?thesis
    using ins(1,2,4,5) idx strtab_index_of_at [OF ins(2), of "c_str str"]
    by (intro exI [of _ r] exI [of _ sp'] exI [of _ mm'] exI [of _ xs]) (auto simp del: append_assoc drop_append)
qed

theorem strtab_insert_index_witness:
  "\<exists>sp r sp' mm'. dt_strtab_create 4 (replicate 9 (Some 1)) = Some (Some sp) \<and>
    dt_strtab_insert sp (Some [97, 98, 99, 100]) (replicate 9 (Some 1)) = Some (r, sp', mm') \<and>
    dt_strtab_index sp' (Some [97, 98, 99, 100]) = Some r"
proof -
  have "\<exists>sp. dt_strtab_create 4 (replicate 9 (Some 1)) = Some (Some sp) \<and> strtab_rep sp [0]"
    by (rule strtab_create_rep) (simp_all add: numeral_eq_Suc)
  then show ?thesis using strtab_insert_index by meson
qed

text \<open>
  C15. The string table end to end.  Create a table, insert any list of strings (null pointers included), and write the
  table to a buffer of \<^verbatim>\<open>dt_strtab_size\<close> bytes: every step returns, the write fills the buffer, at every offset that
  an insertion returned the buffer holds that string, and two insertions returned the same offset
  exactly when they were given the same string.
\<close>

theorem strtab_stores_strings:
  assumes "0 < bufsz" and "4 \<le> length mm" and "None \<notin> set mm"
  shows "\<exists>sp rs sp' mm'' out. dt_strtab_create bufsz mm = Some (Some sp) \<and>
    ins_all dt_strtab_insert sp ks mm' = Some (rs, sp', mm'') \<and> length rs = length ks \<and>
    dt_strtab_write sp' dt_strtab_copystr (replicate (dt_strtab_size sp') 0) = Some (int (dt_strtab_size sp'), out) \<and>
    length out = dt_strtab_size sp' \<and>
    (\<forall>j < length ks. rs ! j \<noteq> - 1 \<longrightarrow> 0 \<le> rs ! j \<and>
       take (length (str_enc (ks ! j))) (drop (nat (rs ! j)) out) = str_enc (ks ! j)) \<and>
    (\<forall>i < length ks. \<forall>j < length ks. rs ! i \<noteq> - 1 \<longrightarrow> rs ! j \<noteq> - 1 \<longrightarrow>
       (rs ! i = rs ! j \<longleftrightarrow> str_enc (ks ! i) = str_enc (ks ! j)))"
proof -
  obtain a b c d mmr where mm: "mm = Some a # Some b # Some c # Some d # mmr"
  proof -
    obtain w x y z ws where "mm = w # x # y # z # ws" using assms(2) by (auto simp: Suc_le_length_iff numeral_eq_Suc)
    with assms(3) that show thesis by (cases w; cases x; cases y; cases z) auto
  qed
  obtain sp where sp: "dt_strtab_create bufsz mm = Some (Some sp)" "strtab_rep sp [0]"
    using strtab_create_rep [OF assms(1) mm] by blast
  from strtab.ins_all_offsets [OF sp(2), of ks mm'] obtain rs sp' mm'' xs where
    all: "ins_all dt_strtab_insert sp ks mm' = Some (rs, sp', mm'')" "strtab_rep sp' ([0] @ xs)" "length rs = length ks"
    "\<forall>j < length ks. rs ! j = - 1 \<or> dt_strtab_index sp' (ks ! j) = Some (rs ! j) \<and> 0 \<le> rs ! j \<and>
       take (length (str_enc (ks ! j))) (drop (nat (rs ! j)) ([0] @ xs)) = str_enc (ks ! j)" by auto
  have size: "dt_strtab_size sp' = length ([0] @ xs)" using all(2) by (simp add: strtab_rep_def dt_strtab_size_def)
  have "rs ! i = rs ! j \<longleftrightarrow> str_enc (ks ! i) = str_enc (ks ! j)"
    if "i < length ks" "j < length ks" "rs ! i \<noteq> - 1" "rs ! j \<noteq> - 1" for i j
    by (rule strtab.ins_all_shared [OF sp(2) _ str_enc_prefix_free all(1) that]) auto
  with sp(1) all strtab_write_rep [OF all(2), of "replicate (dt_strtab_size sp') 0"] size show ?thesis
    by (intro exI [of _ sp] exI [of _ rs] exI [of _ sp'] exI [of _ mm''] exI [of _ "[0] @ xs"]) auto
qed

theorem strtab_stores_strings_witness:
  "\<exists>sp rs sp' mm''. dt_strtab_create 8 [Some 1, Some 2, Some 3, Some 4] = Some (Some sp) \<and>
    ins_all dt_strtab_insert sp [Some [97], None, Some [97, 98]] (replicate 9 (Some 1)) = Some (rs, sp', mm'')"
  using strtab_stores_strings [of 8 "[Some 1, Some 2, Some 3, Some 4]" "[Some [97], None, Some [97, 98]]" "replicate 9 (Some 1)"]
  by auto

end
