(* ===== verification/Rodata.thy ===== *)
theory Rodata
  imports Chunks
begin

text \<open>
  The read-only data of the compiler, \<^verbatim>\<open>libdtrace/dt_rodata.c\<close>: blocks of bytes, stored like the strings of the string
  table but compared by length and not up to a terminating zero.

  \<open>rodata_rep n dp cs\<close> is the invariant of a store all of whose items have \<open>n\<close> bytes, as they do in the
  compiler, which stores conversion tables of 256 bytes.  With items of different lengths the
  comparison reads beyond the end of an item; \<open>rodata_longer_item\<close> shows it.
\<close>

section \<open>Operations\<close>

fun gen_hval_loop :: "u8 list \<Rightarrow> u32 \<Rightarrow> u32" where
  "gen_hval_loop [] hval = hval"
| "gen_hval_loop (c # cs) hval = gen_hval_loop cs (str2hval_step c hval)"

definition dt_gen_hval :: "u8 list option \<Rightarrow> u32 \<Rightarrow> u32" where
  "dt_gen_hval p hval = (case p of None \<Rightarrow> hval | Some cs \<Rightarrow> gen_hval_loop cs hval)"

record dt_rohash =
  rh_data :: nat
  rh_buf :: nat
  rh_off :: nat
  rh_len :: nat

record dt_rodata =
  ro_hash :: "dt_rohash list list"
  ro_hashsz :: nat
  ro_bufs :: "chunk list"
  ro_ptr :: nat
  ro_bufsz :: nat
  ro_size :: nat
  ro_item_size :: nat

definition dt_rodata_grow :: "dt_rodata \<Rightarrow> allocs \<Rightarrow> int \<times> dt_rodata \<times> allocs" where
  "dt_rodata_grow dp mm =
     (case chunk_grow (ro_bufsz dp) (ro_bufs dp) mm of
        (None, mm) \<Rightarrow> (- 1, dp, mm)
      | (Some bufs, mm) \<Rightarrow> (0, dp\<lparr>ro_bufs := bufs, ro_ptr := 0\<rparr>, mm))"

definition dt_rodata_create :: "nat \<Rightarrow> allocs \<Rightarrow> dt_rodata option option" where
  "dt_rodata_create bufsz mm =
     (case c_alloc mm of
        (dp, mm) \<Rightarrow>
          if bufsz = 0 then None
          else if dp = None then Some None
          else
            (case c_alloc mm of
               (None, _) \<Rightarrow> Some None
             | (Some _, mm) \<Rightarrow>
                 (case dt_rodata_grow
                    \<lparr>ro_hash = replicate dtrace_strbuckets [], ro_hashsz = dtrace_strbuckets, ro_bufs = [],
                     ro_ptr = 0, ro_bufsz = bufsz, ro_size = 0, ro_item_size = 0\<rparr> mm of
                    (rc, dp, _) \<Rightarrow>
                      if rc = - 1 then Some None
                      else Some (Some (dp\<lparr>ro_bufs := chunk_put (ro_bufs dp) (length (ro_bufs dp) - 1) (ro_ptr dp) [0],
                             ro_ptr := ro_ptr dp + 1, ro_size := 1\<rparr>)))))"

definition dt_rodata_compare :: "dt_rodata \<Rightarrow> dt_rohash \<Rightarrow> u8 list \<Rightarrow> int option" where
  "dt_rodata_compare dp hp ptr = chunk_compare c_memcmp (ro_bufsz dp) (ro_bufs dp) (rh_buf hp) (rh_data hp) ptr"

definition dt_rodata_copyin :: "dt_rodata \<Rightarrow> u8 list \<Rightarrow> allocs \<Rightarrow> (int \<times> dt_rodata \<times> allocs) option" where
  "dt_rodata_copyin dp ptr mm =
     (case chunk_copyin (ro_bufsz dp) (ro_bufs dp) (ro_ptr dp) ptr mm of
        None \<Rightarrow> None
      | Some (rc, bufs, p, mm) \<Rightarrow> Some (rc, dp\<lparr>ro_bufs := bufs, ro_ptr := p\<rparr>, mm))"

fun rodata_scan :: "dt_rodata \<Rightarrow> dt_rohash list \<Rightarrow> u8 list \<Rightarrow> int option" where
  "rodata_scan dp [] ptr = Some (- 1)"
| "rodata_scan dp (hp # hps) ptr = do {
     rv \<leftarrow> dt_rodata_compare dp hp ptr;
     if rv = 0 then Some (int (rh_off hp)) else rodata_scan dp hps ptr
   }"

definition dt_rodata_xindex :: "dt_rodata \<Rightarrow> u8 list \<Rightarrow> nat \<Rightarrow> int option" where
  "dt_rodata_xindex dp ptr h = (if h < length (ro_hash dp) then rodata_scan dp (ro_hash dp ! h) ptr else None)"

definition rodata_hash :: "dt_rodata \<Rightarrow> u8 list \<Rightarrow> nat" where
  "rodata_hash dp xs = unat (dt_gen_hval (Some xs) (word_of_nat (length xs))) mod ro_hashsz dp"

definition dt_rodata_index :: "dt_rodata \<Rightarrow> u8 list option \<Rightarrow> int option" where
  "dt_rodata_index dp ptr =
     (case ptr of None \<Rightarrow> Some 0 | Some xs \<Rightarrow> dt_rodata_xindex dp xs (rodata_hash dp xs))"

definition dt_rodata_insert :: "dt_rodata \<Rightarrow> u8 list option \<Rightarrow> allocs \<Rightarrow> (int \<times> dt_rodata \<times> allocs) option" where
  "dt_rodata_insert dp ptr mm =
     (case ptr of
        None \<Rightarrow> Some (0, dp, mm)
      | Some xs \<Rightarrow> do {
          let len = length xs;
          let h = rodata_hash dp xs;
          off \<leftarrow> dt_rodata_xindex dp xs h;
          if off \<noteq> - 1 then Some (off, dp, mm)
          else
            (case c_alloc mm of
               (None, mm) \<Rightarrow> Some (- 1, dp, mm)
             | (Some _, mm) \<Rightarrow> do {
                 let hp = \<lparr>rh_data = ro_ptr dp, rh_buf = length (ro_bufs dp) - 1, rh_off = ro_size dp, rh_len = len\<rparr>;
                 let next = ro_hash dp ! h;
                 (rc, dp, mm) \<leftarrow> dt_rodata_copyin dp xs mm;
                 if rc = - 1 then Some (- 1, dp, mm)
                 else Some (int (rh_off hp),
                   dp\<lparr>ro_size := ro_size dp + len, ro_hash := (ro_hash dp)[h := hp # next],
                      ro_item_size := (if ro_item_size dp < len then len else ro_item_size dp)\<rparr>, mm)
               })
        })"

definition dt_rodata_size :: "dt_rodata \<Rightarrow> nat" where
  "dt_rodata_size dp = ro_size dp"

definition dt_rodata_max_item_size :: "dt_rodata \<Rightarrow> nat" where
  "dt_rodata_max_item_size dp = ro_item_size dp"

definition dt_rodata_copy :: "chunk \<Rightarrow> nat \<Rightarrow> int \<Rightarrow> u8 list \<Rightarrow> (int \<times> u8 list) option" where
  "dt_rodata_copy s n off buf = chunk_copyout s n off buf"

definition dt_rodata_write :: "dt_rodata \<Rightarrow> (chunk \<Rightarrow> nat \<Rightarrow> int \<Rightarrow> 'p \<Rightarrow> (int \<times> 'p) option) \<Rightarrow> 'p \<Rightarrow> (int \<times> 'p) option" where
  "dt_rodata_write dp func private = do {
     (tot, private) \<leftarrow> chunk_write func (ro_bufsz dp) (ro_ptr dp) (ro_bufs dp) 0 private;
     if tot = 0 \<and> ro_size dp \<noteq> 0 then Some (- 1, private) else Some (tot, private)
   }"

section \<open>The invariant\<close>

definition rohash_ok :: "nat \<Rightarrow> nat \<Rightarrow> nat \<Rightarrow> nat \<Rightarrow> dt_rohash \<Rightarrow> bool" where
  "rohash_ok n bufsz nbufs sz hp \<longleftrightarrow> rh_data hp \<le> bufsz \<and> rh_buf hp < nbufs \<and> rh_len hp = n \<and>
     rh_buf hp * bufsz + rh_data hp = rh_off hp \<and> rh_off hp + n \<le> sz"

definition rodata_rep :: "nat \<Rightarrow> dt_rodata \<Rightarrow> u8 list \<Rightarrow> bool" where
  "rodata_rep n dp cs \<longleftrightarrow> chunk_rep (ro_bufsz dp) (ro_bufs dp) (ro_ptr dp) cs \<and> 0 < ro_ptr dp \<and>
     ro_size dp = length cs \<and> ro_hashsz dp = length (ro_hash dp) \<and> ro_hash dp \<noteq> [] \<and> 0 < n \<and> ro_item_size dp \<in> {0, n} \<and>
     (\<forall>hps \<in> set (ro_hash dp). \<forall>hp \<in> set hps. rohash_ok n (ro_bufsz dp) (length (ro_bufs dp)) (length cs) hp)"

lemma c_memcmp_bytes:
  "length xs \<le> length ys \<Longrightarrow> \<exists>r. c_memcmp (map Some ys @ z) xs = Some r \<and> (r = 0 \<longleftrightarrow> take (length xs) ys = xs)"
proof (induction xs arbitrary: ys)
  case Nil
  then show ?case by simp
next
  case (Cons x xs)
  then obtain y ys' where "ys = y # ys'" by (cases ys) auto
  with Cons show ?case by auto
qed

lemma rodata_compare_rep:
  assumes rep: "rodata_rep n dp cs" and hp: "rohash_ok n (ro_bufsz dp) (length (ro_bufs dp)) (length cs) hp"
    and xs: "length xs = n"
  shows "\<exists>r. dt_rodata_compare dp hp xs = Some r \<and> (r = 0 \<longleftrightarrow> take n (drop (rh_off hp) cs) = xs)"
proof -
  from rep obtain rest where c: "concat (ro_bufs dp) = map Some cs @ rest" and z: "0 < ro_bufsz dp"
    and len: "\<forall>buf \<in> set (ro_bufs dp). length buf = ro_bufsz dp" by (auto simp: rodata_rep_def chunk_rep_def)
  from hp have off: "rh_data hp \<le> ro_bufsz dp" "rh_buf hp < length (ro_bufs dp)"
    "rh_buf hp * ro_bufsz dp + rh_data hp = rh_off hp" "rh_off hp + n \<le> length cs" by (simp_all add: rohash_ok_def)
  have "dt_rodata_compare dp hp xs = c_memcmp (drop (rh_off hp) (concat (ro_bufs dp))) xs"
    unfolding dt_rodata_compare_def off(3) [symmetric] by (rule chunk_compare_concat [OF z len off(2,1)]) simp
  also have "drop (rh_off hp) (concat (ro_bufs dp)) = map Some (drop (rh_off hp) cs) @ rest"
    using off(4) by (simp add: c drop_map)
  finally show ?thesis using c_memcmp_bytes [of xs "drop (rh_off hp) cs" rest] xs off(4) by simp
qed

lemma rodata_scan_find:
  assumes "rodata_rep n dp cs" and "length xs = n"
    and "\<And>hp. hp \<in> set hps \<Longrightarrow> rohash_ok n (ro_bufsz dp) (length (ro_bufs dp)) (length cs) hp"
  shows "rodata_scan dp hps xs =
    Some (case find (\<lambda>hp. take n (drop (rh_off hp) cs) = xs) hps of None \<Rightarrow> - 1 | Some hp \<Rightarrow> int (rh_off hp))"
  using assms(3)
proof (induction hps)
  case Nil
  then show ?case by simp
next
  case (Cons hp hps)
  obtain r where "dt_rodata_compare dp hp xs = Some r" "r = 0 \<longleftrightarrow> take n (drop (rh_off hp) cs) = xs"
    using rodata_compare_rep [OF assms(1) _ assms(2), of hp] Cons.prems by auto
  then show ?case using Cons by (cases "r = 0") auto
qed

lemma rodata_hash_less: "rodata_rep n dp cs \<Longrightarrow> rodata_hash dp s < length (ro_hash dp)"
  by (simp add: rodata_rep_def rodata_hash_def)

definition rodata_find :: "nat \<Rightarrow> dt_rodata \<Rightarrow> u8 list \<Rightarrow> u8 list \<Rightarrow> dt_rohash option" where
  "rodata_find n dp cs xs = find (\<lambda>hp. take n (drop (rh_off hp) cs) = xs) (ro_hash dp ! rodata_hash dp xs)"

lemma rodata_chain_ok:
  assumes "rodata_rep n dp cs" and "hp \<in> set (ro_hash dp ! rodata_hash dp xs)"
  shows "rohash_ok n (ro_bufsz dp) (length (ro_bufs dp)) (length cs) hp"
  using assms rodata_hash_less [OF assms(1), of xs] by (auto simp: rodata_rep_def dest!: nth_mem)

lemma rodata_index_find:
  assumes "rodata_rep n dp cs" and "length xs = n"
  shows "dt_rodata_xindex dp xs (rodata_hash dp xs) =
    Some (case rodata_find n dp cs xs of None \<Rightarrow> - 1 | Some hp \<Rightarrow> int (rh_off hp))"
  using rodata_scan_find [OF assms rodata_chain_ok [OF assms(1)]] rodata_hash_less [OF assms(1)]
  by (simp add: dt_rodata_xindex_def rodata_find_def)

lemma rodata_findD:
  assumes "rodata_rep n dp cs" and "rodata_find n dp cs xs = Some hp"
  shows "rh_off hp + n \<le> length cs" and "take n (drop (rh_off hp) cs) = xs"
  using assms rodata_chain_ok [OF assms(1), of hp xs]
  by (auto simp: rodata_find_def rohash_ok_def dest: find_SomeD)

lemma rodata_find_append:
  assumes "rodata_rep n dp cs"
  shows "find (\<lambda>hp. take n (drop (rh_off hp) (cs @ ys)) = t) (ro_hash dp ! rodata_hash dp u) =
    find (\<lambda>hp. take n (drop (rh_off hp) cs) = t) (ro_hash dp ! rodata_hash dp u)"
proof (rule find_cong [OF refl])
  fix hp assume "hp \<in> set (ro_hash dp ! rodata_hash dp u)"
  then have "rh_off hp + n \<le> length cs" using rodata_chain_ok [OF assms] by (simp add: rohash_ok_def)
  then show "(take n (drop (rh_off hp) (cs @ ys)) = t) = (take n (drop (rh_off hp) cs) = t)" by simp
qed

lemma rodata_find_update:
  "ro_hash dp' = ro_hash dp \<Longrightarrow> ro_hashsz dp' = ro_hashsz dp \<Longrightarrow> rodata_find n dp' cs t = rodata_find n dp cs t"
  by (simp add: rodata_find_def rodata_hash_def)

section \<open>Insertion\<close>

lemma rodata_added_rep:
  fixes dp cs xs bufs ptr
  defines "hp \<equiv> \<lparr>rh_data = ro_ptr dp, rh_buf = length (ro_bufs dp) - 1, rh_off = ro_size dp, rh_len = length xs\<rparr>"
    and "h \<equiv> rodata_hash dp xs"
  defines "dp' \<equiv> dp\<lparr>ro_bufs := bufs, ro_ptr := ptr, ro_size := ro_size dp + length xs,
    ro_hash := (ro_hash dp)[h := hp # ro_hash dp ! h],
    ro_item_size := (if ro_item_size dp < length xs then length xs else ro_item_size dp)\<rparr>"
  assumes rep: "rodata_rep n dp cs" and n: "length xs = n"
    and new: "chunk_rep (ro_bufsz dp) bufs ptr (cs @ xs)" "0 < ptr" "length (ro_bufs dp) \<le> length bufs"
  shows "rodata_rep n dp' (cs @ xs)"
    and "rodata_find n dp' (cs @ xs) t = (if t = xs then Some hp else rodata_find n dp cs t)"
proof -
  have h: "h < length (ro_hash dp)" unfolding h_def by (rule rodata_hash_less [OF rep])
  have sz: "ro_size dp = length cs" "ro_bufs dp \<noteq> []" using rep by (auto simp: rodata_rep_def chunk_rep_def)
  have off: "length cs = (length (ro_bufs dp) - 1) * ro_bufsz dp + ro_ptr dp" "ro_ptr dp \<le> ro_bufsz dp"
    using rep by (auto simp: rodata_rep_def chunk_rep_def)
  have "length (ro_bufs dp) - 1 < length bufs" using new(3) sz by (cases "ro_bufs dp") auto
  then have hp: "rohash_ok n (ro_bufsz dp) (length bufs) (length (cs @ xs)) hp"
    using off sz n by (simp add: rohash_ok_def hp_def)
  have "rohash_ok n (ro_bufsz dp) (length bufs) (length (cs @ xs)) e"
    if "hps \<in> set ((ro_hash dp)[h := hp # ro_hash dp ! h])" "e \<in> set hps" for hps e
  proof -
    from that have "e = hp \<or> (\<exists>hps \<in> set (ro_hash dp). e \<in> set hps)"
      using h set_update_subset_insert [of "ro_hash dp" h "hp # ro_hash dp ! h"] by auto
    then show ?thesis using hp rep new(3) by (fastforce simp: rodata_rep_def rohash_ok_def)
  qed
  then show "rodata_rep n dp' (cs @ xs)"
    using rep new(1,2) sz n unfolding rodata_rep_def dp'_def by auto
  have at: "take n (drop (rh_off hp) (cs @ xs)) = xs" using n sz by (simp add: hp_def)
  have hash: "rodata_hash dp' t = rodata_hash dp t" by (simp add: rodata_hash_def dp'_def)
  have "rodata_find n dp' (cs @ xs) t =
      find (\<lambda>e. take n (drop (rh_off e) (cs @ xs)) = t) ((ro_hash dp)[h := hp # ro_hash dp ! h] ! rodata_hash dp t)"
    unfolding rodata_find_def hash by (simp add: dp'_def)
  also have "\<dots> = (if t = xs then Some hp else rodata_find n dp cs t)"
    using h at rodata_find_append [OF rep, of xs t t]
    by (cases "rodata_hash dp t = h") (auto simp: rodata_find_def h_def simp del: take_append drop_append)
  finally show "rodata_find n dp' (cs @ xs) t = (if t = xs then Some hp else rodata_find n dp cs t)" .
qed

lemma rodata_insert_rep:
  assumes rep: "rodata_rep n dp cs" and n: "length xs = n"
  shows "\<exists>r dp' mm' ys. dt_rodata_insert dp (Some xs) mm = Some (r, dp', mm') \<and> rodata_rep n dp' (cs @ ys) \<and>
    (\<forall>t. t \<noteq> xs \<longrightarrow> rodata_find n dp' (cs @ ys) t = rodata_find n dp cs t) \<and>
    r = (case rodata_find n dp' (cs @ ys) xs of None \<Rightarrow> - 1 | Some hp \<Rightarrow> int (rh_off hp)) \<and>
    (rodata_find n dp cs xs \<noteq> None \<longrightarrow> dp' = dp \<and> ys = []) \<and>
    (r = - 1 \<longrightarrow> ys = [] \<and> (None \<in> set mm \<or> length mm < 2 * n + 1))"
proof -
  note ins = dt_rodata_insert_def Let_def rodata_index_find [OF rep n]
  show ?thesis
  proof (cases "rodata_find n dp cs xs")
    case (Some hp)
    then have "dt_rodata_insert dp (Some xs) mm = Some (int (rh_off hp), dp, mm)" by (simp add: ins)
    then show ?thesis using rep Some by (intro exI conjI) (assumption, auto)
  next
    case fresh: None
    show ?thesis
    proof (cases "c_alloc mm")
      case (Pair a mm1)
      show ?thesis
      proof (cases a)
        case None
        then have "dt_rodata_insert dp (Some xs) mm = Some (- 1, dp, mm1)" using fresh Pair by (simp add: ins)
        moreover have "None \<in> set mm \<or> length mm < 2 * n + 1" using Pair None by (cases mm) auto
        ultimately show ?thesis using rep fresh by (intro exI conjI) (assumption, auto)
      next
        case (Some p)
        then have mm: "mm = Some p # mm1" using Pair by (cases mm) auto
        from rep have "chunk_rep (ro_bufsz dp) (ro_bufs dp) (ro_ptr dp) cs" by (simp add: rodata_rep_def)
        from chunk_copyin_rep [OF this, of xs mm1] obtain rc bufs ptr mm2 where
          copy: "chunk_copyin (ro_bufsz dp) (ro_bufs dp) (ro_ptr dp) xs mm1 = Some (rc, bufs, ptr, mm2)"
          and post: "rc = 0 \<and> chunk_rep (ro_bufsz dp) bufs ptr (cs @ xs) \<and> length (ro_bufs dp) \<le> length bufs \<and>
            (xs \<noteq> [] \<longrightarrow> 0 < ptr) \<or> rc = - 1 \<and>
            chunk_rep (ro_bufsz dp) bufs ptr cs \<and> ptr = ro_ptr dp \<and> length bufs = length (ro_bufs dp) \<and>
            (None \<in> set mm1 \<or> length mm1 < 2 * length xs)" by blast
        have "xs \<noteq> []" using rep n by (auto simp: rodata_rep_def)
        show ?thesis
        proof (cases "rc = - 1")
          case True
          let ?dp = "dp\<lparr>ro_bufs := bufs, ro_ptr := ptr\<rparr>"
          have "dt_rodata_insert dp (Some xs) mm = Some (- 1, ?dp, mm2)"
            using fresh Pair Some copy True by (simp add: ins dt_rodata_copyin_def)
          moreover have "rodata_rep n ?dp (cs @ [])" using rep post True by (auto simp: rodata_rep_def)
          moreover have "rodata_find n ?dp cs t = rodata_find n dp cs t" for t by (rule rodata_find_update) simp_all
          ultimately show ?thesis using fresh post True mm n by (intro exI conjI) (assumption+, auto)
        next
          case False
          with post \<open>xs \<noteq> []\<close> have new: "chunk_rep (ro_bufsz dp) bufs ptr (cs @ xs)" "0 < ptr" "length (ro_bufs dp) \<le> length bufs"
            by simp_all
          note added = rodata_added_rep [OF rep n new]
          let ?hp = "\<lparr>rh_data = ro_ptr dp, rh_buf = length (ro_bufs dp) - 1, rh_off = ro_size dp, rh_len = length xs\<rparr>"
            and ?h = "rodata_hash dp xs"
          let ?dp = "dp\<lparr>ro_bufs := bufs, ro_ptr := ptr, ro_size := ro_size dp + length xs,
            ro_hash := (ro_hash dp)[?h := ?hp # ro_hash dp ! ?h],
            ro_item_size := (if ro_item_size dp < length xs then length xs else ro_item_size dp)\<rparr>"
          have "dt_rodata_insert dp (Some xs) mm = Some (int (ro_size dp), ?dp, mm2)"
            using fresh Pair Some copy False by (simp add: ins dt_rodata_copyin_def)
          with added fresh show ?thesis
            by (intro exI [of _ "int (ro_size dp)"] exI [of _ ?dp] exI [of _ mm2] exI [of _ xs] conjI) auto
        qed
      qed
    qed
  qed
qed

section \<open>The read-only data as an interning store\<close>

definition ro_enc :: "u8 list option \<Rightarrow> u8 list" where
  "ro_enc ptr = (case ptr of None \<Rightarrow> [] | Some xs \<Rightarrow> xs)"

definition ro_item :: "nat \<Rightarrow> u8 list option \<Rightarrow> bool" where
  "ro_item n ptr = (case ptr of None \<Rightarrow> False | Some xs \<Rightarrow> length xs = n)"

lemma rodata_index_rep:
  assumes "rodata_rep n dp cs" and "length xs = n"
  shows "dt_rodata_index dp (Some xs) = Some (case rodata_find n dp cs xs of None \<Rightarrow> - 1 | Some hp \<Rightarrow> int (rh_off hp))"
  using rodata_index_find [OF assms] by (simp add: dt_rodata_index_def)

interpretation rodata: interning dt_rodata_insert dt_rodata_index "rodata_rep n" ro_enc "ro_item n" for n
proof
  fix dp :: dt_rodata and cs k mm assume rep: "rodata_rep n dp cs" and "ro_item n k"
  then obtain xs where k: "k = Some xs" "length xs = n" by (auto simp: ro_item_def split: option.splits)
  from rodata_insert_rep [OF rep k(2), of mm] obtain r dp' mm' ys where
    ins: "dt_rodata_insert dp (Some xs) mm = Some (r, dp', mm')" "rodata_rep n dp' (cs @ ys)"
    "\<forall>t. t \<noteq> xs \<longrightarrow> rodata_find n dp' (cs @ ys) t = rodata_find n dp cs t"
    "r = (case rodata_find n dp' (cs @ ys) xs of None \<Rightarrow> - 1 | Some hp \<Rightarrow> int (rh_off hp))"
    "rodata_find n dp cs xs \<noteq> None \<longrightarrow> dp' = dp \<and> ys = []" "r = - 1 \<longrightarrow> ys = []" by blast
  have "r = - 1 \<and> ys = [] \<or> 0 \<le> r \<and> take (length (ro_enc k)) (drop (nat r) (cs @ ys)) = ro_enc k"
    using ins(4,6) rodata_findD(2) [OF ins(2), of xs] k by (auto simp: ro_enc_def split: option.splits)
  moreover have "dt_rodata_index dp' k' = dt_rodata_index dp k'"
    if "ro_item n k'" "dt_rodata_index dp k' \<noteq> Some (- 1)" for k'
  proof -
    from that(1) obtain t where t: "k' = Some t" "length t = n" by (auto simp: ro_item_def split: option.splits)
    with that(2) have "rodata_find n dp cs t \<noteq> None" using rodata_index_rep [OF rep t(2)] by (auto split: option.splits)
    then have "rodata_find n dp' (cs @ ys) t = rodata_find n dp cs t" using ins(3,5) by (cases "t = xs") auto
    with t rodata_index_rep [OF ins(2) t(2)] rodata_index_rep [OF rep t(2)] show ?thesis by simp
  qed
  moreover have "dt_rodata_index dp' k = Some r" using rodata_index_rep [OF ins(2) k(2)] k ins(4) by simp
  ultimately show "\<exists>r t' mm' ys. dt_rodata_insert dp k mm = Some (r, t', mm') \<and> rodata_rep n t' (cs @ ys) \<and>
      dt_rodata_index t' k = Some r \<and>
      (r = - 1 \<and> ys = [] \<or> 0 \<le> r \<and> take (length (ro_enc k)) (drop (nat r) (cs @ ys)) = ro_enc k) \<and>
      (\<forall>k'. ro_item n k' \<longrightarrow> dt_rodata_index dp k' \<noteq> Some (- 1) \<longrightarrow> dt_rodata_index t' k' = dt_rodata_index dp k')"
    using ins(1,2) k(1) by blast
next
  fix dp :: dt_rodata and cs k k' assume "ro_item n k" "ro_item n k'" "ro_enc k = ro_enc k'"
  then show "dt_rodata_index dp k = dt_rodata_index dp k'"
    by (auto simp: ro_enc_def ro_item_def split: option.splits)
qed

section \<open>Properties\<close>

lemma rodata_create_rep:
  assumes "0 < bufsz" and "0 < n" and "mm = Some a # Some b # Some c # Some d # mm'"
  shows "\<exists>dp. dt_rodata_create bufsz mm = Some (Some dp) \<and> rodata_rep n dp [0]"
proof -
  define dp where "dp = \<lparr>ro_hash = replicate dtrace_strbuckets ([] :: dt_rohash list), ro_hashsz = dtrace_strbuckets,
    ro_bufs = [Some 0 # replicate (bufsz - 1) None], ro_ptr = 1, ro_bufsz = bufsz, ro_size = 1, ro_item_size = 0\<rparr>"
  have drop: "drop (Suc 0) (replicate bufsz (None :: u8 option)) = replicate (bufsz - 1) None" by simp
  have "dt_rodata_create bufsz mm = Some (Some dp)" using assms
    by (simp add: dt_rodata_create_def dt_rodata_grow_def chunk_grow_def chunk_put_def dp_def drop del: drop_replicate)
  moreover have "rodata_rep n dp [0]"
    using assms(1,2) by (auto simp: rodata_rep_def chunk_rep_def dp_def dtrace_strbuckets_def)
  ultimately show ?thesis by blast
qed

lemma rodata_write_rep:
  assumes "rodata_rep n dp cs" and "length cs \<le> length dst"
  shows "dt_rodata_write dp dt_rodata_copy dst = Some (int (length cs), cs @ drop (length cs) dst)"
proof -
  have "dt_rodata_copy = chunk_copyout" by (simp add: dt_rodata_copy_def fun_eq_iff)
  moreover have "cs \<noteq> []" using assms(1) by (auto simp: rodata_rep_def chunk_rep_def)
  ultimately show ?thesis using assms chunk_write_copyout [of "ro_bufsz dp" "ro_bufs dp" "ro_ptr dp" cs dst]
    by (auto simp: dt_rodata_write_def rodata_rep_def)
qed

text \<open>
  C17. The read-only data end to end.  Create a store, insert any list of blocks that all have the same length, and
  write the store to a buffer of \<^verbatim>\<open>dt_rodata_size\<close> bytes: every step returns, every offset that an insertion returned
  is the position of that block in the buffer, equal blocks share one offset and different ones
  do not, and \<^verbatim>\<open>dt_rodata_max_item_size\<close> bounds the length of every stored block.
\<close>

theorem rodata_stores_items:
  assumes "0 < bufsz" and "0 < n" and "4 \<le> length mm" and "None \<notin> set mm" and "\<forall>xs \<in> set items. length xs = n"
  shows "\<exists>dp rs dp' mm'' out. dt_rodata_create bufsz mm = Some (Some dp) \<and>
    ins_all dt_rodata_insert dp (map Some items) mm' = Some (rs, dp', mm'') \<and> length rs = length items \<and>
    dt_rodata_write dp' dt_rodata_copy (replicate (dt_rodata_size dp') 0) = Some (int (dt_rodata_size dp'), out) \<and>
    length out = dt_rodata_size dp' \<and> dt_rodata_max_item_size dp' \<le> n \<and>
    (\<forall>j < length items. rs ! j \<noteq> - 1 \<longrightarrow> 0 \<le> rs ! j \<and> take n (drop (nat (rs ! j)) out) = items ! j) \<and>
    (\<forall>i < length items. \<forall>j < length items. rs ! i \<noteq> - 1 \<longrightarrow> rs ! j \<noteq> - 1 \<longrightarrow>
       (rs ! i = rs ! j \<longleftrightarrow> items ! i = items ! j))"
proof -
  obtain a b c d mmr where mm: "mm = Some a # Some b # Some c # Some d # mmr"
  proof -
    obtain w x y z ws where "mm = w # x # y # z # ws" using assms(3) by (auto simp: Suc_le_length_iff numeral_eq_Suc)
    with assms(4) that show thesis by (cases w; cases x; cases y; cases z) auto
  qed
  obtain dp where dp: "dt_rodata_create bufsz mm = Some (Some dp)" "rodata_rep n dp [0]"
    using rodata_create_rep [OF assms(1,2) mm] by blast
  have adm: "ro_item n k" if "k \<in> set (map Some items)" for k using that assms(5) by (auto simp: ro_item_def)
  from rodata.ins_all_offsets [OF dp(2) adm, of "map Some items" mm'] obtain rs dp' mm'' xs where
    all: "ins_all dt_rodata_insert dp (map Some items) mm' = Some (rs, dp', mm'')" "rodata_rep n dp' ([0] @ xs)"
    "length rs = length items"
    "\<forall>j < length items. rs ! j = - 1 \<or> dt_rodata_index dp' (map Some items ! j) = Some (rs ! j) \<and> 0 \<le> rs ! j \<and>
       take (length (ro_enc (map Some items ! j))) (drop (nat (rs ! j)) ([0] @ xs)) = ro_enc (map Some items ! j)" by auto
  have size: "dt_rodata_size dp' = length ([0] @ xs)" and "ro_item_size dp' \<in> {0, n}"
    using all(2) by (simp_all add: rodata_rep_def dt_rodata_size_def)
  moreover have "take n (drop (nat (rs ! j)) ([0] @ xs)) = items ! j \<and> 0 \<le> rs ! j" if "j < length items" "rs ! j \<noteq> - 1" for j
    using all(4) that assms(5) by (auto simp: ro_enc_def)
  moreover have "rs ! i = rs ! j \<longleftrightarrow> items ! i = items ! j"
    if "i < length items" "j < length items" "rs ! i \<noteq> - 1" "rs ! j \<noteq> - 1" for i j
  proof -
    have "rs ! i = rs ! j \<longleftrightarrow> ro_enc (map Some items ! i) = ro_enc (map Some items ! j)"
      by (rule rodata.ins_all_shared [OF dp(2) adm _ all(1)])
        (use that in \<open>auto simp: ro_item_def ro_enc_def split: option.splits\<close>)
    with that show ?thesis by (simp add: ro_enc_def)
  qed
  moreover have "dt_rodata_write dp' dt_rodata_copy (replicate (dt_rodata_size dp') 0) = Some (int (length ([0] @ xs)), [0] @ xs)"
    using rodata_write_rep [OF all(2), of "replicate (dt_rodata_size dp') 0"] size by simp
  ultimately show ?thesis using dp(1) all(1,3)
    by (intro exI [of _ dp] exI [of _ rs] exI [of _ dp'] exI [of _ mm''] exI [of _ "[0] @ xs"])
      (auto simp: dt_rodata_max_item_size_def)
qed

theorem rodata_stores_items_witness:
  "\<exists>dp rs dp' mm''. dt_rodata_create 8 [Some 1, Some 2, Some 3, Some 4] = Some (Some dp) \<and>
    ins_all dt_rodata_insert dp (map Some [[97, 98], [0, 1], [97, 98]]) (replicate 9 (Some 1)) = Some (rs, dp', mm'')"
  using rodata_stores_items [of 8 2 "[Some 1, Some 2, Some 3, Some 4]" "[[97, 98], [0, 1], [97, 98]]" "replicate 9 (Some 1)"]
  by auto


end
