(* ===== verification/BpfRuntime.thy ===== *)
theory BpfRuntime
  imports Prelude
begin

text \<open>
  The support routines that are linked into every probe program, \<^verbatim>\<open>bpf/*.c\<close>: choosing the bucket of a quantized
  value, finding the storage of an aggregation and of a dynamic variable, and reporting an error.

  The map helpers of the kernel are parameters: a record \<open>bpf_map_ops\<close> of the calls the code makes.  \<open>bpf_map_laws\<close> is
  what the kernel documents of them; properties that need it have it as a hypothesis.  Whether an
  update succeeds is left open.
\<close>

section \<open>Map helpers\<close>

datatype bpf_flag = BPF_ANY | BPF_NOEXIST

text \<open>
  \<open>bm_store m k v\<close> is the map after \<open>v\<close> was stored through the pointer that a lookup of \<open>k\<close> returned.
\<close>

record ('m, 'k, 'v) bpf_map_ops =
  bm_lookup :: "'m \<Rightarrow> 'k \<Rightarrow> 'v option"
  bm_update :: "'m \<Rightarrow> 'k \<Rightarrow> 'v \<Rightarrow> bpf_flag \<Rightarrow> int \<times> 'm"
  bm_delete :: "'m \<Rightarrow> 'k \<Rightarrow> 'm"
  bm_store :: "'m \<Rightarrow> 'k \<Rightarrow> 'v \<Rightarrow> 'm"

definition bpf_map_laws :: "('m, 'k, 'v) bpf_map_ops \<Rightarrow> bool" where
  "bpf_map_laws ops \<longleftrightarrow>
     (\<forall>m k v flag r m'. bm_update ops m k v flag = (r, m') \<longrightarrow>
        r \<le> 0 \<and> (flag = BPF_NOEXIST \<and> bm_lookup ops m k \<noteq> None \<longrightarrow> r < 0) \<and>
        bm_lookup ops m' = (if r < 0 then bm_lookup ops m else (bm_lookup ops m)(k \<mapsto> v))) \<and>
     (\<forall>m k. bm_lookup ops (bm_delete ops m k) = (bm_lookup ops m)(k := None)) \<and>
     (\<forall>m k v. bm_lookup ops m k \<noteq> None \<longrightarrow> bm_lookup ops (bm_store ops m k v) = (bm_lookup ops m)(k \<mapsto> v))"

lemma bpf_map_lawsD:
  assumes "bpf_map_laws ops"
  shows "bm_update ops m k v flag = (r, m') \<Longrightarrow> r \<le> 0"
    and "bm_update ops m k v BPF_NOEXIST = (r, m') \<Longrightarrow> bm_lookup ops m k \<noteq> None \<Longrightarrow> r < 0"
    and "bm_update ops m k v flag = (r, m') \<Longrightarrow> r < 0 \<Longrightarrow> bm_lookup ops m' = bm_lookup ops m"
    and "bm_update ops m k v flag = (r, m') \<Longrightarrow> \<not> r < 0 \<Longrightarrow> bm_lookup ops m' = (bm_lookup ops m)(k \<mapsto> v)"
    and "bm_lookup ops (bm_delete ops m k) = (bm_lookup ops m)(k := None)"
    and "bm_lookup ops m k \<noteq> None \<Longrightarrow> bm_lookup ops (bm_store ops m k v) = (bm_lookup ops m)(k \<mapsto> v)"
  using assms unfolding bpf_map_laws_def by metis+

text \<open>A map with room for \<open>n\<close> entries meets the laws.\<close>

definition bounded_map_ops :: "nat \<Rightarrow> (('k \<times> 'v) list, 'k, 'v) bpf_map_ops" where
  "bounded_map_ops n = \<lparr>
     bm_lookup = map_of,
     bm_update = (\<lambda>m k v flag.
       if map_of m k \<noteq> None then (if flag = BPF_NOEXIST then (- 17, m) else (0, (k, v) # m))
       else if length (remdups (map fst m)) < n then (0, (k, v) # m) else (- 7, m)),
     bm_delete = (\<lambda>m k. filter (\<lambda>e. fst e \<noteq> k) m),
     bm_store = (\<lambda>m k v. (k, v) # m)\<rparr>"

lemma map_of_filter_key: "map_of (filter (\<lambda>e. fst e \<noteq> k) m) = (map_of m)(k := None)"
  by (induction m) (auto simp: fun_eq_iff)

lemma bounded_map_laws: "bpf_map_laws (bounded_map_ops n)"
  by (auto simp: bpf_map_laws_def bounded_map_ops_def map_of_filter_key fun_eq_iff split: if_splits)

section \<open>Buckets of quantized values\<close>

text \<open>An \<^verbatim>\<open>int64_t\<close> is a word, read with \<^term>\<open>sint\<close>; the result is a small integer.\<close>

definition qbin_step :: "u64 \<Rightarrow> nat \<Rightarrow> int \<times> u64 \<Rightarrow> int \<times> u64" where
  "qbin_step m k ot = (case ot of (off, tmp) \<Rightarrow> if tmp AND m \<noteq> 0 then (off + int k, drop_bit k tmp) else (off, tmp))"

definition dt_agg_qbin :: "u64 \<Rightarrow> int" where
  "dt_agg_qbin val =
     (if val = 0 then 63
      else if val = 0x8000000000000000 then 0
      else
        let tmp = (if sint val < 0 then val * (- 1) else val);
            (off, tmp) = qbin_step 0x7fffffff00000000 32 (1, tmp);
            (off, tmp) = qbin_step 0x00000000ffff0000 16 (off, tmp);
            (off, tmp) = qbin_step 0x000000000000ff00 8 (off, tmp);
            (off, tmp) = qbin_step 0x00000000000000f0 4 (off, tmp);
            (off, tmp) = qbin_step 0x000000000000000c 2 (off, tmp);
            off = (if tmp AND 2 \<noteq> 0 then off + 1 else off);
            off = (if sint val < 0 then off * (- 1) else off)
        in off + 63)"

text \<open>\<^verbatim>\<open>DTRACE_QUANTIZE_BUCKETVAL\<close>: the value a bucket stands for.\<close>

definition DTRACE_QUANTIZE_ZEROBUCKET :: int where "DTRACE_QUANTIZE_ZEROBUCKET = 63"

definition DTRACE_QUANTIZE_NBUCKETS :: int where "DTRACE_QUANTIZE_NBUCKETS = 127"

definition DTRACE_QUANTIZE_BUCKETVAL :: "int \<Rightarrow> int" where
  "DTRACE_QUANTIZE_BUCKETVAL buck =
     (if buck < DTRACE_QUANTIZE_ZEROBUCKET then - (2 ^ nat (DTRACE_QUANTIZE_ZEROBUCKET - 1 - buck))
      else if buck = DTRACE_QUANTIZE_ZEROBUCKET then 0
      else 2 ^ nat (buck - DTRACE_QUANTIZE_ZEROBUCKET - 1))"

text \<open>\<open>base\<close> is an \<^verbatim>\<open>int32_t\<close>; the difference wraps and is then divided as an unsigned number.\<close>

definition dt_agg_lqbin :: "u64 \<Rightarrow> u32 \<Rightarrow> u64 \<Rightarrow> u64 \<Rightarrow> u64" where
  "dt_agg_lqbin val base levels step =
     (if step = 0 \<or> sint val < sint base then 0
      else
        let level = (val - scast base) div step;
            level = (if level > levels then levels else level)
        in level + 1)"

section \<open>Aggregation storage\<close>


definition le32 :: "u32 \<Rightarrow> u8 list" where
  "le32 w = [ucast w, ucast (drop_bit 8 w), ucast (drop_bit 16 w), ucast (drop_bit 24 w)]"



section \<open>Dynamic variables\<close>

definition dt_tlskey :: "u64 \<Rightarrow> u32 \<Rightarrow> u32 \<Rightarrow> u32 \<Rightarrow> u64" where
  "dt_tlskey pid_tgid cpu ncpus vid =
     (let key = pid_tgid AND 0x00000000ffffffff;
          key = (if key = 0 then ucast cpu else key + ucast ncpus);
          key = key + 1
      in push_bit 32 (key AND 0x7fffffff) OR ucast vid)"

record ('s, 'd, 't) dvar_maps =
  dv_state :: 's
  dvars :: 'd
  tuples :: 't

definition DT_STATE_DYNVAR_DROPS :: u32 where "DT_STATE_DYNVAR_DROPS = 6"

definition dt_no_dvar :: "('s, u32, u32) bpf_map_ops \<Rightarrow> ('s, 'd, 't) dvar_maps \<Rightarrow> ('s, 'd, 't) dvar_maps" where
  "dt_no_dvar os st =
     (case bm_lookup os (dv_state st) DT_STATE_DYNVAR_DROPS of
        None \<Rightarrow> st
      | Some n \<Rightarrow> st\<lparr>dv_state := bm_store os (dv_state st) DT_STATE_DYNVAR_DROPS (n + 1)\<rparr>)"

text \<open>The result is the key of the variable whose storage is returned, or a null pointer.\<close>

definition dt_get_dvar :: "('s, u32, u32) bpf_map_ops \<Rightarrow> ('d, u64, 'v) bpf_map_ops \<Rightarrow>
    ('s, 'd, 't) dvar_maps \<Rightarrow> u64 \<Rightarrow> u64 \<Rightarrow> u64 \<Rightarrow> 'v \<Rightarrow> u64 option \<times> ('s, 'd, 't) dvar_maps" where
  "dt_get_dvar os od st key store nval dflt =
     (if store \<noteq> 0 \<and> nval = 0 then (None, st\<lparr>dvars := bm_delete od (dvars st) key\<rparr>)
      else if bm_lookup od (dvars st) key \<noteq> None then (Some key, st)
      else if store = 0 then (None, st)
      else
        (case bm_update od (dvars st) key dflt BPF_ANY of
           (r, m) \<Rightarrow>
             if r < 0 then (None, dt_no_dvar os (st\<lparr>dvars := m\<rparr>))
             else if bm_lookup od m key \<noteq> None then (Some key, st\<lparr>dvars := m\<rparr>)
             else (None, dt_no_dvar os (st\<lparr>dvars := m\<rparr>))))"

definition dt_get_tvar :: "('s, u32, u32) bpf_map_ops \<Rightarrow> ('d, u64, 'v) bpf_map_ops \<Rightarrow> u64 \<Rightarrow> u32 \<Rightarrow> u32 \<Rightarrow>
    ('s, 'd, 't) dvar_maps \<Rightarrow> u32 \<Rightarrow> u64 \<Rightarrow> u64 \<Rightarrow> 'v \<Rightarrow> u64 option \<times> ('s, 'd, 't) dvar_maps" where
  "dt_get_tvar os od pid_tgid cpu ncpus st vid store nval dflt =
     dt_get_dvar os od st (dt_tlskey pid_tgid cpu ncpus vid) store nval dflt"

text \<open>\<open>adr\<close> gives the address of the value of a tuple, which serves as the key of the variable.\<close>

definition dt_get_assoc :: "('s, u32, u32) bpf_map_ops \<Rightarrow> ('d, u64, 'v) bpf_map_ops \<Rightarrow> ('t, u8 list, u64) bpf_map_ops \<Rightarrow>
    ('t \<Rightarrow> u8 list \<Rightarrow> u64) \<Rightarrow> ('s, 'd, 't) dvar_maps \<Rightarrow> u32 \<Rightarrow> u8 list \<Rightarrow> u64 \<Rightarrow> u64 \<Rightarrow> 'v \<Rightarrow>
    (u64 option \<times> ('s, 'd, 't) dvar_maps) option" where
  "dt_get_assoc os od ot adr st vid tuple store nval dflt = do {
     c_assert (4 \<le> length tuple);
     let tuple = le32 vid @ drop 4 tuple;
     case bm_lookup ot (tuples st) tuple of
       None \<Rightarrow>
         if store = 0 \<or> nval = 0 then Some (None, st)
         else
           (case bm_update ot (tuples st) tuple 0 BPF_ANY of
              (r, m) \<Rightarrow>
                let st = st\<lparr>tuples := m\<rparr>
                in if r < 0 then Some (None, dt_no_dvar os st)
                   else if bm_lookup ot m tuple = None then Some (None, dt_no_dvar os st)
                   else
                     let val = adr m tuple
                     in Some (dt_get_dvar os od (st\<lparr>tuples := bm_store ot m tuple val\<rparr>) val store nval dflt))
     | Some val \<Rightarrow>
         Some (dt_get_dvar os od
           (if store \<noteq> 0 \<and> nval = 0 then st\<lparr>tuples := bm_delete ot (tuples st) tuple\<rparr> else st) val store nval dflt)
   }"

section \<open>Strings and errors\<close>

text \<open>\<open>read_str\<close> is what \<^verbatim>\<open>bpf_probe_read_str\<close> returns; \<^verbatim>\<open>set_not_neg_bound\<close> turns a negative length into zero.\<close>

definition dt_strlen :: "int \<Rightarrow> int" where
  "dt_strlen read_str = (let len = read_str - 1 in if len < 0 then 0 else len)"

record dt_mstate =
  ms_prid :: u32
  ms_stid :: u32
  ms_fault :: u64
  ms_argv :: "u64 list"
  ms_saved_argv :: "u64 list"

definition DTRACE_ERROR_ID :: u32 where "DTRACE_ERROR_ID = 3"

text \<open>\<open>dt_error\<close> is the generated program of the ERROR probe.\<close>

definition dt_probe_error :: "(dt_mstate \<Rightarrow> dt_mstate) \<Rightarrow> dt_mstate \<Rightarrow> u64 \<Rightarrow> u64 \<Rightarrow> u64 \<Rightarrow> dt_mstate" where
  "dt_probe_error dt_error mst pc fault illval =
     (let oldprid = ms_prid mst;
          mst = mst\<lparr>ms_saved_argv := take 6 (ms_argv mst)\<rparr>;
          mst = mst\<lparr>ms_argv := [0, ucast (ms_prid mst), ucast (ms_stid mst), pc, fault, illval] @ drop 6 (ms_argv mst)\<rparr>;
          mst = mst\<lparr>ms_prid := DTRACE_ERROR_ID\<rparr>;
          mst = dt_error mst;
          mst = mst\<lparr>ms_prid := oldprid\<rparr>;
          mst = mst\<lparr>ms_argv := ms_saved_argv mst @ drop 6 (ms_argv mst)\<rparr>
      in mst\<lparr>ms_fault := fault\<rparr>)"

section \<open>The bucket of a value\<close>

text \<open>After some steps the offset counts the bits that were shifted out, and few bits are left.\<close>

definition qbin_inv :: "nat \<Rightarrow> nat \<Rightarrow> int \<times> u64 \<Rightarrow> bool" where
  "qbin_inv n j ot \<longleftrightarrow> (\<exists>d. fst ot = 1 + int d \<and> unat (snd ot) = n div 2 ^ d) \<and> 0 < unat (snd ot) \<and> unat (snd ot) < 2 ^ j"

lemma and_high_bits:
  fixes tmp :: u64
  assumes "m = push_bit k (mask (j - k))" and "unat tmp < 2 ^ j" and "k \<le> j"
  shows "tmp AND m \<noteq> 0 \<longleftrightarrow> 2 ^ k \<le> unat tmp"
proof -
  have bits: "bit tmp i \<Longrightarrow> i < j" for i
  proof (rule ccontr)
    assume "bit tmp i" "\<not> i < j"
    then have "bit (unat tmp) i" by (simp add: bit_simps bit_imp_le_length)
    moreover have "take_bit j (unat tmp) = unat tmp" using assms(2) by (simp add: take_bit_nat_eq_self)
    ultimately show False using \<open>\<not> i < j\<close> by (metis bit_take_bit_iff)
  qed
  have "tmp AND m = push_bit k (drop_bit k tmp)"
    unfolding assms(1) by (rule bit_eqI) (use assms(3) bits in \<open>auto simp: bit_simps dest: bits\<close>)
  also have "\<dots> = 0 \<longleftrightarrow> drop_bit k tmp = 0"
  proof
    assume "push_bit k (drop_bit k tmp) = 0"
    then have "bit (push_bit k (drop_bit k tmp)) (k + i) = False" for i by simp
    then show "drop_bit k tmp = 0" using bit_imp_le_length [of tmp] by (intro bit_eqI) (auto simp: bit_simps)
  qed simp
  also have "drop_bit k tmp = 0 \<longleftrightarrow> unat tmp div 2 ^ k = 0"
    by (metis drop_bit_eq_div unat_eq_zero unat_drop_bit_eq)
  finally show ?thesis by (auto simp: div_eq_0_iff)
qed

lemma qbin_step_inv:
  assumes "qbin_inv n j ot" and "m = push_bit k (mask (j - k))" and "k \<le> j" and "j \<le> 2 * k"
  shows "qbin_inv n k (qbin_step m k ot)"
proof -
  obtain off tmp where ot: "ot = (off, tmp)" by (cases ot)
  from assms(1) obtain d where d: "off = 1 + int d" "unat tmp = n div 2 ^ d" "0 < unat tmp" "unat tmp < 2 ^ j"
    by (auto simp: qbin_inv_def ot)
  note high = and_high_bits [OF assms(2) d(4) assms(3)]
  show ?thesis
  proof (cases "2 ^ k \<le> unat tmp")
    case True
    have drop: "unat (drop_bit k tmp) = unat tmp div 2 ^ k" by (metis unat_drop_bit_eq drop_bit_eq_div)
    have "(2 :: nat) ^ j \<le> 2 ^ (k + k)" using assms(4) by (intro power_increasing) simp_all
    then have "unat tmp < 2 ^ k * 2 ^ k" using d(4) by (simp add: power_add)
    then have "unat tmp div 2 ^ k < 2 ^ k" by (simp add: div_less_iff_less_mult)
    moreover have "0 < unat tmp div 2 ^ k" using True by (simp add: div_greater_zero_iff)
    moreover have "unat tmp div 2 ^ k = n div 2 ^ (d + k)" by (simp add: d(2) div_mult2_eq power_add)
    ultimately show ?thesis using high True drop d(1)
      by (auto simp: qbin_inv_def qbin_step_def ot intro!: exI [of _ "d + k"])
  next
    case False
    then show ?thesis using high d by (auto simp: qbin_inv_def qbin_step_def ot)
  qed
qed

lemma qbin_magnitude:
  fixes tmp :: u64
  assumes "0 < unat tmp" and "unat tmp < 2 ^ 63"
  defines "st \<equiv> qbin_step 0xc 2 (qbin_step 0xf0 4 (qbin_step 0xff00 8 (qbin_step 0xffff0000 16
    (qbin_step 0x7fffffff00000000 32 (1, tmp)))))"
  shows "\<exists>d. (if snd st AND 2 \<noteq> 0 then fst st + 1 else fst st) = 1 + int d \<and> 2 ^ d \<le> unat tmp \<and> unat tmp < 2 ^ Suc d"
proof -
  have "qbin_inv (unat tmp) 63 (1, tmp)" using assms by (auto simp: qbin_inv_def)
  from qbin_step_inv [OF this, of "0x7fffffff00000000" 32]
  have "qbin_inv (unat tmp) 32 (qbin_step 0x7fffffff00000000 32 (1, tmp))" by (simp add: mask_eq_exp_minus_1)
  from qbin_step_inv [OF this, of "0xffff0000" 16]
  have "qbin_inv (unat tmp) 16 (qbin_step 0xffff0000 16 (qbin_step 0x7fffffff00000000 32 (1, tmp)))" by (simp add: mask_eq_exp_minus_1)
  from qbin_step_inv [OF qbin_step_inv [OF qbin_step_inv [OF this, of "0xff00" 8], of "0xf0" 4], of "0xc" 2]
  have inv: "qbin_inv (unat tmp) 2 st" by (simp add: mask_eq_exp_minus_1 st_def)
  then obtain d where d: "fst st = 1 + int d" "unat (snd st) = unat tmp div 2 ^ d" "0 < unat (snd st)" "unat (snd st) < 2 ^ 2"
    by (auto simp: qbin_inv_def)
  have two: "snd st AND 2 \<noteq> 0 \<longleftrightarrow> 2 \<le> unat (snd st)"
    using and_high_bits [of 2 1 2 "snd st"] d(4) by (simp add: mask_eq_exp_minus_1)
  have split: "unat tmp = unat tmp div 2 ^ d * 2 ^ d + unat tmp mod 2 ^ d" "unat tmp mod 2 ^ d < 2 ^ d"
    by (rule div_mult_mod_eq [symmetric]) simp
  show ?thesis
  proof (cases "2 \<le> unat (snd st)")
    case True
    then have "2 * 2 ^ d \<le> unat tmp div 2 ^ d * 2 ^ d" "unat tmp div 2 ^ d * 2 ^ d \<le> 3 * 2 ^ d"
      using d(2,4) by (intro mult_right_mono; simp)+
    then have "2 ^ Suc d \<le> unat tmp" "unat tmp < 2 ^ Suc (Suc d)" unfolding power_Suc using split by linarith+
    then show ?thesis using True two d(1) by (intro exI [of _ "Suc d"]) simp
  next
    case False
    then have "unat tmp div 2 ^ d = 1" using d(2,3) by simp
    then have "unat tmp = 2 ^ d + unat tmp mod 2 ^ d" using split(1) by simp
    then have "2 ^ d \<le> unat tmp" "unat tmp < 2 ^ Suc d" unfolding power_Suc using split(2) by linarith+
    then show ?thesis using False two d(1) by (intro exI [of _ d]) simp
  qed
qed

section \<open>Keys of thread-local variables\<close>

text \<open>What tells threads apart: the thread, or for the idle threads the CPU.\<close>

definition tls_thread :: "u64 \<Rightarrow> u32 \<Rightarrow> u32 \<Rightarrow> nat" where
  "tls_thread pid_tgid cpu ncpus =
     (let pid = unat pid_tgid mod 2 ^ 32 in if pid = 0 then unat cpu else pid + unat ncpus)"

lemma unat_and_mask: "unat ((a :: u64) AND mask n) = unat a mod 2 ^ n"
  by (metis take_bit_eq_mask take_bit_eq_mod unsigned_take_bit_eq)

lemma unat_u32_less: "unat (a :: u32) < 2 ^ 32"
  by (rule order_less_le_trans [OF unsigned_less]) simp

lemma tlskey_val:
  assumes "tls_thread pid_tgid cpu ncpus + 1 < 2 ^ 31"
  shows "unat (dt_tlskey pid_tgid cpu ncpus vid) = (tls_thread pid_tgid cpu ncpus + 1) * 2 ^ 32 + unat vid"
proof -
  define n where "n = tls_thread pid_tgid cpu ncpus"
  have m: "(0xffffffff :: u64) = mask 32" "(0x7fffffff :: u64) = mask 31" by (simp_all add: mask_eq_exp_minus_1)
  define key where "key = (if pid_tgid AND 0xffffffff = 0 then ucast cpu else (pid_tgid AND 0xffffffff) + ucast ncpus :: u64) + 1"
  have pid: "unat (pid_tgid AND 0xffffffff) = unat pid_tgid mod 2 ^ 32" unfolding m by (rule unat_and_mask)
  have z: "pid_tgid AND 0xffffffff = 0 \<longleftrightarrow> unat pid_tgid mod 2 ^ 32 = 0" unfolding pid [symmetric] by (simp add: unat_eq_zero)
  have u: "unat (ucast c :: u64) = unat c" for c :: u32
  proof -
    have "unat c < 2 ^ 64" by (rule order_less_le_trans [OF unsigned_less]) simp
    then show ?thesis by (simp add: unsigned_ucast_eq take_bit_nat_eq_self)
  qed
  have key: "unat key = n + 1"
  proof (cases "pid_tgid AND 0xffffffff = 0")
    case True
    then show ?thesis using assms z u [of cpu] by (simp add: key_def n_def tls_thread_def Let_def unat_word_ariths)
  next
    case False
    then have "n = unat pid_tgid mod 2 ^ 32 + unat ncpus" using z by (simp add: n_def tls_thread_def Let_def)
    with False assms u [of ncpus] pid show ?thesis by (simp add: key_def n_def [symmetric] unat_word_ariths)
  qed
  have "unat (key AND 0x7fffffff) = n + 1" unfolding m unat_and_mask using key assms by (simp add: n_def)
  then have "unat (push_bit 32 (key AND 0x7fffffff)) = (n + 1) * 2 ^ 32"
    using assms by (simp add: n_def push_bit_eq_mult unat_word_ariths)
  moreover have "push_bit 32 (key AND 0x7fffffff) AND ucast vid = (0 :: u64)"
  proof (rule bit_eqI)
    fix i
    have "\<not> bit vid i" if "32 \<le> i" using bit_imp_le_length [of vid i] that by auto
    then show "bit (push_bit 32 (key AND 0x7fffffff) AND ucast vid) i = bit (0 :: u64) i" by (auto simp: bit_simps)
  qed
  then have "push_bit 32 (key AND 0x7fffffff) OR ucast vid = push_bit 32 (key AND 0x7fffffff) + (ucast vid :: u64)"
    by (rule disjunctive_add_eq_or [symmetric])
  moreover have "dt_tlskey pid_tgid cpu ncpus vid = push_bit 32 (key AND 0x7fffffff) OR ucast vid"
    by (simp add: dt_tlskey_def Let_def key_def)
  moreover have "(n + 1) * 2 ^ 32 + unat vid < 2 ^ 64" using assms unat_u32_less [of vid] by (simp add: n_def)
  ultimately show ?thesis using u [of vid] by (simp add: n_def unat_word_ariths)
qed

lemma tlskey_inj:
  assumes "tls_thread p c n + 1 < 2 ^ 31" and "tls_thread p' c' n' + 1 < 2 ^ 31"
  shows "dt_tlskey p c n vid = dt_tlskey p' c' n' vid' \<longleftrightarrow> tls_thread p c n = tls_thread p' c' n' \<and> vid = vid'"
proof
  assume "dt_tlskey p c n vid = dt_tlskey p' c' n' vid'"
  then have eq: "(tls_thread p c n + 1) * 2 ^ 32 + unat vid = (tls_thread p' c' n' + 1) * 2 ^ 32 + unat vid'"
    by (metis tlskey_val [OF assms(1)] tlskey_val [OF assms(2)])
  have v: "unat vid < 2 ^ 32" "unat vid' < 2 ^ 32" by (rule unat_u32_less)+
  from eq have "((tls_thread p c n + 1) * 2 ^ 32 + unat vid) div 2 ^ 32 = ((tls_thread p' c' n' + 1) * 2 ^ 32 + unat vid') div 2 ^ 32"
    by simp
  then have "tls_thread p c n = tls_thread p' c' n'" using v by (simp del: mult_Suc)
  with eq show "tls_thread p c n = tls_thread p' c' n' \<and> vid = vid'" by (simp add: word_unat_eq_iff)
next
  assume "tls_thread p c n = tls_thread p' c' n' \<and> vid = vid'"
  then have "unat (dt_tlskey p c n vid) = unat (dt_tlskey p' c' n' vid')" using tlskey_val assms by simp
  then show "dt_tlskey p c n vid = dt_tlskey p' c' n' vid'" by (simp add: word_unat_eq_iff)
qed

text \<open>The bucket of any value but zero and the smallest, by the magnitude of the value.\<close>

lemma qbin_nonzero:
  assumes "sint val \<noteq> 0" and "sint val \<noteq> - (2 ^ 63)"
  shows "\<exists>d < 63. dt_agg_qbin val = (if sint val < 0 then - (1 + int d) else 1 + int d) + 63 \<and>
    2 ^ d \<le> \<bar>sint val\<bar> \<and> \<bar>sint val\<bar> < 2 ^ Suc d"
proof -
  define tmp where "tmp = (if sint val < 0 then val * (- 1) else val)"
  have r: "- (2 ^ 63) \<le> sint val" "sint val < 2 ^ 63" using sint_range_size [of val] by (simp_all add: word_size)
  have "tmp = word_of_int \<bar>sint val\<bar>" by (auto simp: tmp_def)
  then have "uint tmp = \<bar>sint val\<bar>" using r assms by (simp add: uint_word_of_int take_bit_int_eq_self)
  then have u: "int (unat tmp) = \<bar>sint val\<bar>" by simp
  have nz: "val \<noteq> 0" "val \<noteq> 0x8000000000000000" using assms by auto
  define st where "st = qbin_step 0xc 2 (qbin_step 0xf0 4 (qbin_step 0xff00 8 (qbin_step 0xffff0000 16
    (qbin_step 0x7fffffff00000000 32 (1, tmp)))))"
  have "int (unat tmp) < int (2 ^ 63)" unfolding u using r assms by simp
  then have b: "0 < unat tmp" "unat tmp < 2 ^ 63"
    unfolding of_nat_less_iff using \<open>uint tmp = \<bar>sint val\<bar>\<close> assms(1) by (auto simp: unat_gt_0)
  then obtain d where d: "(if snd st AND 2 \<noteq> 0 then fst st + 1 else fst st) = 1 + int d" "2 ^ d \<le> unat tmp" "unat tmp < 2 ^ Suc d"
    using qbin_magnitude [of tmp] unfolding st_def by blast
  have "(2 :: nat) ^ d < 2 ^ 63" using d(2) b(2) by linarith
  then have "d < 63" by (rule power_less_imp_less_exp [rotated]) simp
  moreover have "dt_agg_qbin val = (if sint val < 0 then - (1 + int d) else 1 + int d) + 63"
  proof -
    have "dt_agg_qbin val = (if sint val < 0 then (if snd st AND 2 \<noteq> 0 then fst st + 1 else fst st) * (- 1)
        else (if snd st AND 2 \<noteq> 0 then fst st + 1 else fst st)) + 63"
      using nz by (simp only: dt_agg_qbin_def Let_def case_prod_beta prod.collapse tmp_def st_def if_False if_True)
    then show ?thesis unfolding d(1) by simp
  qed
  moreover have "int (2 ^ d) \<le> \<bar>sint val\<bar>" "\<bar>sint val\<bar> < int (2 ^ Suc d)"
    unfolding u [symmetric] of_nat_le_iff of_nat_less_iff using d(2,3) .
  ultimately show ?thesis by auto
qed

section \<open>Properties\<close>

text \<open>
  C21. Quantization.  For every 64-bit value, \<^verbatim>\<open>dt_agg_qbin\<close> yields one of the 127 buckets, and the value the bucket stands
  for is the power of two next to the value in the direction of zero, with its sign; zero goes to
  the zero bucket and the smallest integer to the first bucket.
\<close>

theorem qbin_bucket:
  "0 \<le> dt_agg_qbin val \<and> dt_agg_qbin val < DTRACE_QUANTIZE_NBUCKETS \<and>
   (if sint val = 0 then DTRACE_QUANTIZE_BUCKETVAL (dt_agg_qbin val) = 0
    else if 0 < sint val then DTRACE_QUANTIZE_BUCKETVAL (dt_agg_qbin val) \<le> sint val \<and>
      sint val < 2 * DTRACE_QUANTIZE_BUCKETVAL (dt_agg_qbin val)
    else if sint val = - (2 ^ 63) then dt_agg_qbin val = 0
    else sint val \<le> DTRACE_QUANTIZE_BUCKETVAL (dt_agg_qbin val) \<and>
      2 * DTRACE_QUANTIZE_BUCKETVAL (dt_agg_qbin val) < sint val)"
proof -
  consider "sint val = 0" | "sint val = - (2 ^ 63)" | "sint val \<noteq> 0" "sint val \<noteq> - (2 ^ 63)" by blast
  then show ?thesis
  proof cases
    case 1
    moreover have "val = word_of_int (sint val)" by simp
    ultimately have "val = 0" by simp
    then show ?thesis by (simp add: dt_agg_qbin_def DTRACE_QUANTIZE_BUCKETVAL_def DTRACE_QUANTIZE_ZEROBUCKET_def DTRACE_QUANTIZE_NBUCKETS_def)
  next
    case 2
    moreover have "val = word_of_int (sint val)" by simp
    ultimately have "val = 0x8000000000000000" by simp
    with 2 show ?thesis by (simp add: dt_agg_qbin_def DTRACE_QUANTIZE_NBUCKETS_def)
  next
    case 3
    from qbin_nonzero [OF this] obtain d where d: "d < 63"
      "dt_agg_qbin val = (if sint val < 0 then - (1 + int d) else 1 + int d) + 63"
      "2 ^ d \<le> \<bar>sint val\<bar>" "\<bar>sint val\<bar> < 2 ^ Suc d" by blast
    have "DTRACE_QUANTIZE_BUCKETVAL (dt_agg_qbin val) = (if sint val < 0 then - (2 ^ d) else 2 ^ d)"
      using d(1,2) by (simp add: DTRACE_QUANTIZE_BUCKETVAL_def DTRACE_QUANTIZE_ZEROBUCKET_def nat_diff_distrib)
    with 3 d show ?thesis by (auto simp: DTRACE_QUANTIZE_NBUCKETS_def)
  qed
qed

text \<open>
  C22. Linear quantization.  A value below the base goes to bucket 0; any other to the bucket after the number of
  whole steps between base and value, but at most to the overflow bucket.  The computation in
  wrapping 64-bit arithmetic agrees with that on integers for all values and bases.
\<close>

theorem lqbin_bucket:
  assumes "step \<noteq> 0" and "uint levels < 2 ^ 64 - 1"
  shows "uint (dt_agg_lqbin val base levels step) =
    (if sint val < sint base then 0 else 1 + min (uint levels) ((sint val - sint base) div uint step))"
proof (cases "sint val < sint base")
  case True
  then show ?thesis by (simp add: dt_agg_lqbin_def)
next
  case False
  have r: "- (2 ^ 63) \<le> sint val" "sint val < 2 ^ 63" "- (2 ^ 31) \<le> sint base" "sint base < 2 ^ 31"
    using sint_range_size [of val] sint_range_size [of base] by (simp_all add: word_size)
  have "val - scast base = word_of_int (sint val - sint base)" by simp
  moreover have "uint (word_of_int (sint val - sint base) :: u64) = sint val - sint base"
    unfolding uint_word_of_int using False r by (intro mod_pos_pos_trivial) simp_all
  ultimately have "uint (val - scast base) = sint val - sint base" by metis
  then have level: "uint ((val - scast base) div step) = (sint val - sint base) div uint step" by (simp add: uint_div)
  define l where "l = (if levels < (val - scast base) div step then levels else (val - scast base) div step)"
  have l: "uint l = min (uint levels) ((sint val - sint base) div uint step)"
    using level by (auto simp: l_def word_less_def)
  then have "uint (l + 1) = uint l + 1" using assms(2) by (simp add: uint_plus_if')
  moreover have "dt_agg_lqbin val base levels step = l + 1" using assms(1) False by (simp add: dt_agg_lqbin_def Let_def l_def)
  ultimately show ?thesis using False l by simp
qed

theorem lqbin_bucket_witness: "uint (dt_agg_lqbin (- 3) (- 10) 5 2) = 4"
  using lqbin_bucket [of 2 5 "- 3" "- 10"] by simp

text \<open>
  C23. Thread-local variables.  Storing a non-zero value in a thread-local variable and then writing through the
  returned pointer makes a later load by the same thread find that value, and leaves the variable
  of every other thread, and every other variable of the thread, as it was.  The key has its highest bit clear,
  so it is not the address of a tuple either.  A store of zero deletes just that variable.
\<close>

theorem tvar_isolated:
  fixes od :: "('d, u64, 'v) bpf_map_ops"
  assumes laws: "bpf_map_laws od"
    and t: "tls_thread p c n + 1 < 2 ^ 31" "tls_thread p' c' n + 1 < 2 ^ 31"
    and other: "(tls_thread p c n, vid) \<noteq> (tls_thread p' c' n, vid')"
    and get: "dt_get_tvar os od p c n st vid 1 1 dflt = (Some k, st1)"
    and put: "st2 = st1\<lparr>dvars := bm_store od (dvars st1) k v\<rparr>"
    and del: "dt_get_tvar os od p c n st2 vid 1 0 dflt = (r, st3)"
  shows "k < 2 ^ 63 \<and> dt_get_tvar os od p c n st2 vid 0 0 dflt = (Some k, st2) \<and> bm_lookup od (dvars st2) k = Some v \<and>
    bm_lookup od (dvars st2) (dt_tlskey p' c' n vid') = bm_lookup od (dvars st) (dt_tlskey p' c' n vid') \<and>
    r = None \<and> bm_lookup od (dvars st3) k = None \<and>
    bm_lookup od (dvars st3) (dt_tlskey p' c' n vid') = bm_lookup od (dvars st) (dt_tlskey p' c' n vid')"
proof -
  have k: "k = dt_tlskey p c n vid" and there: "bm_lookup od (dvars st1) k \<noteq> None"
    using get by (auto simp: dt_get_tvar_def dt_get_dvar_def split: if_splits prod.splits)
  have ne: "dt_tlskey p' c' n vid' \<noteq> k" using tlskey_inj [OF t, of vid vid'] other k by auto
  have same: "bm_lookup od (dvars st1) q = bm_lookup od (dvars st) q" if "q \<noteq> k" for q
    using get that bpf_map_lawsD(4) [OF laws]
    by (auto simp: dt_get_tvar_def dt_get_dvar_def split: if_splits prod.splits)
  have "unat k < 2 ^ 63" unfolding k tlskey_val [OF t(1)] using t(1) unat_u32_less [of vid] by simp
  then have "k < 2 ^ 63" by (simp add: word_less_nat_alt)
  moreover have st2: "bm_lookup od (dvars st2) = (bm_lookup od (dvars st1))(k \<mapsto> v)"
    using bpf_map_lawsD(6) [OF laws there] put by simp
  moreover have "r = None" "bm_lookup od (dvars st3) = (bm_lookup od (dvars st2))(k := None)"
    using del k bpf_map_lawsD(5) [OF laws] by (auto simp: dt_get_tvar_def dt_get_dvar_def)
  ultimately show ?thesis using ne same [OF ne] k by (simp add: dt_get_tvar_def dt_get_dvar_def)
qed

theorem tvar_isolated_witness:
  "\<exists>k st1. dt_get_tvar (bounded_map_ops 1 :: ((u32 \<times> u32) list, u32, u32) bpf_map_ops) (bounded_map_ops 2) 5 0 4
      \<lparr>dv_state = [], dvars = [(dt_tlskey 0 3 4 1, 9)], tuples = ()\<rparr> 1 1 1 (0 :: nat) = (Some k, st1) \<and>
    bm_lookup (bounded_map_ops 2) (bm_store (bounded_map_ops 2) (dvars st1) k 7) (dt_tlskey 0 3 4 1) = Some 9"
proof -
  let ?od = "bounded_map_ops 2 :: ((u64 \<times> nat) list, u64, nat) bpf_map_ops"
    and ?os = "bounded_map_ops 1 :: ((u32 \<times> u32) list, u32, u32) bpf_map_ops"
    and ?st = "\<lparr>dv_state = [] :: (u32 \<times> u32) list, dvars = [(dt_tlskey 0 3 4 1, 9 :: nat)], tuples = ()\<rparr>"
  have t: "tls_thread 5 0 4 = 9" "tls_thread 0 3 4 = 3" by (simp_all add: tls_thread_def)
  then have "dt_tlskey 5 0 4 1 \<noteq> dt_tlskey 0 3 4 1" using tlskey_inj [of 5 0 4 0 3 4 1 1] by simp
  then have get: "dt_get_tvar ?os ?od 5 0 4 ?st 1 1 1 0 =
      (Some (dt_tlskey 5 0 4 1), ?st\<lparr>dvars := (dt_tlskey 5 0 4 1, 0) # dvars ?st\<rparr>)" (is "_ = (Some ?k, ?st1)")
    by (simp add: dt_get_tvar_def dt_get_dvar_def bounded_map_ops_def)
  obtain r st3 where "dt_get_tvar ?os ?od 5 0 4 (?st1\<lparr>dvars := bm_store ?od (dvars ?st1) ?k 7\<rparr>) 1 1 0 0 = (r, st3)"
    by fastforce
  from tvar_isolated [OF bounded_map_laws _ _ _ get refl this, of 0 3 1] t
  have "bm_lookup ?od (bm_store ?od (dvars ?st1) ?k 7) (dt_tlskey 0 3 4 1) = bm_lookup ?od (dvars ?st) (dt_tlskey 0 3 4 1)"
    by simp
  then show ?thesis using get by (auto simp: bounded_map_ops_def)
qed



end
