(* ===== verification/Speculation.thy ===== *)
theory Speculation
  imports BpfRuntime
begin

text \<open>
  Speculative tracing: the producer side in the probe programs, \<^verbatim>\<open>bpf/speculation.c\<close>, and the consumer side that
  sets speculative data aside until it is committed or discarded, in \<^verbatim>\<open>libdtrace/dt_consume.c\<close>.

  \<open>spec_step\<close> is the system of both: probes on several CPUs obtain, write and end speculations and append
  records to the buffer of their CPU, and the consumer takes the first record of any CPU.  The
  invariant counts, for every speculation, the data records that were written, are in a buffer, are
  set aside or have been drained.
\<close>

section \<open>Producer\<close>

record dt_bpf_specs =
  sp_written :: u64
  sp_size :: u64
  sp_draining :: u32

definition DT_STATE_SPEC_BUSY :: u32 where "DT_STATE_SPEC_BUSY = 4"

definition DT_STATE_SPEC_UNAVAIL :: u32 where "DT_STATE_SPEC_UNAVAIL = 5"

definition DTRACEFLT_ILLOP :: u64 where "DTRACEFLT_ILLOP = 3"

type_synonym 'm spec_ops = "('m, u32, dt_bpf_specs) bpf_map_ops"

definition dt_no_spec :: "('s, u32, u32) bpf_map_ops \<Rightarrow> 's \<Rightarrow> u32 \<Rightarrow> u32 \<times> 's" where
  "dt_no_spec os st kind =
     (case bm_lookup os st kind of
        None \<Rightarrow> (0, st)
      | Some n \<Rightarrow> (0, bm_store os st kind (n + 1)))"

text \<open>The unrolled search; the result is the identifier, if any, and the number of busy speculations.\<close>

fun spec_search :: "'m spec_ops \<Rightarrow> nat \<Rightarrow> nat list \<Rightarrow> 'm \<Rightarrow> nat \<Rightarrow> u32 option \<times> nat \<times> 'm" where
  "spec_search osp nspec [] m busy = (None, busy, m)"
| "spec_search osp nspec (n # ns) m busy =
     (if n > nspec then (None, busy, m)
      else
        let sid = word_of_nat n
        in case bm_update osp m sid \<lparr>sp_written = 0, sp_size = 0, sp_draining = 0\<rparr> BPF_NOEXIST of
             (r, m) \<Rightarrow>
               if r = 0 then (Some sid, busy, m)
               else
                 (case bm_lookup osp m sid of
                    None \<Rightarrow> spec_search osp nspec ns m busy
                  | Some spec \<Rightarrow> spec_search osp nspec ns m (if sp_draining spec > 0 then busy + 1 else busy)))"

definition dt_speculation :: "'m spec_ops \<Rightarrow> ('s, u32, u32) bpf_map_ops \<Rightarrow> nat \<Rightarrow> 'm \<Rightarrow> 's \<Rightarrow> u32 \<times> 'm \<times> 's" where
  "dt_speculation osp os nspec m st =
     (case spec_search osp nspec [1..<17] m 0 of
        (Some sid, _, m) \<Rightarrow> (sid, m, st)
      | (None, busy, m) \<Rightarrow>
          (case dt_no_spec os st (if busy \<noteq> 0 then DT_STATE_SPEC_BUSY else DT_STATE_SPEC_UNAVAIL) of
             (r, st) \<Rightarrow> (r, m, st)))"

definition dt_speculation_speculate :: "'m spec_ops \<Rightarrow> 'm \<Rightarrow> u32 \<Rightarrow> bool \<times> 'm" where
  "dt_speculation_speculate osp m sid =
     (case bm_lookup osp m sid of
        None \<Rightarrow> (False, m)
      | Some spec \<Rightarrow>
          if sp_draining spec \<noteq> 0 then (False, m)
          else (True, bm_store osp m sid (spec\<lparr>sp_written := sp_written spec + 1\<rparr>)))"

text \<open>The last component of the result is the machine state, which only an error changes.\<close>

definition dt_speculation_set_drainable ::
  "'m spec_ops \<Rightarrow> nat \<Rightarrow> (dt_mstate \<Rightarrow> dt_mstate) \<Rightarrow> u64 \<Rightarrow> dt_mstate \<Rightarrow> 'm \<Rightarrow> u32 \<Rightarrow> int \<times> 'm \<times> dt_mstate" where
  "dt_speculation_set_drainable osp nspec dt_error pc mst m sid =
     (case bm_lookup osp m sid of
        None \<Rightarrow>
          if unat sid \<le> nspec then (0, m, mst)
          else (- 1, m, dt_probe_error dt_error mst pc DTRACEFLT_ILLOP 0)
      | Some spec \<Rightarrow> (0, bm_store osp m sid (spec\<lparr>sp_draining := 1\<rparr>), mst))"

section \<open>Consumer\<close>

text \<open>
  Data set aside for a speculation, each with the CPU it came from.  \<open>dtsb_spec\<close> is the copy of the kernel's
  record that is made when draining begins.
\<close>

record dt_spec_buf =
  dtsb_size :: nat
  dtsb_committing :: bool
  dtsb_spec :: dt_bpf_specs
  dtsb_dsbd_list :: "(nat \<times> u8 list) list"

text \<open>
  The table of speculation buffers is a map by identifier, which is what the hash table implements; the
  list of draining speculations has the identifier and the number of records drained.  \<open>out\<close> is the output.
\<close>

record ('m, 'o) spec_state =
  specs :: 'm
  spec_bufs :: "u32 \<Rightarrow> dt_spec_buf option"
  spec_draining :: "(u32 \<times> nat) list"
  specdrops :: nat
  out :: 'o

text \<open>\<open>inserted\<close> tells whether the insertion into the hash table succeeds.\<close>

definition dt_spec_buf_create :: "('m, 'o) spec_state \<Rightarrow> u32 \<Rightarrow> bool \<Rightarrow> allocs \<Rightarrow> bool \<times> ('m, 'o) spec_state \<times> allocs" where
  "dt_spec_buf_create s sid inserted mm =
     (case c_alloc mm of
        (None, mm) \<Rightarrow> (False, s, mm)
      | (Some _, mm) \<Rightarrow>
          if inserted then
            (True, s\<lparr>spec_bufs := (spec_bufs s)(sid \<mapsto> \<lparr>dtsb_size = 0, dtsb_committing = False,
               dtsb_spec = \<lparr>sp_written = 0, sp_size = 0, sp_draining = 0\<rparr>, dtsb_dsbd_list = []\<rparr>)\<rparr>, mm)
          else (False, s, mm))"

definition dt_spec_buf_add_data :: "('m, 'o) spec_state \<Rightarrow> u32 \<Rightarrow> nat \<Rightarrow> u8 list \<Rightarrow> allocs \<Rightarrow> (bool \<times> ('m, 'o) spec_state) option" where
  "dt_spec_buf_add_data s sid cpu data mm =
     (case c_alloc mm of
        (None, mm) \<Rightarrow> Some (False, s)
      | (Some _, mm) \<Rightarrow>
          (case c_alloc mm of
             (None, mm) \<Rightarrow> Some (False, s)
           | (Some _, mm) \<Rightarrow> do {
               b \<leftarrow> spec_bufs s sid;
               Some (True, s\<lparr>spec_bufs := (spec_bufs s)(sid \<mapsto>
                 b\<lparr>dtsb_size := dtsb_size b + length data, dtsb_dsbd_list := dtsb_dsbd_list b @ [(cpu, data)]\<rparr>)\<rparr>)
             }))"

definition spec_drop :: "('m, 'o) spec_state \<Rightarrow> ('m, 'o) spec_state" where
  "spec_drop s = s\<lparr>specdrops := specdrops s + 1\<rparr>"

text \<open>What \<^verbatim>\<open>dt_consume_one_probe\<close> does with a record of a speculation, when it is not peeking again.\<close>

definition spec_hive :: "nat \<Rightarrow> ('m, 'o) spec_state \<Rightarrow> u32 \<Rightarrow> nat \<Rightarrow> u8 list \<Rightarrow> bool \<Rightarrow> allocs \<Rightarrow> ('m, 'o) spec_state option" where
  "spec_hive specsize s sid cpu data inserted mm =
     (let cursz = (case spec_bufs s sid of None \<Rightarrow> 0 | Some b \<Rightarrow> dtsb_size b)
      in if cursz + length data > specsize then Some (spec_drop s)
         else
           (case (if spec_bufs s sid = None then dt_spec_buf_create s sid inserted mm else (True, s, mm)) of
              (ok, s, mm) \<Rightarrow>
                if \<not> ok then Some (spec_drop s)
                else do {
                  (ok, s) \<leftarrow> dt_spec_buf_add_data s sid cpu data mm;
                  Some (if ok then s else spec_drop s)
                }))"

text \<open>
  A commit or discard record.  The result is the error, or zero, and the state.  \<open>- 2\<close> stands for the error of the
  map lookup and \<open>- 1\<close> for lack of memory.
\<close>

definition spec_commit_discard :: "'m spec_ops \<Rightarrow> ('m, 'o) spec_state \<Rightarrow> u32 \<Rightarrow> bool \<Rightarrow> allocs \<Rightarrow> (int \<times> ('m, 'o) spec_state) option" where
  "spec_commit_discard osp s sid commit mm =
     (case spec_bufs s sid of
        None \<Rightarrow> Some (0, s)
      | Some b \<Rightarrow>
          if sp_draining (dtsb_spec b) \<noteq> 0 then Some (0, s)
          else
            (case bm_lookup osp (specs s) sid of
               None \<Rightarrow> Some (- 2, s)
             | Some spec \<Rightarrow> do {
                 c_assert (sp_draining spec \<noteq> 0);
                 case c_alloc mm of
                   (None, _) \<Rightarrow> Some (- 1, s)
                 | (Some _, _) \<Rightarrow>
                     Some (0, s\<lparr>spec_bufs := (spec_bufs s)(sid \<mapsto> b\<lparr>dtsb_committing := commit, dtsb_spec := spec\<rparr>),
                       spec_draining := spec_draining s @ [(sid, 0)]\<rparr>)
               }))"

text \<open>\<open>emit\<close> consumes one record that is being committed; it tells whether it succeeded.\<close>

type_synonym 'o emitter = "'o \<Rightarrow> nat \<Rightarrow> u8 list \<Rightarrow> bool \<times> 'o"

fun dt_commit_one_spec :: "'o emitter \<Rightarrow> (nat \<times> u8 list) list \<Rightarrow> 'o \<Rightarrow> bool \<times> 'o" where
  "dt_commit_one_spec emit [] ou = (True, ou)"
| "dt_commit_one_spec emit ((cpu, data) # ds) ou =
     (case emit ou cpu data of (ok, ou) \<Rightarrow> if ok then dt_commit_one_spec emit ds ou else (False, ou))"

definition dt_spec_buf_data_destroy :: "('m, 'o) spec_state \<Rightarrow> u32 \<Rightarrow> dt_spec_buf \<Rightarrow> ('m, 'o) spec_state" where
  "dt_spec_buf_data_destroy s sid b =
     s\<lparr>spec_bufs := (spec_bufs s)(sid \<mapsto> b\<lparr>dtsb_dsbd_list := [], dtsb_size := 0\<rparr>)\<rparr>"

text \<open>Deleting a speculation from the table destroys its buffer and frees the identifier in the kernel.\<close>

definition dt_spec_buf_destroy :: "'m spec_ops \<Rightarrow> ('m, 'o) spec_state \<Rightarrow> u32 \<Rightarrow> ('m, 'o) spec_state" where
  "dt_spec_buf_destroy osp s sid =
     s\<lparr>spec_bufs := (spec_bufs s)(sid := None), specs := bm_delete osp (specs s) sid\<rparr>"

text \<open>The loop over the draining speculations.\<close>

fun spec_drain :: "'o emitter \<Rightarrow> 'm spec_ops \<Rightarrow> (u32 \<times> nat) list \<Rightarrow> ('m, 'o) spec_state \<Rightarrow> (bool \<times> ('m, 'o) spec_state) option" where
  "spec_drain emit osp [] s = Some (True, s)"
| "spec_drain emit osp ((sid, rd) # ds) s = do {
     b \<leftarrow> spec_bufs s sid;
     let rd = rd + length (dtsb_dsbd_list b);
     let s = s\<lparr>spec_draining := map (\<lambda>d. if fst d = sid then (sid, rd) else d) (spec_draining s)\<rparr>;
     case (if dtsb_committing b then dt_commit_one_spec emit (dtsb_dsbd_list b) (out s) else (True, out s)) of
       (ok, ou) \<Rightarrow>
         let s = s\<lparr>out := ou\<rparr>
         in if \<not> ok then Some (False, dt_spec_buf_data_destroy s sid b)
            else if rd < unat (sp_written (dtsb_spec b)) then spec_drain emit osp ds (dt_spec_buf_data_destroy s sid b)
            else spec_drain emit osp ds (dt_spec_buf_destroy osp
              (s\<lparr>spec_draining := filter (\<lambda>d. fst d \<noteq> sid) (spec_draining s)\<rparr>) sid)
   }"

section \<open>The system\<close>

datatype spec_rec = SData u32 "u8 list" | SEnd bool u32 | SOther

text \<open>How the consumer handles a record of CPU \<open>cpu\<close>.\<close>

definition spec_consume :: "'o emitter \<Rightarrow> 'm spec_ops \<Rightarrow> nat \<Rightarrow> spec_rec \<Rightarrow> nat \<Rightarrow> bool \<Rightarrow> allocs \<Rightarrow>
    ('m, 'o) spec_state \<Rightarrow> ('m, 'o) spec_state option" where
  "spec_consume emit osp specsize r cpu inserted mm s =
     (case r of
        SData sid data \<Rightarrow> spec_hive specsize s sid cpu data inserted mm
      | SEnd commit sid \<Rightarrow> do {
          (err, s) \<leftarrow> spec_commit_discard osp s sid commit mm;
          if err \<noteq> 0 then Some s
          else do {
            (_, s) \<leftarrow> spec_drain emit osp (spec_draining s) s;
            Some s
          }
        }
      | SOther \<Rightarrow> do {
          (_, s) \<leftarrow> spec_drain emit osp (spec_draining s) s;
          Some s
        })"

text \<open>
  The records on their way, each with its CPU, in the order they were written.  A record that a full buffer, or
  the size limit that is checked in the probe program, keeps from being written is not \<open>delivered\<close>;
  \<open>lost\<close> counts those with data.
\<close>

record ('m, 'o) spec_sys =
  st :: "('m, 'o) spec_state"
  ring :: "(nat \<times> spec_rec) list"
  lost :: nat

inductive spec_step :: "'o emitter \<Rightarrow> 'm spec_ops \<Rightarrow> nat \<Rightarrow> nat \<Rightarrow> ('m, 'o) spec_sys \<Rightarrow> ('m, 'o) spec_sys \<Rightarrow> bool"
  for emit :: "'o emitter" and osp :: "'m spec_ops" and nspec specsize :: nat where
  spec_new: "spec_search osp nspec [1..<17] (specs (st s)) 0 = (r, busy, m) \<Longrightarrow>
    spec_step emit osp nspec specsize s (s\<lparr>st := (st s)\<lparr>specs := m\<rparr>\<rparr>)"
| spec_write: "dt_speculation_speculate osp (specs (st s)) sid = (True, m) \<Longrightarrow>
    (case bm_lookup osp (specs (st s)) sid of None \<Rightarrow> False | Some spec \<Rightarrow> unat (sp_written spec) + 1 < 2 ^ 64) \<Longrightarrow>
    spec_step emit osp nspec specsize s
      (s\<lparr>st := (st s)\<lparr>specs := m\<rparr>, ring := ring s @ (if delivered then [(cpu, SData sid data)] else []),
        lost := lost s + (if delivered then 0 else 1)\<rparr>)"
| spec_end: "dt_speculation_set_drainable osp nspec dt_error pc mst (specs (st s)) sid = (0, m, mst') \<Longrightarrow>
    spec_step emit osp nspec specsize s (s\<lparr>st := (st s)\<lparr>specs := m\<rparr>, 
      ring := ring s @ (if delivered then [(cpu, SEnd commit sid)] else [])\<rparr>)"
| spec_other: "spec_step emit osp nspec specsize s (s\<lparr>ring := ring s @ (if delivered then [(cpu, SOther)] else [])\<rparr>)"
| spec_take: "ring s = as @ (cpu, r) # bs \<Longrightarrow> cpu \<notin> fst ` set as \<Longrightarrow>
    spec_consume emit osp specsize r cpu inserted mm (st s) = Some s' \<Longrightarrow>
    spec_step emit osp nspec specsize s (s\<lparr>st := s', ring := as @ bs\<rparr>)"

definition spec_init :: "'m \<Rightarrow> 'o \<Rightarrow> ('m, 'o) spec_sys" where
  "spec_init m ou = \<lparr>st = \<lparr>specs = m, spec_bufs = (\<lambda>_. None), spec_draining = [], specdrops = 0, out = ou\<rparr>, ring = [], lost = 0\<rparr>"

section \<open>The invariant\<close>

text \<open>
  The invariant of one speculation, from its record in the kernel \<open>L\<close>, its buffer \<open>B\<close> and its number of drained
  records \<open>D\<close>, if it is draining.  \<open>c\<close> is the number of data records on their way, \<open>k\<close> a number of records known to be
  missing, and \<open>z\<close> tells that none was lost.
\<close>

definition sid_ok :: "nat \<Rightarrow> bool \<Rightarrow> nat \<Rightarrow> dt_bpf_specs option \<Rightarrow> dt_spec_buf option \<Rightarrow> nat option \<Rightarrow> bool" where
  "sid_ok k z c L B D \<longleftrightarrow>
     (case B of
        None \<Rightarrow> D = None
      | Some b \<Rightarrow>
          if sp_draining (dtsb_spec b) = 0 then D = None
          else D \<noteq> None \<and> (case L of None \<Rightarrow> False | Some sp \<Rightarrow> sp_draining sp \<noteq> 0 \<and> sp_written sp = sp_written (dtsb_spec b))) \<and>
     (case L of
        None \<Rightarrow> c = 0 \<and> k = 0 \<and> B = None
      | Some sp \<Rightarrow>
          let n = c + (case B of None \<Rightarrow> 0 | Some b \<Rightarrow> length (dtsb_dsbd_list b)) + (case D of None \<Rightarrow> 0 | Some r \<Rightarrow> r)
          in n + k \<le> unat (sp_written sp) \<and> (z \<longrightarrow> n = unat (sp_written sp)))"

definition spec_inv :: "'m spec_ops \<Rightarrow> (u32 \<Rightarrow> nat) \<Rightarrow> bool \<Rightarrow> (u32 \<Rightarrow> nat) \<Rightarrow> ('m, 'o) spec_state \<Rightarrow> bool" where
  "spec_inv osp k l c s \<longleftrightarrow> distinct (map fst (spec_draining s)) \<and>
     (\<forall>sid. sid_ok (k sid) (l \<and> specdrops s = 0) (c sid) (bm_lookup osp (specs s) sid) (spec_bufs s sid)
        (map_of (spec_draining s) sid))"

lemma spec_invD: "spec_inv osp k l c s \<Longrightarrow> sid_ok (k sid) (l \<and> specdrops s = 0) (c sid) (bm_lookup osp (specs s) sid) (spec_bufs s sid)
    (map_of (spec_draining s) sid)"
  by (simp add: spec_inv_def)

text \<open>A change that concerns one speculation only.\<close>

lemma spec_inv_update:
  assumes "spec_inv osp k l c s" and "distinct (map fst (spec_draining s'))"
    and "\<And>x. x \<noteq> sid \<Longrightarrow> c' x = c x \<and> bm_lookup osp (specs s') x = bm_lookup osp (specs s) x \<and>
      spec_bufs s' x = spec_bufs s x \<and> map_of (spec_draining s') x = map_of (spec_draining s) x"
    and "specdrops s' = 0 \<Longrightarrow> specdrops s = 0"
    and "l' \<Longrightarrow> l"
    and "sid_ok (k sid) (l' \<and> specdrops s' = 0) (c' sid) (bm_lookup osp (specs s') sid) (spec_bufs s' sid) (map_of (spec_draining s') sid)"
  shows "spec_inv osp k l' c' s'"
proof -
  have weak: "sid_ok k z c L B D \<Longrightarrow> (z' \<Longrightarrow> z) \<Longrightarrow> sid_ok k z' c L B D" for k z z' c L B D
    by (auto simp: sid_ok_def Let_def split: option.splits)
  show ?thesis unfolding spec_inv_def
  proof (intro conjI allI)
    fix x
    show "sid_ok (k x) (l' \<and> specdrops s' = 0) (c' x) (bm_lookup osp (specs s') x) (spec_bufs s' x) (map_of (spec_draining s') x)"
    proof (cases "x = sid")
      case False
      with assms(3) [of x] spec_invD [OF assms(1), of x] assms(4,5) show ?thesis by (auto elim: weak)
    qed (use assms(6) in simp)
  qed (rule assms(2))
qed

lemma sid_ok_drop: "sid_ok k z (Suc c) L B D \<Longrightarrow> sid_ok k False c L B D"
  by (auto simp: sid_ok_def Let_def split: option.splits)

lemma sid_ok_create:
  "sid_ok k z (Suc c) L None D \<Longrightarrow> sp_draining (dtsb_spec b) = 0 \<Longrightarrow> length (dtsb_dsbd_list b) \<le> 1 \<Longrightarrow>
   sid_ok k (z \<and> length (dtsb_dsbd_list b) = 1) c L (Some b) D"
  by (auto simp: sid_ok_def Let_def split: option.splits)

lemma sid_ok_add:
  "sid_ok k z (Suc c) L (Some b) D \<Longrightarrow> dtsb_spec b' = dtsb_spec b \<Longrightarrow>
   length (dtsb_dsbd_list b') = Suc (length (dtsb_dsbd_list b)) \<Longrightarrow> sid_ok k z c L (Some b') D"
  by (auto simp: sid_ok_def Let_def split: option.splits)

lemma spec_hive_inv:
  assumes "spec_inv osp k l (c(sid := Suc (c sid))) s"
  shows "\<exists>s'. spec_hive specsize s sid cpu data inserted mm = Some s' \<and> spec_inv osp k l c s'"
proof -
  note ok = spec_invD [OF assms, of sid, unfolded fun_upd_same]
  have d: "distinct (map fst (spec_draining s))" using assms by (simp add: spec_inv_def)
  have dropped: "spec_inv osp k l c (spec_drop s)"
    by (rule spec_inv_update [OF assms, of _ sid]) (use d sid_ok_drop [OF ok] in \<open>simp_all add: spec_drop_def\<close>)
  show ?thesis
  proof (cases "spec_bufs s sid")
    case None
    note ok = ok [unfolded None]
    let ?b = "\<lparr>dtsb_size = 0, dtsb_committing = False, dtsb_spec = \<lparr>sp_written = 0, sp_size = 0, sp_draining = 0\<rparr>, dtsb_dsbd_list = []\<rparr>"
    let ?s = "s\<lparr>spec_bufs := (spec_bufs s)(sid \<mapsto> ?b)\<rparr>"
    have created: "spec_inv osp k l c (spec_drop ?s)"
      by (rule spec_inv_update [OF assms, of _ sid]) (use d sid_ok_create [OF ok, of ?b] in \<open>simp_all add: spec_drop_def\<close>)
    have added: "spec_inv osp k l c (?s\<lparr>spec_bufs := (spec_bufs ?s)(sid \<mapsto> ?b\<lparr>dtsb_size := n, dtsb_dsbd_list := [(cpu, data)]\<rparr>)\<rparr>)" for n
      by (rule spec_inv_update [OF assms, of _ sid])
        (use d sid_ok_create [OF ok, of "?b\<lparr>dtsb_size := n, dtsb_dsbd_list := [(cpu, data)]\<rparr>"] in simp_all)
    show ?thesis using None dropped created added
      by (auto simp: spec_hive_def dt_spec_buf_create_def dt_spec_buf_add_data_def Let_def split: option.split prod.split)
  next
    case (Some b)
    note ok = ok [unfolded Some]
    have added: "spec_inv osp k l c (s\<lparr>spec_bufs := (spec_bufs s)(sid \<mapsto> b\<lparr>dtsb_size := n, dtsb_dsbd_list := dtsb_dsbd_list b @ [(cpu, data)]\<rparr>)\<rparr>)" for n
      by (rule spec_inv_update [OF assms, of _ sid])
        (use d sid_ok_add [OF ok, of "b\<lparr>dtsb_size := n, dtsb_dsbd_list := dtsb_dsbd_list b @ [(cpu, data)]\<rparr>"] in simp_all)
    show ?thesis using Some dropped added
      by (auto simp: spec_hive_def dt_spec_buf_add_data_def Let_def split: option.split prod.split)
  qed
qed

text \<open>A commit or discard either fails the assertion or keeps the invariant.\<close>

lemma spec_commit_discard_inv:
  assumes "spec_inv osp k l c s" and "spec_commit_discard osp s sid commit mm = Some (e, s')"
  shows "spec_inv osp k l c s'"
proof (cases "s' = s")
  case False
  then obtain b spec where b: "spec_bufs s sid = Some b" "sp_draining (dtsb_spec b) = 0" "bm_lookup osp (specs s) sid = Some spec"
    "sp_draining spec \<noteq> 0" and s': "s' = s\<lparr>spec_bufs := (spec_bufs s)(sid \<mapsto> b\<lparr>dtsb_committing := commit, dtsb_spec := spec\<rparr>),
      spec_draining := spec_draining s @ [(sid, 0)]\<rparr>"
    using assms(2) by (auto simp: spec_commit_discard_def split: option.splits if_splits prod.splits bind_splits)
  note ok = spec_invD [OF assms(1), of sid, unfolded b(1,3)]
  have none: "map_of (spec_draining s) sid = None" using ok b(2) by (simp add: sid_ok_def)
  then have "distinct (map fst (spec_draining s'))" using assms(1) s' by (auto simp: spec_inv_def map_of_eq_None_iff)
  moreover have "map_of (spec_draining s') sid = Some 0" "\<And>x. x \<noteq> sid \<Longrightarrow> map_of (spec_draining s') x = map_of (spec_draining s) x"
    using none by (auto simp: s' map_add_def split: option.split)
  moreover have "sid_ok (k sid) (l \<and> specdrops s = 0) (c sid) (Some spec) (Some (b\<lparr>dtsb_committing := commit, dtsb_spec := spec\<rparr>)) (Some 0)"
    using ok none b(2,4) by (simp add: sid_ok_def)
  ultimately show ?thesis by (intro spec_inv_update [OF assms(1), of s' sid]) (simp_all add: s' b(3))
qed (use assms in simp)

section \<open>Draining\<close>

lemma map_of_set_count:
  "map_of (map (\<lambda>d. if fst d = sid then (sid, n) else d) ds) x = (if x = sid \<and> map_of ds sid \<noteq> None then Some n else map_of ds x)"
  by (induction ds) auto

lemma map_fst_set_count: "map fst (map (\<lambda>d. if fst d = sid then (sid, n) else d) ds) = map fst ds"
  by (induction ds) auto

definition drain_count :: "u32 \<Rightarrow> nat \<Rightarrow> ('m, 'o) spec_state \<Rightarrow> ('m, 'o) spec_state" where
  "drain_count sid rd s = s\<lparr>spec_draining := map (\<lambda>d. if fst d = sid then (sid, rd) else d) (spec_draining s)\<rparr>"

lemma drain_keep_inv:
  assumes "spec_inv osp k l c s" and "map_of (spec_draining s) sid = Some rd" and "spec_bufs s sid = Some b"
  shows "spec_inv osp k l c (dt_spec_buf_data_destroy ((drain_count sid (rd + length (dtsb_dsbd_list b)) s)\<lparr>out := ou\<rparr>) sid b)"
proof (rule spec_inv_update [OF assms(1), of _ sid])
  have "sid_ok (k sid) (l \<and> specdrops s = 0) (c sid) (bm_lookup osp (specs s) sid) (Some (b\<lparr>dtsb_dsbd_list := [], dtsb_size := 0\<rparr>))
      (Some (rd + length (dtsb_dsbd_list b)))"
    using spec_invD [OF assms(1), of sid] unfolding assms(2,3) by (auto simp: sid_ok_def Let_def split: option.splits)
  then show "sid_ok (k sid) (l \<and> specdrops (dt_spec_buf_data_destroy ((drain_count sid (rd + length (dtsb_dsbd_list b)) s)\<lparr>out := ou\<rparr>) sid b) = 0)
      (c sid) (bm_lookup osp (specs (dt_spec_buf_data_destroy ((drain_count sid (rd + length (dtsb_dsbd_list b)) s)\<lparr>out := ou\<rparr>) sid b)) sid)
      (spec_bufs (dt_spec_buf_data_destroy ((drain_count sid (rd + length (dtsb_dsbd_list b)) s)\<lparr>out := ou\<rparr>) sid b) sid)
      (map_of (spec_draining (dt_spec_buf_data_destroy ((drain_count sid (rd + length (dtsb_dsbd_list b)) s)\<lparr>out := ou\<rparr>) sid b)) sid)"
    using assms(2) by (simp add: dt_spec_buf_data_destroy_def drain_count_def map_of_set_count)
qed (use assms(1) in \<open>simp_all add: dt_spec_buf_data_destroy_def drain_count_def map_of_set_count map_fst_set_count spec_inv_def del: map_map\<close>)

lemma drain_free_inv:
  fixes s :: "('m, 'o) spec_state" and ou :: 'o and n :: nat
  assumes laws: "bpf_map_laws osp" and inv: "spec_inv osp k l c s" and d: "map_of (spec_draining s) sid = Some rd"
    and b: "spec_bufs s sid = Some b" and all: "\<not> rd + length (dtsb_dsbd_list b) < unat (sp_written (dtsb_spec b))"
  defines "s' \<equiv> dt_spec_buf_destroy osp
    (s\<lparr>spec_draining := filter (\<lambda>d. fst d \<noteq> sid) (map (\<lambda>d. if fst d = sid then (sid, n) else d) (spec_draining s)), out := ou\<rparr>) sid"
  shows "spec_inv osp k l c s'" and "bm_lookup osp (specs s') = (bm_lookup osp (specs s))(sid := None)"
    and "x \<noteq> sid \<Longrightarrow> map_of (spec_draining s') x = map_of (spec_draining s) x"
proof -
  have f: "filter (\<lambda>d. fst d \<noteq> sid) (map (\<lambda>d. if fst d = sid then (sid, n) else d) ds) = filter (\<lambda>d. fst d \<noteq> sid) ds" for ds
    by (induction ds) auto
  have m: "map_of (spec_draining s') x = (if x = sid then None else map_of (spec_draining s) x)" for x
    unfolding s'_def dt_spec_buf_destroy_def by (simp add: f map_of_filter_key)
  show L: "bm_lookup osp (specs s') = (bm_lookup osp (specs s))(sid := None)"
    by (simp add: s'_def dt_spec_buf_destroy_def bpf_map_lawsD(5) [OF laws])
  show "x \<noteq> sid \<Longrightarrow> map_of (spec_draining s') x = map_of (spec_draining s) x" by (simp add: m)
  have "c sid = 0 \<and> k sid = 0" using spec_invD [OF inv, of sid] all unfolding d b
    by (auto simp: sid_ok_def Let_def split: option.splits if_splits)
  moreover have "distinct (map fst (spec_draining s'))" using inv
    by (auto simp: s'_def dt_spec_buf_destroy_def f spec_inv_def distinct_map_filter)
  ultimately show "spec_inv osp k l c s'"
    by (intro spec_inv_update [OF inv, of s' sid]) (simp_all add: L m, simp_all add: s'_def dt_spec_buf_destroy_def sid_ok_def)
qed

lemma commit_one_ok: "(\<And>ou cpu data. fst (emit ou cpu data)) \<Longrightarrow> fst (dt_commit_one_spec emit ds ou)"
proof (induction emit ds ou rule: dt_commit_one_spec.induct)
  case (2 emit cpu data ds ou)
  obtain ok ou' where "emit ou cpu data = (ok, ou')" by fastforce
  moreover have "ok" using "2.prems" [of ou cpu data] calculation by simp
  ultimately show ?case using 2 by simp
qed simp

lemma spec_drain_inv:
  assumes laws: "bpf_map_laws osp" and "spec_inv osp k l c s" and "distinct (map fst ds)"
    and "\<And>d. d \<in> set ds \<Longrightarrow> map_of (spec_draining s) (fst d) = Some (snd d)"
  shows "\<exists>ok s'. spec_drain emit osp ds s = Some (ok, s') \<and> spec_inv osp k l c s' \<and> specdrops s' = specdrops s \<and>
    (\<forall>x. bm_lookup osp (specs s') x = bm_lookup osp (specs s) x \<or> bm_lookup osp (specs s') x = None) \<and>
    ((\<forall>ou cpu data. fst (emit ou cpu data)) \<longrightarrow>
      ok \<and> (l \<and> specdrops s = 0 \<longrightarrow> (\<forall>d \<in> set ds. c (fst d) = 0 \<longrightarrow> bm_lookup osp (specs s') (fst d) = None)))"
  using assms(2-)
proof (induction ds arbitrary: s)
  case Nil
  then show ?case by (intro exI [of _ True]) simp
next
  case (Cons d ds)
  obtain sid rd where d: "d = (sid, rd)" by (cases d)
  have m: "map_of (spec_draining s) sid = Some rd" using Cons.prems(3) [of d] by (simp add: d)
  obtain b where b: "spec_bufs s sid = Some b" using spec_invD [OF Cons.prems(1), of sid] m
    by (cases "spec_bufs s sid") (auto simp: sid_ok_def)
  define n where "n = rd + length (dtsb_dsbd_list b)"
  obtain ok ou where ou: "(if dtsb_committing b then dt_commit_one_spec emit (dtsb_dsbd_list b) (out s) else (True, out s)) = (ok, ou)"
    by fastforce
  have okT: "ok" if "\<forall>ou cpu data. fst (emit ou cpu data)"
    using ou commit_one_ok [of emit "dtsb_dsbd_list b" "out s"] that by (auto split: if_splits)
  let ?keep = "dt_spec_buf_data_destroy ((drain_count sid n s)\<lparr>out := ou\<rparr>) sid b"
  let ?free = "dt_spec_buf_destroy osp
    (s\<lparr>spec_draining := filter (\<lambda>d. fst d \<noteq> sid) (map (\<lambda>d. if fst d = sid then (sid, n) else d) (spec_draining s)), out := ou\<rparr>) sid"
  have step: "spec_drain emit osp (d # ds) s = (if \<not> ok then Some (False, ?keep)
      else if n < unat (sp_written (dtsb_spec b)) then spec_drain emit osp ds ?keep else spec_drain emit osp ds ?free)"
    unfolding n_def using b ou by (cases s; cases "dtsb_committing b") (simp_all add: d drain_count_def Let_def)
  have keep: "spec_inv osp k l c ?keep" unfolding n_def by (rule drain_keep_inv [OF Cons.prems(1) m b])
  have keep_simps: "specs ?keep = specs s" "specdrops ?keep = specdrops s"
    by (simp_all add: dt_spec_buf_data_destroy_def drain_count_def)
  have other: "fst e \<noteq> sid" "map_of (spec_draining s) (fst e) = Some (snd e)" if "e \<in> set ds" for e
    using Cons.prems(2,3) that by (auto simp: d rev_image_eqI)
  show ?case
  proof (cases "ok \<and> \<not> n < unat (sp_written (dtsb_spec b))")
    case True
    have all: "\<not> rd + length (dtsb_dsbd_list b) < unat (sp_written (dtsb_spec b))" using True by (simp add: n_def)
    note free = drain_free_inv [OF laws Cons.prems(1) m b all, where n = n and ou = ou]
    have run: "spec_drain emit osp (d # ds) s = spec_drain emit osp ds ?free" using step True by simp
    have "\<exists>ok s'. spec_drain emit osp ds ?free = Some (ok, s') \<and> spec_inv osp k l c s' \<and> specdrops s' = specdrops ?free \<and>
        (\<forall>x. bm_lookup osp (specs s') x = bm_lookup osp (specs ?free) x \<or> bm_lookup osp (specs s') x = None) \<and>
        ((\<forall>ou cpu data. fst (emit ou cpu data)) \<longrightarrow>
          ok \<and> (l \<and> specdrops ?free = 0 \<longrightarrow> (\<forall>d \<in> set ds. c (fst d) = 0 \<longrightarrow> bm_lookup osp (specs s') (fst d) = None)))"
      using free(1,3) Cons.prems(2) other by (intro Cons.IH) auto
    then obtain ok' s' where s': "spec_drain emit osp ds ?free = Some (ok', s')" "spec_inv osp k l c s'" "specdrops s' = specdrops ?free"
      "\<forall>x. bm_lookup osp (specs s') x = bm_lookup osp (specs ?free) x \<or> bm_lookup osp (specs s') x = None"
      "(\<forall>ou cpu data. fst (emit ou cpu data)) \<longrightarrow>
        ok' \<and> (l \<and> specdrops ?free = 0 \<longrightarrow> (\<forall>d \<in> set ds. c (fst d) = 0 \<longrightarrow> bm_lookup osp (specs s') (fst d) = None))" by blast
    have dr: "specdrops ?free = specdrops s" by (simp add: dt_spec_buf_destroy_def)
    have L: "bm_lookup osp (specs s') x = ((bm_lookup osp (specs s))(sid := None)) x \<or> bm_lookup osp (specs s') x = None" for x
      using s'(4) [rule_format, of x] unfolding free(2) .
    have "bm_lookup osp (specs s') x = bm_lookup osp (specs s) x \<or> bm_lookup osp (specs s') x = None" for x
      using L [of x] by (cases "x = sid") simp_all
    moreover have "bm_lookup osp (specs s') sid = None" using L [of sid] by simp
    moreover have "specdrops s' = specdrops s" using s'(3) dr by simp
    ultimately show ?thesis unfolding run using s'(1,2,5) dr by (intro exI [of _ ok'] exI [of _ s']) (simp add: d)
  next
    case False
    show ?thesis
    proof (cases ok)
      case True
      with False have less: "n < unat (sp_written (dtsb_spec b))" by simp
      have "\<exists>ok s'. spec_drain emit osp ds ?keep = Some (ok, s') \<and> spec_inv osp k l c s' \<and> specdrops s' = specdrops ?keep \<and>
          (\<forall>x. bm_lookup osp (specs s') x = bm_lookup osp (specs ?keep) x \<or> bm_lookup osp (specs s') x = None) \<and>
          ((\<forall>ou cpu data. fst (emit ou cpu data)) \<longrightarrow>
            ok \<and> (l \<and> specdrops ?keep = 0 \<longrightarrow> (\<forall>d \<in> set ds. c (fst d) = 0 \<longrightarrow> bm_lookup osp (specs s') (fst d) = None)))"
        using keep Cons.prems(2) other
        by (intro Cons.IH) (auto simp: dt_spec_buf_data_destroy_def drain_count_def map_of_set_count)
      moreover have "\<not> (l \<and> specdrops s = 0 \<and> c sid = 0)"
        using spec_invD [OF Cons.prems(1), of sid] less unfolding m b
        by (auto simp: sid_ok_def Let_def n_def split: option.splits if_splits)
      ultimately show ?thesis using step True less unfolding keep_simps by (auto simp: d)
    next
      case nok: False
      then show ?thesis using step keep keep_simps okT by auto
    qed
  qed
qed

section \<open>Every step keeps the invariant\<close>

definition in_ring :: "(nat \<times> spec_rec) list \<Rightarrow> u32 \<Rightarrow> nat" where
  "in_ring rs sid = length (filter (\<lambda>e. case snd e of SData x _ \<Rightarrow> x = sid | _ \<Rightarrow> False) rs)"

lemma in_ring_simps [simp]:
  "in_ring [] = (\<lambda>_. 0)"
  "in_ring (as @ bs) sid = in_ring as sid + in_ring bs sid"
  "in_ring ((cpu, SData x data) # rs) sid = (if x = sid then 1 else 0) + in_ring rs sid"
  "in_ring ((cpu, SEnd commit x) # rs) sid = in_ring rs sid"
  "in_ring ((cpu, SOther) # rs) sid = in_ring rs sid"
  by (auto simp: in_ring_def)

lemma in_ring_data: "in_ring (as @ (cpu, SData x data) # bs) = (in_ring (as @ bs))(x := Suc (in_ring (as @ bs) x))"
  by (auto simp: fun_eq_iff)

lemma in_ring_rest: "in_ring (as @ (cpu, SEnd commit x) # bs) = in_ring (as @ bs)" "in_ring (as @ (cpu, SOther) # bs) = in_ring (as @ bs)"
  by (auto simp: fun_eq_iff)

definition sys_inv :: "'m spec_ops \<Rightarrow> (u32 \<Rightarrow> nat) \<Rightarrow> ('m, 'o) spec_sys \<Rightarrow> bool" where
  "sys_inv osp k s \<longleftrightarrow> spec_inv osp k (lost s = 0) (in_ring (ring s)) (st s)"

lemma spec_search_lookup:
  assumes "bpf_map_laws osp" and "spec_search osp nspec ns m busy = (r, busy', m')"
  shows "case r of None \<Rightarrow> bm_lookup osp m' = bm_lookup osp m
    | Some sid \<Rightarrow> bm_lookup osp m sid = None \<and> sid \<in> word_of_nat ` (set ns \<inter> {..nspec}) \<and>
        bm_lookup osp m' = (bm_lookup osp m)(sid \<mapsto> \<lparr>sp_written = 0, sp_size = 0, sp_draining = 0\<rparr>)"
  using assms(2)
proof (induction ns arbitrary: m busy)
  case Nil
  then show ?case by auto
next
  case (Cons n ns)
  show ?case
  proof (cases "n > nspec")
    case True
    with Cons.prems show ?thesis by auto
  next
    case False
    obtain q m1 where upd: "bm_update osp m (word_of_nat n) \<lparr>sp_written = 0, sp_size = 0, sp_draining = 0\<rparr> BPF_NOEXIST = (q, m1)"
      by fastforce
    show ?thesis
    proof (cases "q = 0")
      case True
      then have "bm_lookup osp m (word_of_nat n) = None" using bpf_map_lawsD(2) [OF assms(1) upd]
        by (cases "bm_lookup osp m (word_of_nat n)") auto
      moreover have "r = Some (word_of_nat n)" "m' = m1" using Cons.prems False upd True by (simp_all add: Let_def)
      ultimately show ?thesis using bpf_map_lawsD(4) [OF assms(1) upd] True False by simp
    next
      case nz: False
      then have same: "bm_lookup osp m1 = bm_lookup osp m"
        using bpf_map_lawsD(1,3) [OF assms(1) upd] by simp
      have "\<exists>b. spec_search osp nspec ns m1 b = (r, busy', m')"
        using Cons.prems False upd nz by (auto simp: Let_def split: option.splits)
      then obtain b where "spec_search osp nspec ns m1 b = (r, busy', m')" ..
      from Cons.IH [OF this] same show ?thesis by (auto split: option.splits)
    qed
  qed
qed

lemma sid_ok_write:
  "sid_ok k z c (Some sp) B D \<Longrightarrow> sp_draining sp = 0 \<Longrightarrow> unat (sp_written sp) + 1 < 2 ^ 64 \<Longrightarrow>
   sid_ok k (z \<and> n = 1) (c + n) (Some (sp\<lparr>sp_written := sp_written sp + 1\<rparr>)) B D" if "n \<le> 1"
proof -
  assume ok: "sid_ok k z c (Some sp) B D" and d: "sp_draining sp = 0" and w: "unat (sp_written sp) + 1 < 2 ^ 64"
  have "unat (sp_written sp + 1) = unat (sp_written sp) + 1" using w by (simp add: unat_word_ariths)
  with ok d that show ?thesis by (auto simp: sid_ok_def Let_def split: option.splits if_splits)
qed

lemma sid_ok_end: "sid_ok k z c (Some sp) B D \<Longrightarrow> sid_ok k z c (Some (sp\<lparr>sp_draining := 1\<rparr>)) B D"
  by (auto simp: sid_ok_def Let_def split: option.splits if_splits)

lemma spec_take_inv:
  assumes laws: "bpf_map_laws osp" and "spec_inv osp k l (in_ring (as @ (cpu, r) # bs)) s"
    and "spec_consume emit osp specsize r cpu inserted mm s = Some s'"
  shows "spec_inv osp k l (in_ring (as @ bs)) s'"
proof -
  have drain: "spec_inv osp k l c s''" if "spec_inv osp k l c t" "spec_drain emit osp (spec_draining t) t = Some (ok, s'')" for c t ok s''
  proof -
    have "distinct (map fst (spec_draining t))" using that(1) by (simp add: spec_inv_def)
    then show ?thesis using spec_drain_inv [OF laws that(1), of "spec_draining t" emit] that(2) by (auto simp: map_of_eq_Some_iff)
  qed
  show ?thesis
  proof (cases r)
    case (SData x data)
    with assms spec_hive_inv [of osp k l "in_ring (as @ bs)" x s specsize cpu data inserted mm] show ?thesis
      unfolding in_ring_data by (auto simp: spec_consume_def in_ring_data simp del: in_ring_simps)
  next
    case (SEnd commit x)
    have inv: "spec_inv osp k l (in_ring (as @ bs)) s" using assms(2) unfolding SEnd in_ring_rest .
    from assms(3) obtain e t where t: "spec_commit_discard osp s x commit mm = Some (e, t)"
      "s' = t \<or> (\<exists>ok. spec_drain emit osp (spec_draining t) t = Some (ok, s'))"
      by (auto simp: spec_consume_def SEnd split: if_splits bind_splits)
    from spec_commit_discard_inv [OF inv t(1)] t(2) drain show ?thesis by blast
  next
    case SOther
    have inv: "spec_inv osp k l (in_ring (as @ bs)) s" using assms(2) unfolding SOther in_ring_rest .
    from assms(3) obtain ok where "spec_drain emit osp (spec_draining s) s = Some (ok, s')"
      by (auto simp: spec_consume_def SOther split: bind_splits)
    with drain [OF inv] show ?thesis by blast
  qed
qed

lemma spec_step_inv:
  assumes laws: "bpf_map_laws osp" and "spec_step emit osp nspec specsize s s'" and "sys_inv osp k s"
  shows "sys_inv osp k s'"
  using assms(2,3)
proof cases
  case (spec_new r busy m)
  show ?thesis
  proof (cases r)
    case None
    then have "bm_lookup osp m = bm_lookup osp (specs (st s))" using spec_search_lookup [OF laws spec_new(2)] by simp
    with assms(3) show ?thesis by (simp add: spec_new(1) sys_inv_def spec_inv_def)
  next
    case (Some sid)
    then have L: "bm_lookup osp (specs (st s)) sid = None"
      "bm_lookup osp m = (bm_lookup osp (specs (st s)))(sid \<mapsto> \<lparr>sp_written = 0, sp_size = 0, sp_draining = 0\<rparr>)"
      using spec_search_lookup [OF laws spec_new(2)] by auto
    have inv: "spec_inv osp k (lost s = 0) (in_ring (ring s)) (st s)" using assms(3) by (simp add: sys_inv_def)
    show ?thesis unfolding sys_inv_def spec_new(1)
      by (rule spec_inv_update [OF inv, of _ sid])
        (use inv spec_invD [OF inv, of sid] in \<open>auto simp: L spec_inv_def sid_ok_def split: option.splits\<close>)
  qed
next
  case (spec_write sid m delivered cpu data)
  have inv: "spec_inv osp k (lost s = 0) (in_ring (ring s)) (st s)" using assms(3) by (simp add: sys_inv_def)
  from spec_write(2,3) obtain sp where sp: "bm_lookup osp (specs (st s)) sid = Some sp" "sp_draining sp = 0"
    "unat (sp_written sp) + 1 < 2 ^ 64" "m = bm_store osp (specs (st s)) sid (sp\<lparr>sp_written := sp_written sp + 1\<rparr>)"
    by (auto simp: dt_speculation_speculate_def split: option.splits if_splits)
  have L: "bm_lookup osp m = (bm_lookup osp (specs (st s)))(sid \<mapsto> sp\<lparr>sp_written := sp_written sp + 1\<rparr>)"
    unfolding sp(4) using sp(1) by (intro bpf_map_lawsD(6) [OF laws]) simp
  have ok: "sid_ok (k sid) ((lost s = 0 \<and> specdrops (st s) = 0) \<and> n = 1) (in_ring (ring s) sid + n)
      (Some (sp\<lparr>sp_written := sp_written sp + 1\<rparr>)) (spec_bufs (st s) sid) (map_of (spec_draining (st s)) sid)" if "n \<le> 1" for n
    using sid_ok_write [OF that spec_invD [OF inv, of sid, unfolded sp(1)] sp(2,3)] .
  show ?thesis unfolding sys_inv_def spec_write(1)
    by (rule spec_inv_update [OF inv, of _ sid])
      (use inv ok [of "if delivered then 1 else 0"] in \<open>auto simp: L spec_inv_def split: if_splits\<close>)
next
  case (spec_end dt_error pc mst sid m mst' delivered cpu commit)
  have inv: "spec_inv osp k (lost s = 0) (in_ring (ring s)) (st s)" using assms(3) by (simp add: sys_inv_def)
  show ?thesis
  proof (cases "bm_lookup osp (specs (st s)) sid")
    case None
    then have "m = specs (st s)" using spec_end(2) by (auto simp: dt_speculation_set_drainable_def split: if_splits)
    with inv show ?thesis by (simp add: sys_inv_def spec_end(1) spec_inv_def)
  next
    case (Some sp)
    then have L: "bm_lookup osp m = (bm_lookup osp (specs (st s)))(sid \<mapsto> sp\<lparr>sp_draining := 1\<rparr>)"
      using spec_end(2) bpf_map_lawsD(6) [OF laws, of "specs (st s)" sid "sp\<lparr>sp_draining := 1\<rparr>"]
      by (auto simp: dt_speculation_set_drainable_def)
    show ?thesis unfolding sys_inv_def spec_end(1)
      by (rule spec_inv_update [OF inv, of _ sid])
        (use inv sid_ok_end [OF spec_invD [OF inv, of sid, unfolded Some]] in \<open>auto simp: L spec_inv_def\<close>)
  qed
next
  case (spec_other delivered cpu)
  with assms(3) show ?thesis by (simp add: sys_inv_def spec_inv_def)
next
  case (spec_take as cpu r bs inserted mm s')
  with assms(3) spec_take_inv [OF laws, of k "lost s = 0" as cpu r bs "st s"] show ?thesis by (simp add: sys_inv_def)
qed

lemma spec_steps_inv:
  assumes "bpf_map_laws osp" and "(spec_step emit osp nspec specsize)\<^sup>*\<^sup>* s s'" and "sys_inv osp k s"
  shows "sys_inv osp k s'"
  using assms(2,3) by (induction rule: rtranclp_induct) (auto intro: spec_step_inv [OF assms(1)])

lemma spec_init_inv: "(\<And>sid. bm_lookup osp m sid = None) \<Longrightarrow> sys_inv osp (\<lambda>_. 0) (spec_init m ou)"
  by (simp add: sys_inv_def spec_init_def spec_inv_def sid_ok_def)

lemmas spec_reach_inv = spec_steps_inv [OF _ _ spec_init_inv]

text \<open>A run of a few steps, for the examples below: two CPUs, one speculation, no output.\<close>

abbreviation demo_ops :: "((u32 \<times> dt_bpf_specs) list, u32, dt_bpf_specs) bpf_map_ops" where
  "demo_ops \<equiv> bounded_map_ops 4"

abbreviation demo_emit :: "(nat \<times> u8 list) list emitter" where
  "demo_emit \<equiv> (\<lambda>ou cpu data. (True, ou @ [(cpu, data)]))"

abbreviation demo_step where "demo_step \<equiv> spec_step demo_emit demo_ops 4 64"

type_synonym demo_sys = "((u32 \<times> dt_bpf_specs) list, (nat \<times> u8 list) list) spec_sys"

definition demo_write :: "bool \<Rightarrow> nat \<Rightarrow> demo_sys \<Rightarrow> demo_sys" where
  "demo_write delivered cpu s =
     s\<lparr>st := (st s)\<lparr>specs := snd (dt_speculation_speculate demo_ops (specs (st s)) 1)\<rparr>,
       ring := ring s @ (if delivered then [(cpu, SData 1 [7])] else []), lost := lost s + (if delivered then 0 else 1)\<rparr>"

definition demo_end :: "nat \<Rightarrow> demo_sys \<Rightarrow> demo_sys" where
  "demo_end cpu s =
     s\<lparr>st := (st s)\<lparr>specs := (case bm_lookup demo_ops (specs (st s)) 1 of None \<Rightarrow> specs (st s)
         | Some spec \<Rightarrow> bm_store demo_ops (specs (st s)) 1 (spec\<lparr>sp_draining := 1\<rparr>))\<rparr>,
       ring := ring s @ [(cpu, SEnd True 1)]\<rparr>"

definition demo_new :: "demo_sys \<Rightarrow> demo_sys" where
  "demo_new s = s\<lparr>st := (st s)\<lparr>specs := snd (snd (spec_search demo_ops 4 [1..<17] (specs (st s)) 0))\<rparr>\<rparr>"

definition demo_other :: "nat \<Rightarrow> demo_sys \<Rightarrow> demo_sys" where
  "demo_other cpu s = s\<lparr>ring := ring s @ [(cpu, SOther)]\<rparr>"

definition demo_take :: "nat \<Rightarrow> demo_sys \<Rightarrow> demo_sys" where
  "demo_take cpu s =
     s\<lparr>st := the (spec_consume demo_emit demo_ops 64 (snd (hd (dropWhile (\<lambda>e. fst e \<noteq> cpu) (ring s)))) cpu True
         [Some 1, Some 2, Some 3] (st s)),
       ring := takeWhile (\<lambda>e. fst e \<noteq> cpu) (ring s) @ tl (dropWhile (\<lambda>e. fst e \<noteq> cpu) (ring s))\<rparr>"

lemma demo_steps:
  "demo_step\<^sup>*\<^sup>* s0 s \<Longrightarrow> demo_step\<^sup>*\<^sup>* s0 (demo_new s)"
  "demo_step\<^sup>*\<^sup>* s0 s \<Longrightarrow> demo_step\<^sup>*\<^sup>* s0 (demo_other cpu s)"
  "demo_step\<^sup>*\<^sup>* s0 s \<Longrightarrow> fst (dt_speculation_speculate demo_ops (specs (st s)) 1) \<Longrightarrow>
   (case bm_lookup demo_ops (specs (st s)) 1 of None \<Rightarrow> False | Some spec \<Rightarrow> unat (sp_written spec) + 1 < 2 ^ 64) \<Longrightarrow>
   demo_step\<^sup>*\<^sup>* s0 (demo_write delivered cpu s)"
  "demo_step\<^sup>*\<^sup>* s0 s \<Longrightarrow> demo_step\<^sup>*\<^sup>* s0 (demo_end cpu s)"
  "demo_step\<^sup>*\<^sup>* s0 s \<Longrightarrow> cpu \<in> fst ` set (ring s) \<Longrightarrow>
   spec_consume demo_emit demo_ops 64 (snd (hd (dropWhile (\<lambda>e. fst e \<noteq> cpu) (ring s)))) cpu True
     [Some 1, Some 2, Some 3] (st s) \<noteq> None \<Longrightarrow>
   demo_step\<^sup>*\<^sup>* s0 (demo_take cpu s)"
proof -
  note step = rtranclp.rtrancl_into_rtrancl
  show "demo_step\<^sup>*\<^sup>* s0 s \<Longrightarrow> demo_step\<^sup>*\<^sup>* s0 (demo_new s)"
    unfolding demo_new_def
    by (erule step, rule spec_new [of _ _ _ "fst (spec_search demo_ops 4 [1..<17] (specs (st s)) 0)"
          "fst (snd (spec_search demo_ops 4 [1..<17] (specs (st s)) 0))"]) (simp only: prod.collapse)
  show "demo_step\<^sup>*\<^sup>* s0 s \<Longrightarrow> demo_step\<^sup>*\<^sup>* s0 (demo_other cpu s)"
    using spec_other [of demo_emit demo_ops 4 64 s True cpu] unfolding demo_other_def by (auto elim: step)
  show "demo_step\<^sup>*\<^sup>* s0 s \<Longrightarrow> fst (dt_speculation_speculate demo_ops (specs (st s)) 1) \<Longrightarrow>
    (case bm_lookup demo_ops (specs (st s)) 1 of None \<Rightarrow> False | Some spec \<Rightarrow> unat (sp_written spec) + 1 < 2 ^ 64) \<Longrightarrow>
    demo_step\<^sup>*\<^sup>* s0 (demo_write delivered cpu s)"
    unfolding demo_write_def by (erule step) (rule spec_write, auto simp: prod_eq_iff)
  show "demo_step\<^sup>*\<^sup>* s0 s \<Longrightarrow> demo_step\<^sup>*\<^sup>* s0 (demo_end cpu s)"
    unfolding demo_end_def
    using spec_end [of demo_ops 4 "\<lambda>mst. mst" 0 mst s 1 _ mst demo_emit 64 True cpu True] step
    by (auto simp: dt_speculation_set_drainable_def split: option.splits)
  show "demo_step\<^sup>*\<^sup>* s0 s \<Longrightarrow> cpu \<in> fst ` set (ring s) \<Longrightarrow>
   spec_consume demo_emit demo_ops 64 (snd (hd (dropWhile (\<lambda>e. fst e \<noteq> cpu) (ring s)))) cpu True
     [Some 1, Some 2, Some 3] (st s) \<noteq> None \<Longrightarrow>
   demo_step\<^sup>*\<^sup>* s0 (demo_take cpu s)"
  proof -
    assume reach: "demo_step\<^sup>*\<^sup>* s0 s" and cpu: "cpu \<in> fst ` set (ring s)"
      and ok: "spec_consume demo_emit demo_ops 64 (snd (hd (dropWhile (\<lambda>e. fst e \<noteq> cpu) (ring s)))) cpu True
        [Some 1, Some 2, Some 3] (st s) \<noteq> None"
    obtain e bs where e: "dropWhile (\<lambda>e. fst e \<noteq> cpu) (ring s) = e # bs" "fst e = cpu"
      using cpu by (cases "dropWhile (\<lambda>e. fst e \<noteq> cpu) (ring s)")
        (auto simp: dropWhile_eq_Nil_conv dropWhile_eq_Cons_conv)
    then have "ring s = takeWhile (\<lambda>e. fst e \<noteq> cpu) (ring s) @ (cpu, snd e) # bs"
      by (metis prod.collapse takeWhile_dropWhile_id)
    moreover have "cpu \<notin> fst ` set (takeWhile (\<lambda>e. fst e \<noteq> cpu) (ring s))" by (auto dest: set_takeWhileD)
    ultimately show "demo_step\<^sup>*\<^sup>* s0 (demo_take cpu s)"
      using reach ok unfolding demo_take_def e list.sel
      by (auto intro!: step [OF reach] spec_take simp: e)
  qed
qed

lemmas demo_eval = demo_new_def demo_write_def demo_end_def demo_other_def demo_take_def spec_init_def bounded_map_ops_def
  dt_speculation_speculate_def dt_speculation_set_drainable_def spec_consume_def spec_hive_def dt_spec_buf_create_def
  dt_spec_buf_add_data_def spec_commit_discard_def dt_spec_buf_data_destroy_def dt_spec_buf_destroy_def Let_def

definition demo_sys :: "dt_bpf_specs list \<Rightarrow> (u32 \<Rightarrow> dt_spec_buf option) \<Rightarrow> (u32 \<times> nat) list \<Rightarrow> (nat \<times> u8 list) list \<Rightarrow>
    (nat \<times> spec_rec) list \<Rightarrow> nat \<Rightarrow> demo_sys" where
  "demo_sys m bufs dr ou rs n =
     \<lparr>st = \<lparr>specs = map (Pair 1) m, spec_bufs = bufs, spec_draining = dr, specdrops = 0, out = ou\<rparr>, ring = rs, lost = n\<rparr>"

abbreviation "demo_spec n \<equiv> \<lparr>sp_written = n, sp_size = 0, sp_draining = 0\<rparr>"

abbreviation "demo_ended n \<equiv> \<lparr>sp_written = n, sp_size = 0, sp_draining = 1\<rparr>"

lemma demo_start: "demo_step\<^sup>*\<^sup>* (spec_init [] []) (demo_sys [demo_spec 0] (\<lambda>_. None) [] [] [] 0)"
proof -
  have "demo_new (spec_init [] []) = demo_sys [demo_spec 0] (\<lambda>_. None) [] [] [] 0"
    by (simp add: demo_eval demo_sys_def upt_conv_Cons [of "Suc 0"])
  then show ?thesis using demo_steps(1) [OF rtranclp.rtrancl_refl, of "spec_init [] []"] by simp
qed

text \<open>Data of the speculation on two CPUs; it is committed on the first of them.\<close>

definition demo_mid :: demo_sys where
  "demo_mid = demo_sys [demo_ended 2, demo_spec 2, demo_spec 1, demo_spec 0] (\<lambda>_. None) [] []
     [(0, SData 1 [7]), (1, SData 1 [7]), (0, SEnd True 1), (0, SOther)] 0"

lemma demo_mid_reach: "demo_step\<^sup>*\<^sup>* (spec_init [] []) demo_mid"
proof -
  have 1: "demo_write True 0 (demo_sys [demo_spec 0] (\<lambda>_. None) [] [] [] 0) =
      demo_sys [demo_spec 1, demo_spec 0] (\<lambda>_. None) [] [] [(0, SData 1 [7])] 0" (is "_ = ?s1")
    by (simp add: demo_eval demo_sys_def)
  have 2: "demo_write True 1 ?s1 =
      demo_sys [demo_spec 2, demo_spec 1, demo_spec 0] (\<lambda>_. None) [] [] [(0, SData 1 [7]), (1, SData 1 [7])] 0" (is "_ = ?s2")
    by (simp add: demo_eval demo_sys_def)
  have "demo_step\<^sup>*\<^sup>* (spec_init [] []) ?s1" unfolding 1 [symmetric]
    by (rule demo_steps(3) [OF demo_start]) (simp_all add: demo_eval demo_sys_def)
  then have "demo_step\<^sup>*\<^sup>* (spec_init [] []) ?s2" unfolding 2 [symmetric]
    by (rule demo_steps(3)) (simp_all add: demo_eval demo_sys_def)
  from demo_steps(2) [OF demo_steps(4) [OF this, of 0], of 0] show ?thesis
    by (simp add: demo_other_def demo_end_def demo_mid_def demo_sys_def bounded_map_ops_def)
qed

text \<open>The consumer has taken the data and the end of the first CPU, then the data of the second.\<close>

definition demo_drain :: demo_sys where
  "demo_drain = demo_sys [demo_ended 2, demo_spec 2, demo_spec 1, demo_spec 0]
     [1 \<mapsto> \<lparr>dtsb_size = 1, dtsb_committing = True, dtsb_spec = demo_ended 2, dtsb_dsbd_list = [(1, [7])]\<rparr>]
     [(1, 1)] [(0, [7])] [(0, SOther)] 0"

lemma demo_drain_reach: "demo_step\<^sup>*\<^sup>* (spec_init [] []) demo_drain"
proof -
  let ?m = "[demo_ended 2, demo_spec 2, demo_spec 1, demo_spec 0]"
  have 1: "demo_take 0 demo_mid = demo_sys ?m
      [1 \<mapsto> \<lparr>dtsb_size = 1, dtsb_committing = False, dtsb_spec = demo_spec 0, dtsb_dsbd_list = [(0, [7])]\<rparr>]
      [] [] [(1, SData 1 [7]), (0, SEnd True 1), (0, SOther)] 0" (is "_ = ?s1")
    by (simp add: demo_eval demo_sys_def demo_mid_def)
  have 2: "demo_take 0 ?s1 = demo_sys ?m
      [1 \<mapsto> \<lparr>dtsb_size = 0, dtsb_committing = True, dtsb_spec = demo_ended 2, dtsb_dsbd_list = []\<rparr>]
      [(1, 1)] [(0, [7])] [(1, SData 1 [7]), (0, SOther)] 0" (is "_ = ?s2")
    by (simp add: demo_eval demo_sys_def c_assert_def)
  have 3: "demo_take 1 ?s2 = demo_drain" by (simp add: demo_eval demo_sys_def demo_drain_def)
  have "demo_step\<^sup>*\<^sup>* (spec_init [] []) ?s1" unfolding 1 [symmetric]
    by (rule demo_steps(5) [OF demo_mid_reach]) (simp_all add: demo_eval demo_sys_def demo_mid_def)
  then have "demo_step\<^sup>*\<^sup>* (spec_init [] []) ?s2" unfolding 2 [symmetric]
    by (rule demo_steps(5)) (simp_all add: demo_eval demo_sys_def c_assert_def)
  then show ?thesis unfolding 3 [symmetric]
    by (rule demo_steps(5)) (simp_all add: demo_eval demo_sys_def)
qed






section \<open>Properties\<close>





text \<open>
  C35. That assertion can fail: a commit of an identifier that was not in use is in the buffer of one CPU when the
  identifier is given out and used on another CPU, whose data the consumer takes first.
\<close>

theorem spec_assert_reachable:
  "\<exists>s. demo_step\<^sup>*\<^sup>* (spec_init [] []) s \<and> ring s = [(1, SEnd True 1)] \<and>
     spec_consume demo_emit demo_ops 64 (SEnd True 1) 1 inserted mm (st s) = None"
proof -
  let ?e = "[(1::nat, SEnd True 1)]"
  let ?s = "demo_sys [demo_spec 1, demo_spec 0]
    [1 \<mapsto> \<lparr>dtsb_size = 1, dtsb_committing = False, dtsb_spec = demo_spec 0, dtsb_dsbd_list = [(0, [7])]\<rparr>] [] [] ?e 0"
  have 1: "demo_new (demo_end 1 (spec_init [] [])) = demo_sys [demo_spec 0] (\<lambda>_. None) [] [] ?e 0" (is "_ = ?s1")
    by (simp add: demo_eval demo_sys_def upt_conv_Cons [of "Suc 0"])
  have 2: "demo_write True 0 ?s1 = demo_sys [demo_spec 1, demo_spec 0] (\<lambda>_. None) [] [] (?e @ [(0, SData 1 [7])]) 0" (is "_ = ?s2")
    by (simp add: demo_eval demo_sys_def)
  have 3: "demo_take 0 ?s2 = ?s" by (simp add: demo_eval demo_sys_def)
  have "demo_step\<^sup>*\<^sup>* (spec_init [] []) ?s1" unfolding 1 [symmetric] by (intro demo_steps(1,4) rtranclp.rtrancl_refl)
  then have "demo_step\<^sup>*\<^sup>* (spec_init [] []) ?s2" unfolding 2 [symmetric]
    by (rule demo_steps(3)) (simp_all add: demo_eval demo_sys_def)
  then have "demo_step\<^sup>*\<^sup>* (spec_init [] []) ?s" unfolding 3 [symmetric]
    by (rule demo_steps(5)) (simp_all add: demo_eval demo_sys_def)
  moreover have "spec_consume demo_emit demo_ops 64 (SEnd True 1) 1 inserted mm (st ?s) = None"
    by (simp add: demo_eval demo_sys_def c_assert_def)
  ultimately show ?thesis by (intro exI [of _ ?s]) (simp add: demo_sys_def)
qed

text \<open>
  C2. An ended speculation whose data has all arrived is freed by the next drain, which consumes its data if it
  is committed: provided no data was dropped and the output accepts the records, the next record that is handled makes the
  identifier available again.
\<close>

theorem spec_drained_freed:
  assumes "bpf_map_laws osp" and "\<And>sid. bm_lookup osp m sid = None"
    and "(spec_step emit osp nspec specsize)\<^sup>*\<^sup>* (spec_init m ou) s" and "lost s = 0" and "specdrops (st s) = 0"
    and "\<And>ou cpu data. fst (emit ou cpu data)"
    and "sid \<in> fst ` set (spec_draining (st s))" and "in_ring (ring s) sid = 0"
  shows "\<exists>s'. spec_consume emit osp specsize SOther cpu inserted mm (st s) = Some s' \<and>
    bm_lookup osp (specs s') sid = None \<and> spec_bufs s' sid = None \<and> sid \<notin> fst ` set (spec_draining s')"
proof -
  have inv: "spec_inv osp (\<lambda>_. 0) (lost s = 0) (in_ring (ring s)) (st s)"
    using spec_reach_inv [OF assms(1,3,2)] unfolding sys_inv_def .
  then have "\<And>d. d \<in> set (spec_draining (st s)) \<Longrightarrow> map_of (spec_draining (st s)) (fst d) = Some (snd d)"
    by (auto simp: spec_inv_def map_of_eq_Some_iff)
  with spec_drain_inv [OF assms(1) inv, of "spec_draining (st s)" emit] inv obtain ok s' where
    s': "spec_drain emit osp (spec_draining (st s)) (st s) = Some (ok, s')" "spec_inv osp (\<lambda>_. 0) (lost s = 0) (in_ring (ring s)) s'"
    "\<forall>d \<in> set (spec_draining (st s)). in_ring (ring s) (fst d) = 0 \<longrightarrow> bm_lookup osp (specs s') (fst d) = None"
    using assms(4-6) by (auto simp: spec_inv_def)
  then have "bm_lookup osp (specs s') sid = None" using assms(7,8) by auto
  with spec_invD [OF s'(2), of sid] s'(1) show ?thesis
    by (intro exI [of _ s']) (simp add: spec_consume_def sid_ok_def map_of_eq_None_iff split: option.splits)
qed

theorem spec_drained_freed_witness:
  "\<exists>s'. spec_consume demo_emit demo_ops 64 SOther 0 True [] (st demo_drain) = Some s' \<and> bm_lookup demo_ops (specs s') 1 = None"
  using spec_drained_freed [OF bounded_map_laws _ demo_drain_reach, of 1 0 True "[]"]
  by (auto simp: demo_drain_def demo_sys_def bounded_map_ops_def)

text \<open>The records of a speculation that are on their way, set aside or drained.\<close>

definition spec_count :: "('m, 'o) spec_sys \<Rightarrow> u32 \<Rightarrow> nat" where
  "spec_count s sid = in_ring (ring s) sid +
     (case spec_bufs (st s) sid of None \<Rightarrow> 0 | Some b \<Rightarrow> length (dtsb_dsbd_list b)) +
     (case map_of (spec_draining (st s)) sid of None \<Rightarrow> 0 | Some r \<Rightarrow> r)"

text \<open>
  C36. Once a data record of a speculation has been dropped, its identifier is never freed: the consumer waits for
  as many records as were written.
\<close>

theorem spec_drop_leaks:
  assumes "bpf_map_laws osp" and "\<And>sid. bm_lookup osp m sid = None"
    and "(spec_step emit osp nspec specsize)\<^sup>*\<^sup>* (spec_init m ou) s"
    and "bm_lookup osp (specs (st s)) sid = Some spec" and "spec_count s sid < unat (sp_written spec)"
    and "(spec_step emit osp nspec specsize)\<^sup>*\<^sup>* s s'"
  shows "bm_lookup osp (specs (st s')) sid \<noteq> None"
proof -
  have inv: "sys_inv osp (\<lambda>_. 0) s" by (rule spec_reach_inv [OF assms(1,3,2)])
  have "sid_ok 1 (lost s = 0 \<and> specdrops (st s) = 0) (in_ring (ring s) sid) (bm_lookup osp (specs (st s)) sid) (spec_bufs (st s) sid)
    (map_of (spec_draining (st s)) sid)"
    using spec_invD [OF inv [unfolded sys_inv_def], of sid] assms(4,5)
    by (auto simp: sid_ok_def spec_count_def Let_def split: option.splits)
  with inv have "sys_inv osp ((\<lambda>_. 0)(sid := 1)) s" by (auto simp: sys_inv_def spec_inv_def)
  from spec_invD [OF spec_steps_inv [OF assms(1,6) this, unfolded sys_inv_def], of sid] show ?thesis
    by (auto simp: sid_ok_def split: option.splits)
qed

theorem spec_drop_leaks_witness:
  "bm_lookup demo_ops (specs (st (demo_take 0 (demo_end 0 (demo_sys [demo_spec 1, demo_spec 0] (\<lambda>_. None) [] [] [] 1))))) 1 \<noteq> None"
proof -
  let ?s = "demo_sys [demo_spec 1, demo_spec 0] (\<lambda>_. None) [] [] [] 1"
  have "demo_write False 0 (demo_sys [demo_spec 0] (\<lambda>_. None) [] [] [] 0) = ?s" by (simp add: demo_eval demo_sys_def)
  then have "demo_step\<^sup>*\<^sup>* (spec_init [] []) ?s"
    using demo_steps(3) [OF demo_start, of False 0] by (simp add: demo_eval demo_sys_def)
  moreover have "demo_step\<^sup>*\<^sup>* ?s (demo_take 0 (demo_end 0 ?s))"
    by (intro demo_steps(4,5) rtranclp.rtrancl_refl) (simp_all add: demo_eval demo_sys_def)
  ultimately show ?thesis using spec_drop_leaks [OF bounded_map_laws, of 4 "[]" demo_emit 4 64 "[]" ?s 1 "demo_spec 1"]
    by (simp add: demo_sys_def bounded_map_ops_def spec_count_def)
qed



end
