(* ===== verification/Arith128.thy ===== *)
theory Arith128
  imports Prelude "HOL-Library.Signed_Division"
begin

text \<open>
  The 128-bit arithmetic behind the stddev() aggregating action, \<^verbatim>\<open>libdtrace/dt_consume.c\<close>: values are pairs of 64-bit
  words, low word first, and the functions are written with 64-bit operations only.

  \<open>val128\<close> reads such a pair as a natural number.  Each function is shown to compute the operation on numbers
  it is named after: in particular the product is exact, the division loop ends with the quotient
  and the square root loop with the integer square root.
\<close>

section \<open>Operations\<close>

type_synonym u128 = "u64 \<times> u64"

fun dt_gt_128 :: "u128 \<Rightarrow> u128 \<Rightarrow> bool" where
  "dt_gt_128 (a0, a1) (b0, b1) \<longleftrightarrow> a1 > b1 \<or> (a1 = b1 \<and> a0 > b0)"

fun dt_ge_128 :: "u128 \<Rightarrow> u128 \<Rightarrow> bool" where
  "dt_ge_128 (a0, a1) (b0, b1) \<longleftrightarrow> a1 > b1 \<or> (a1 = b1 \<and> a0 \<ge> b0)"

fun dt_le_128 :: "u128 \<Rightarrow> u128 \<Rightarrow> bool" where
  "dt_le_128 (a0, a1) (b0, b1) \<longleftrightarrow> a1 < b1 \<or> (a1 = b1 \<and> a0 \<le> b0)"

text \<open>A shift of a word by its width or more is undefined.\<close>

definition shl64 :: "u64 \<Rightarrow> nat \<Rightarrow> u64 option" where
  "shl64 a n = (if n < 64 then Some (push_bit n a) else None)"

definition shr64 :: "u64 \<Rightarrow> nat \<Rightarrow> u64 option" where
  "shr64 a n = (if n < 64 then Some (drop_bit n a) else None)"

fun dt_shift_128 :: "u128 \<Rightarrow> int \<Rightarrow> u128 option" where
  "dt_shift_128 (a0, a1) b =
     (if b = 0 then Some (a0, a1)
      else if b < 0 then do {
        let b = nat (- b);
        if b \<ge> 64 then do {
          a0 \<leftarrow> shr64 a1 (b - 64);
          Some (a0, 0)
        } else do {
          a0 \<leftarrow> shr64 a0 b;
          mask \<leftarrow> shl64 1 (64 - b);
          hi \<leftarrow> shl64 (a1 AND (mask - 1)) (64 - b);
          a1 \<leftarrow> shr64 a1 b;
          Some (a0 OR hi, a1)
        }
      } else do {
        let b = nat b;
        if b \<ge> 64 then do {
          a1 \<leftarrow> shl64 a0 (b - 64);
          Some (0, a1)
        } else do {
          a1 \<leftarrow> shl64 a1 b;
          mask \<leftarrow> shr64 a0 (64 - b);
          a0 \<leftarrow> shl64 a0 b;
          Some (a0, a1 OR mask)
        }
      })"

partial_function (option) nbits_loop :: "u128 \<Rightarrow> nat \<Rightarrow> nat option" where
  "nbits_loop tmp nbits =
     (if dt_gt_128 tmp (0, 0)
      then (case dt_shift_128 tmp (- 1) of None \<Rightarrow> None | Some tmp \<Rightarrow> nbits_loop tmp (nbits + 1))
      else Some nbits)"

definition dt_nbits_128 :: "u128 \<Rightarrow> nat option" where
  "dt_nbits_128 a = do {
     tmp \<leftarrow> dt_shift_128 a (- 1);
     nbits_loop tmp 0
   }"

fun dt_subtract_128 :: "u128 \<Rightarrow> u128 \<Rightarrow> u128" where
  "dt_subtract_128 (m0, m1) (s0, s1) = (m0 - s0, m1 - s1 - (if m0 < s0 then 1 else 0))"

fun dt_add_128 :: "u128 \<Rightarrow> u128 \<Rightarrow> u128" where
  "dt_add_128 (x0, x1) (y0, y1) =
     (let r0 = x0 + y0 in (r0, x1 + y1 + (if r0 < x0 \<or> r0 < y0 then 1 else 0)))"

definition dt_multiply_128 :: "u64 \<Rightarrow> u64 \<Rightarrow> u128 option" where
  "dt_multiply_128 factor1 factor2 = do {
     let hi1 = drop_bit 32 factor1;
     let hi2 = drop_bit 32 factor2;
     let lo1 = factor1 AND 0xffffffff;
     let lo2 = factor2 AND 0xffffffff;
     let product = (lo1 * lo2, hi1 * hi2);
     tmp \<leftarrow> dt_shift_128 (hi1 * lo2, 0) 32;
     let product = dt_add_128 product tmp;
     tmp \<leftarrow> dt_shift_128 (hi2 * lo1, 0) 32;
     Some (dt_add_128 product tmp)
   }"

text \<open>The number of times a divisor can be halved before it is zero.\<close>

function divisor_log :: "u64 \<Rightarrow> nat" where
  "divisor_log divisor = (if divisor > 0 then Suc (divisor_log (drop_bit 1 divisor)) else 0)"
  by auto

termination divisor_log
proof (relation "measure unat")
  fix d :: u64 assume "d > 0"
  then have "0 < unat d" by (simp add: unat_gt_0)
  then show "(drop_bit 1 d, d) \<in> measure unat" by (simp add: drop_bit_eq_div unat_div)
qed simp

partial_function (option) divide_loop :: "u128 \<Rightarrow> u128 \<Rightarrow> u128 \<Rightarrow> u128 \<Rightarrow> u128 \<Rightarrow> u128 option" where
  "divide_loop divisor rem sub msk res =
     (if dt_ge_128 rem divisor then
        (case (if dt_ge_128 rem sub
               then (dt_subtract_128 rem sub, (fst res OR fst msk, snd res OR snd msk))
               else (rem, res)) of
           (rem, res) \<Rightarrow>
             (case dt_shift_128 sub (- 1) of
                None \<Rightarrow> None
              | Some sub \<Rightarrow>
                  (case dt_shift_128 msk (- 1) of
                     None \<Rightarrow> None
                   | Some msk \<Rightarrow> divide_loop divisor rem sub msk res)))
      else Some res)"

definition dt_divide_128 :: "u128 \<Rightarrow> u64 \<Rightarrow> u128 option" where
  "dt_divide_128 dividend divisor = do {
     c_assert (divisor \<noteq> 0);
     let log = divisor_log divisor;
     sub \<leftarrow> dt_shift_128 (divisor, 0) (128 - int log);
     msk \<leftarrow> dt_shift_128 (1, 0) (128 - int log);
     divide_loop (divisor, 0) dividend sub msk (0, 0)
   }"

text \<open>One round of the square root brings down a pair of bits; \<open>n\<close> counts the rounds left.
  After the last round the shift is not used again.\<close>

fun sqrt_loop :: "nat \<Rightarrow> u128 \<Rightarrow> nat \<Rightarrow> u128 \<Rightarrow> u128 \<Rightarrow> u128 option" where
  "sqrt_loop 0 square pair_shift diff res = Some res"
| "sqrt_loop (Suc n) square pair_shift diff res = do {
     next_pair \<leftarrow> dt_shift_128 square (- int pair_shift);
     let next_pair = (fst next_pair AND 3, 0);
     diff \<leftarrow> dt_shift_128 diff 2;
     let diff = dt_add_128 diff next_pair;
     next_try \<leftarrow> dt_shift_128 res 2;
     let next_try = dt_add_128 next_try (1, 0);
     if dt_le_128 next_try diff then do {
       let diff = dt_subtract_128 diff next_try;
       res \<leftarrow> dt_shift_128 res 1;
       let res = dt_add_128 res (1, 0);
       sqrt_loop n square (pair_shift - 2) diff res
     } else do {
       res \<leftarrow> dt_shift_128 res 1;
       sqrt_loop n square (pair_shift - 2) diff res
     }
   }"

definition dt_sqrt_128 :: "u128 \<Rightarrow> u64 option" where
  "dt_sqrt_128 square = do {
     nbits \<leftarrow> dt_nbits_128 square;
     let bit_pairs = nbits div 2;
     res \<leftarrow> sqrt_loop (bit_pairs + 1) square (bit_pairs * 2) (0, 0) (0, 0);
     c_assert (snd res = 0);
     Some (fst res)
   }"

text \<open>
  Signed 64-bit values are integers between \<open>- (2 ^ 63)\<close> and \<open>2 ^ 63 - 1\<close>; a quotient or a negation outside that
  range is undefined, as is division by zero.
\<close>

definition i64_ok :: "int \<Rightarrow> bool" where
  "i64_ok i \<longleftrightarrow> - (2 ^ 63) \<le> i \<and> i < 2 ^ 63"

definition i64_div :: "int \<Rightarrow> int \<Rightarrow> int option" where
  "i64_div a b = (if b \<noteq> 0 \<and> i64_ok (a sdiv b) then Some (a sdiv b) else None)"

definition i64_neg :: "int \<Rightarrow> int option" where
  "i64_neg a = (if i64_ok (- a) then Some (- a) else None)"

text \<open>\<open>data\<close> is the count, the sum, and the two words of the sum of squares.\<close>

fun dt_stddev :: "u64 list \<Rightarrow> u64 \<Rightarrow> u64 option" where
  "dt_stddev [cnt, tot, sq0, sq1] normal = do {
     avg_of_squares \<leftarrow> dt_divide_128 (sq0, sq1) normal;
     avg_of_squares \<leftarrow> dt_divide_128 avg_of_squares cnt;
     norm_avg \<leftarrow> i64_div (sint tot) (sint normal);
     norm_avg \<leftarrow> i64_div norm_avg (sint cnt);
     norm_avg \<leftarrow> (if norm_avg < 0 then i64_neg norm_avg else Some norm_avg);
     square_of_avg \<leftarrow> dt_multiply_128 (word_of_int norm_avg) (word_of_int norm_avg);
     let diff = dt_subtract_128 avg_of_squares square_of_avg;
     dt_sqrt_128 diff
   }"
| "dt_stddev _ _ = None"

section \<open>Values\<close>

definition val128 :: "u128 \<Rightarrow> nat" where
  "val128 a = unat (fst a) + 2 ^ 64 * unat (snd a)"

lemma unat_u64_less: "unat (a :: u64) < 2 ^ 64"
  using unsigned_less [of a] by simp

lemma val128_less: "val128 a < 2 ^ 128"
proof -
  have "unat (fst a) + 2 ^ 64 * unat (snd a) \<le> (2 ^ 64 - 1) + 2 ^ 64 * (2 ^ 64 - 1)"
    using unat_u64_less [of "fst a"] unat_u64_less [of "snd a"] by (intro add_mono mult_le_mono2) simp_all
  then show ?thesis by (simp add: val128_def)
qed

lemma val128_inj [simp]: "val128 a = val128 b \<longleftrightarrow> a = b"
proof
  assume eq: "val128 a = val128 b"
  then have "val128 a mod 2 ^ 64 = val128 b mod 2 ^ 64" "val128 a div 2 ^ 64 = val128 b div 2 ^ 64" by simp_all
  then show "a = b" using unat_u64_less [of "fst a"] unat_u64_less [of "fst b"]
    by (simp add: val128_def prod_eq_iff word_unat_eq_iff)
qed simp

lemma val128_Pair [simp]: "val128 (a, 0) = unat a"
  by (simp add: val128_def)

lemma bit_val128: "bit (val128 a) n \<longleftrightarrow> (if n < 64 then bit (fst a) n else bit (snd a) (n - 64))"
proof -
  have "unat (fst a) AND push_bit 64 (unat (snd a)) = 0"
    by (rule bit_eqI) (auto simp: bit_simps dest: bit_imp_le_length)
  then have "unat (fst a) + push_bit 64 (unat (snd a)) = unat (fst a) OR push_bit 64 (unat (snd a))"
    by (rule disjunctive_add_eq_or)
  then have "val128 a = unat (fst a) OR push_bit 64 (unat (snd a))"
    by (simp add: val128_def push_bit_eq_mult mult.commute)
  then show ?thesis by (auto simp: bit_simps dest: bit_imp_le_length)
qed

lemma lex_less:
  assumes "x0 < (B :: nat)" and "y0 < B"
  shows "x0 + B * x1 < y0 + B * y1 \<longleftrightarrow> x1 < y1 \<or> x1 = y1 \<and> x0 < y0"
proof (cases x1 y1 rule: linorder_cases)
  case less
  then have "B * Suc x1 \<le> B * y1" by (intro mult_le_mono2) simp
  with assms less show ?thesis unfolding mult_Suc_right by linarith
next
  case greater
  then have "B * Suc y1 \<le> B * x1" by (intro mult_le_mono2) simp
  with assms greater show ?thesis unfolding mult_Suc_right by linarith
qed simp

lemma gt_128_val [simp]: "dt_gt_128 a b \<longleftrightarrow> val128 b < val128 a"
proof -
  have "val128 b < val128 a \<longleftrightarrow> unat (snd b) < unat (snd a) \<or> unat (snd b) = unat (snd a) \<and> unat (fst b) < unat (fst a)"
    unfolding val128_def by (rule lex_less [OF unat_u64_less unat_u64_less])
  then show ?thesis by (cases a; cases b) (auto simp: word_less_nat_alt word_unat_eq_iff)
qed

lemma ge_128_gt: "dt_ge_128 a b \<longleftrightarrow> \<not> dt_gt_128 b a"
  by (cases a; cases b) (auto simp del: gt_128_val)

lemma le_128_gt: "dt_le_128 a b \<longleftrightarrow> \<not> dt_gt_128 a b"
  by (cases a; cases b) (auto simp del: gt_128_val)

lemma ge_128_val [simp]: "dt_ge_128 a b \<longleftrightarrow> val128 b \<le> val128 a"
  by (simp add: ge_128_gt not_less)

lemma le_128_val [simp]: "dt_le_128 a b \<longleftrightarrow> val128 a \<le> val128 b"
  by (simp add: le_128_gt not_less)

declare dt_gt_128.simps [simp del] dt_ge_128.simps [simp del] dt_le_128.simps [simp del]

section \<open>Shifts\<close>

lemma bit_word_width: "64 \<le> n \<Longrightarrow> \<not> bit (a :: u64) n"
  using bit_imp_le_length [of a n] by auto

text \<open>
  The right shift by less than a word: the mask that selects the bits that move to the low word has
  \<open>64 - b\<close> bits where \<open>b\<close> are needed.  Up to 32 that makes no difference; beyond, the bits that move are only
  right below bit \<open>128 - 2 * b\<close>.
\<close>

lemma shift_right_bits:
  assumes "0 < b" and "b < 64"
  shows "\<exists>c. dt_shift_128 a (- int b) = Some c \<and>
    (\<forall>n. bit (val128 c) n \<longleftrightarrow> bit (val128 a) (b + n) \<and> (64 - b \<le> n \<and> n < 64 \<longrightarrow> b + n < 128 - b))"
proof -
  obtain a0 a1 where a: "a = (a0, a1)" by (cases a)
  let ?c = "(drop_bit b a0 OR push_bit (64 - b) (a1 AND (push_bit (64 - b) 1 - 1)), drop_bit b a1)"
  have m: "push_bit (64 - b) 1 - 1 = (mask (64 - b) :: u64)" by (simp add: mask_eq_decr_exp)
  have "dt_shift_128 a (- int b) = Some ?c" using assms by (simp add: a shr64_def shl64_def Let_def)
  moreover have "bit (val128 ?c) n \<longleftrightarrow> bit (val128 a) (b + n) \<and> (64 - b \<le> n \<and> n < 64 \<longrightarrow> b + n < 128 - b)" for n
    unfolding m using assms by (auto simp: bit_val128 a bit_simps bit_word_width add.commute)
  ultimately show ?thesis by blast
qed

lemma shift_right_val:
  assumes "b \<le> 32 \<or> 64 \<le> b" and "b < 128"
  shows "\<exists>c. dt_shift_128 a (- int b) = Some c \<and> val128 c = val128 a div 2 ^ b"
proof -
  obtain a0 a1 where a: "a = (a0, a1)" by (cases a)
  have goal: "val128 c = val128 a div 2 ^ b"
    if "\<And>n. bit (val128 c) n \<longleftrightarrow> bit (val128 a) (b + n)" for c
    unfolding drop_bit_eq_div [symmetric] using that by (intro bit_eqI) (simp add: bit_drop_bit_eq)
  consider "b = 0" | "64 \<le> b" | "0 < b" "b \<le> 32" using assms by linarith
  then show ?thesis
  proof cases
    case 1
    then show ?thesis by (simp add: a)
  next
    case 2
    have "dt_shift_128 a (- int b) = Some (drop_bit (b - 64) a1, 0)" using 2 assms by (simp add: a shr64_def)
    moreover have "val128 (drop_bit (b - 64) a1, 0 :: u64) = val128 a div 2 ^ b"
      using 2 by (intro goal) (auto simp: bit_val128 a bit_simps bit_word_width)
    ultimately show ?thesis by blast
  next
    case 3
    then obtain c where c: "dt_shift_128 a (- int b) = Some c"
      "\<And>n. bit (val128 c) n \<longleftrightarrow> bit (val128 a) (b + n) \<and> (64 - b \<le> n \<and> n < 64 \<longrightarrow> b + n < 128 - b)"
      using shift_right_bits [of b a] by auto
    have "bit (val128 c) n \<longleftrightarrow> bit (val128 a) (b + n)" for n using c(2) [of n] 3 by auto
    with c(1) goal show ?thesis by blast
  qed
qed

text \<open>The two lowest bits of a shift by an even number are right in any case.\<close>

lemma shift_right_pair:
  assumes "even b" and "b < 128"
  shows "\<exists>c. dt_shift_128 a (- int b) = Some c \<and> unat (fst c AND 3) = val128 a div 2 ^ b mod 4"
proof -
  have pair: "unat (fst c AND 3) = val128 a div 2 ^ b mod 4"
    if "\<And>n. n < 2 \<Longrightarrow> bit (val128 c) n \<longleftrightarrow> bit (val128 a) (b + n)" for c
  proof -
    have m: "(3 :: u64) = mask 2" by (simp add: mask_eq_exp_minus_1)
    have "unat (fst c AND 3) = take_bit 2 (unat (fst c))"
      unfolding m take_bit_eq_mask [symmetric] by (rule unsigned_take_bit_eq)
    also have "\<dots> = take_bit 2 (drop_bit b (val128 a))"
      using that by (intro bit_eqI) (auto simp: bit_simps bit_val128)
    finally show ?thesis by (simp add: take_bit_eq_mod drop_bit_eq_div)
  qed
  show ?thesis
  proof (cases "b \<le> 32 \<or> 64 \<le> b")
    case True
    then obtain c where c: "dt_shift_128 a (- int b) = Some c" "val128 c = val128 a div 2 ^ b"
      using shift_right_val [of b a] assms by blast
    have "bit (val128 c) n \<longleftrightarrow> bit (val128 a) (b + n)" for n
      by (simp add: c(2) bit_drop_bit_eq flip: drop_bit_eq_div)
    with c(1) pair show ?thesis by blast
  next
    case False
    then obtain c where c: "dt_shift_128 a (- int b) = Some c"
      "\<And>n. bit (val128 c) n \<longleftrightarrow> bit (val128 a) (b + n) \<and> (64 - b \<le> n \<and> n < 64 \<longrightarrow> b + n < 128 - b)"
      using shift_right_bits [of b a] by auto
    have "b \<noteq> 63" using assms by auto
    then have "bit (val128 c) n \<longleftrightarrow> bit (val128 a) (b + n)" if "n < 2" for n using c(2) [of n] that False by auto
    with c(1) pair show ?thesis by blast
  qed
qed

lemma shift_left_val:
  assumes "b < 128" and fits: "val128 a * 2 ^ b < 2 ^ 128"
  shows "\<exists>c. dt_shift_128 a (int b) = Some c \<and> val128 c = val128 a * 2 ^ b"
proof -
  obtain a0 a1 where a: "a = (a0, a1)" by (cases a)
  have goal: "val128 c = val128 a * 2 ^ b"
    if "\<And>n. n < 128 \<Longrightarrow> bit (val128 c) n \<longleftrightarrow> b \<le> n \<and> bit (val128 a) (n - b)" for c
  proof -
    have "take_bit 128 (val128 c) = take_bit 128 (push_bit b (val128 a))"
      using that by (intro bit_eqI) (auto simp: bit_simps)
    then show ?thesis using val128_less [of c] fits by (simp add: take_bit_eq_mod push_bit_eq_mult)
  qed
  consider "b = 0" | "64 \<le> b" | "0 < b" "b < 64" by linarith
  then show ?thesis
  proof cases
    case 1
    then show ?thesis by (simp add: a)
  next
    case 2
    have "dt_shift_128 a (int b) = Some (0, push_bit (b - 64) a0)" using 2 assms by (simp add: a shl64_def)
    moreover have "val128 (0, push_bit (b - 64) a0) = val128 a * 2 ^ b"
      using 2 by (intro goal) (auto simp: bit_val128 a bit_simps bit_word_width add.commute)
    ultimately show ?thesis by blast
  next
    case 3
    let ?c = "(push_bit b a0, push_bit b a1 OR drop_bit (64 - b) a0)"
    have "dt_shift_128 a (int b) = Some ?c" using 3 by (simp add: a shr64_def shl64_def Let_def)
    moreover have "val128 ?c = val128 a * 2 ^ b"
      using 3 by (intro goal) (auto simp: bit_val128 a bit_simps bit_word_width add.commute)
    ultimately show ?thesis by blast
  qed
qed

section \<open>Addition, subtraction, multiplication\<close>

lemma add_128_val: "val128 a + val128 b < 2 ^ 128 \<Longrightarrow> val128 (dt_add_128 a b) = val128 a + val128 b"
proof -
  assume fits: "val128 a + val128 b < 2 ^ 128"
  obtain x0 x1 y0 y1 where ab: "a = (x0, x1)" "b = (y0, y1)" by (cases a; cases b)
  define c where "c = (unat x0 + unat y0) div 2 ^ 64"
  have lo: "unat (x0 + y0) = (unat x0 + unat y0) mod 2 ^ 64" by (simp add: unat_word_ariths)
  have c01: "c = 0 \<or> c = 1" using unat_u64_less [of x0] unat_u64_less [of y0] by (simp add: c_def) linarith
  have eq: "unat (x0 + y0) + 2 ^ 64 * c = unat x0 + unat y0" unfolding lo c_def by simp
  have carry: "x0 + y0 < x0 \<or> x0 + y0 < y0 \<longleftrightarrow> c = 1"
    using c01 eq unat_u64_less [of x0] unat_u64_less [of y0] by (auto simp: word_less_nat_alt)
  have sum: "val128 a + val128 b = unat (x0 + y0) + 2 ^ 64 * (unat x1 + unat y1 + c)"
    using eq by (simp add: val128_def ab algebra_simps)
  then have "2 ^ 64 * (unat x1 + unat y1 + c) < 2 ^ 64 * 2 ^ 64" using fits by simp
  then have "unat x1 + unat y1 + c < 2 ^ 64" by simp
  then have "unat (x1 + y1 + (if c = 1 then 1 else 0)) = unat x1 + unat y1 + c"
    using c01 by (auto simp: unat_word_ariths)
  then show ?thesis unfolding sum by (simp add: ab Let_def carry val128_def)
qed

lemma subtract_128_val: "val128 b \<le> val128 a \<Longrightarrow> val128 (dt_subtract_128 a b) = val128 a - val128 b"
proof -
  assume le: "val128 b \<le> val128 a"
  let ?d = "dt_subtract_128 a b"
  obtain x0 x1 y0 y1 where ab: "a = (x0, x1)" "b = (y0, y1)" by (cases a; cases b)
  have "val128 ?d + val128 b = val128 a"
  proof (cases "x0 < y0")
    case True
    then have u: "unat (x0 - y0) + unat y0 = unat x0 + 2 ^ 64"
      using unat_sub_if' [of x0 y0] unat_u64_less [of y0] by (simp add: word_less_nat_alt)
    have "y1 < x1" using le True by (auto simp flip: ge_128_val simp: ab dt_ge_128.simps)
    then have lt: "unat y1 + 1 \<le> unat x1" by (simp add: word_less_nat_alt)
    then have "unat (x1 - y1 - 1) = unat x1 - unat y1 - 1"
      by (simp add: unat_sub word_le_nat_alt unat_sub_if')
    with lt u True show ?thesis by (simp add: val128_def ab) 
  next
    case False
    then have u: "unat (x0 - y0) + unat y0 = unat x0" by (simp add: unat_sub word_le_nat_alt not_less)
    have "y1 \<le> x1" using le False by (auto simp flip: ge_128_val simp: ab dt_ge_128.simps)
    then have "unat (x1 - y1) + unat y1 = unat x1" by (simp add: unat_sub word_le_nat_alt)
    with u False show ?thesis by (simp add: val128_def ab)
  qed
  then show ?thesis by linarith
qed

lemma unat_lo_hi:
  fixes f :: u64
  shows "unat f = unat (drop_bit 32 f) * 2 ^ 32 + unat (f AND 0xffffffff)"
    and "unat (drop_bit 32 f) < 2 ^ 32" and "unat (f AND 0xffffffff) < 2 ^ 32"
proof -
  have m: "(0xffffffff :: u64) = mask 32" by (simp add: mask_eq_exp_minus_1)
  have hi: "unat (drop_bit 32 f) = unat f div 2 ^ 32" by (simp add: drop_bit_eq_div unat_div)
  have lo: "unat (f AND 0xffffffff) = unat f mod 2 ^ 32"
    unfolding m take_bit_eq_mask [symmetric] by (simp add: take_bit_eq_mod unat_mod)
  show "unat f = unat (drop_bit 32 f) * 2 ^ 32 + unat (f AND 0xffffffff)" unfolding hi lo by simp
  show "unat (drop_bit 32 f) < 2 ^ 32" unfolding hi using unat_u64_less [of f] by simp
  show "unat (f AND 0xffffffff) < 2 ^ 32" unfolding lo by simp
qed

lemma unat_mult_32: "unat a < 2 ^ 32 \<Longrightarrow> unat b < 2 ^ 32 \<Longrightarrow> unat (a * b :: u64) = unat a * unat b"
proof -
  assume "unat a < 2 ^ 32" "unat b < 2 ^ 32"
  then have "unat a * unat b < 2 ^ 32 * 2 ^ 32" by (intro mult_strict_mono) simp_all
  then show ?thesis by (simp add: unat_word_ariths)
qed

lemma mult_halves:
  fixes h1 l1 h2 l2 :: nat
  shows "(h1 * 2 ^ 32 + l1) * (h2 * 2 ^ 32 + l2) = l1 * l2 + 2 ^ 64 * (h1 * h2) + h1 * l2 * 2 ^ 32 + h2 * l1 * 2 ^ 32"
proof -
  have "(2 ^ 64 :: nat) = 2 ^ 32 * 2 ^ 32" by simp
  then show ?thesis unfolding \<open>2 ^ 64 = _\<close> by (simp only: ring_distribs mult.assoc mult.commute mult.left_commute add.assoc add.commute add.left_commute)
qed

lemma multiply_128_val: "\<exists>p. dt_multiply_128 f1 f2 = Some p \<and> val128 p = unat f1 * unat f2"
proof -
  define h1 l1 h2 l2 where d: "h1 = unat (drop_bit 32 f1)" "l1 = unat (f1 AND 0xffffffff)"
    "h2 = unat (drop_bit 32 f2)" "l2 = unat (f2 AND 0xffffffff)"
  have b: "h1 < 2 ^ 32" "l1 < 2 ^ 32" "h2 < 2 ^ 32" "l2 < 2 ^ 32" using unat_lo_hi(2,3) by (simp_all add: d)
  have prod: "unat f1 * unat f2 = l1 * l2 + 2 ^ 64 * (h1 * h2) + h1 * l2 * 2 ^ 32 + h2 * l1 * 2 ^ 32"
    using mult_halves unat_lo_hi(1) [of f1] unat_lo_hi(1) [of f2] by (simp only: d)
  have "unat f1 * unat f2 < 2 ^ 64 * 2 ^ 64" using unat_u64_less by (intro mult_strict_mono) simp_all
  then have fits: "l1 * l2 + 2 ^ 64 * (h1 * h2) + h1 * l2 * 2 ^ 32 + h2 * l1 * 2 ^ 32 < 2 ^ 128"
    unfolding prod by simp
  have t: "val128 (drop_bit 32 f1 * (f2 AND 0xffffffff), 0) = h1 * l2" "val128 (drop_bit 32 f2 * (f1 AND 0xffffffff), 0) = h2 * l1"
    using b by (simp_all add: unat_mult_32 d)
  have p0: "val128 ((f1 AND 0xffffffff) * (f2 AND 0xffffffff), drop_bit 32 f1 * drop_bit 32 f2) = l1 * l2 + 2 ^ 64 * (h1 * h2)"
    using b by (simp add: val128_def unat_mult_32 d)
  obtain t1 where t1: "dt_shift_128 (drop_bit 32 f1 * (f2 AND 0xffffffff), 0) 32 = Some t1" "val128 t1 = h1 * l2 * 2 ^ 32"
    using shift_left_val [of 32 "(drop_bit 32 f1 * (f2 AND 0xffffffff), 0)"] fits t by auto
  obtain t2 where t2: "dt_shift_128 (drop_bit 32 f2 * (f1 AND 0xffffffff), 0) 32 = Some t2" "val128 t2 = h2 * l1 * 2 ^ 32"
    using shift_left_val [of 32 "(drop_bit 32 f2 * (f1 AND 0xffffffff), 0)"] fits t by auto
  define p1 where "p1 = dt_add_128 ((f1 AND 0xffffffff) * (f2 AND 0xffffffff), drop_bit 32 f1 * drop_bit 32 f2) t1"
  have v1: "val128 p1 = l1 * l2 + 2 ^ 64 * (h1 * h2) + h1 * l2 * 2 ^ 32"
    unfolding p1_def using fits p0 t1 by (subst add_128_val) linarith+
  have "val128 (dt_add_128 p1 t2) = unat f1 * unat f2"
    unfolding prod using fits v1 t2 by (subst add_128_val) linarith+
  moreover have "dt_multiply_128 f1 f2 = Some (dt_add_128 p1 t2)"
    using t1(1) t2(1) by (simp add: dt_multiply_128_def Let_def p1_def del: dt_add_128.simps dt_shift_128.simps)
  ultimately show ?thesis by blast
qed

section \<open>Bit count\<close>

declare dt_shift_128.simps [simp del] dt_add_128.simps [simp del] dt_subtract_128.simps [simp del]

lemma shift_right_1: "\<exists>c. dt_shift_128 a (- 1) = Some c \<and> val128 c = val128 a div 2"
  using shift_right_val [of 1 a] by simp

text \<open>\<open>dt_nbits_128\<close> counts the bits after the leading one.\<close>

lemma nbits_loop_val:
  "\<exists>n. nbits_loop tmp k = Some (k + n) \<and> val128 tmp < 2 ^ n \<and>
    (if val128 tmp = 0 then n = 0 else 0 < n \<and> 2 ^ (n - 1) \<le> val128 tmp)"
proof (induction "val128 tmp" arbitrary: tmp k rule: less_induct)
  case less
  show ?case
  proof (cases "val128 tmp = 0")
    case True
    then show ?thesis by (intro exI [of _ 0]) (subst nbits_loop.simps, simp)
  next
    case False
    obtain c where c: "dt_shift_128 tmp (- 1) = Some c" "val128 c = val128 tmp div 2" using shift_right_1 by blast
    obtain n where n: "nbits_loop c (k + 1) = Some (k + 1 + n)" "val128 c < 2 ^ n"
      "if val128 c = 0 then n = 0 else 0 < n \<and> 2 ^ (n - 1) \<le> val128 c" using less [of c "k + 1"] c(2) False by auto
    have "nbits_loop tmp k = Some (k + Suc n)" using False c(1) n(1) by (subst nbits_loop.simps) simp
    moreover have "val128 tmp < 2 ^ Suc n" using n(2) c(2) by simp
    moreover have "2 ^ n \<le> val128 tmp"
    proof (cases "val128 c = 0")
      case True
      with n(3) False show ?thesis by simp
    next
      case nz: False
      with n(3) obtain m where "n = Suc m" "2 ^ m \<le> val128 c" by (cases n) auto
      then show ?thesis using c(2) by simp
    qed
    ultimately show ?thesis by (intro exI [of _ "Suc n"]) simp
  qed
qed

lemma nbits_128_val:
  "\<exists>n. dt_nbits_128 a = Some n \<and> val128 a < 2 ^ Suc n \<and> (val128 a = 0 \<longrightarrow> n = 0) \<and> (0 < val128 a \<longrightarrow> 2 ^ n \<le> val128 a)"
proof -
  obtain c where c: "dt_shift_128 a (- 1) = Some c" "val128 c = val128 a div 2" using shift_right_1 by blast
  obtain n where n: "nbits_loop c 0 = Some n" "val128 c < 2 ^ n"
    "if val128 c = 0 then n = 0 else 0 < n \<and> 2 ^ (n - 1) \<le> val128 c" using nbits_loop_val [of c 0] by auto
  have "2 ^ n \<le> val128 a" if "0 < val128 a"
  proof (cases n)
    case 0
    with that show ?thesis by simp
  next
    case (Suc m)
    with n(3) c(2) show ?thesis by (auto split: if_splits)
  qed
  moreover have "val128 a < 2 ^ Suc n" using n(2) c(2) by simp
  moreover have "dt_nbits_128 a = Some n" using c(1) n(1) by (simp add: dt_nbits_128_def)
  ultimately show ?thesis using n(3) c(2) by auto
qed

section \<open>Square root\<close>

lemma isqrt_step:
  fixes r d q q' p :: nat
  assumes "r\<^sup>2 \<le> q" and "q < (r + 1)\<^sup>2" and "d = q - r\<^sup>2" and "q' = 4 * q + p" and "p < 4"
  shows "4 * r + 1 \<le> 4 * d + p \<Longrightarrow> (2 * r + 1)\<^sup>2 \<le> q' \<and> q' < (2 * r + 2)\<^sup>2 \<and> 4 * d + p - (4 * r + 1) = q' - (2 * r + 1)\<^sup>2"
    and "\<not> 4 * r + 1 \<le> 4 * d + p \<Longrightarrow> (2 * r)\<^sup>2 \<le> q' \<and> q' < (2 * r + 1)\<^sup>2 \<and> 4 * d + p = q' - (2 * r)\<^sup>2"
  using assms by (simp_all add: power2_eq_square algebra_simps)

lemma sqrt_less_word: "(r :: nat)\<^sup>2 \<le> q \<Longrightarrow> q < 2 ^ 128 \<Longrightarrow> r < 2 ^ 64"
proof (rule ccontr)
  assume "r\<^sup>2 \<le> q" "q < 2 ^ 128" "\<not> r < 2 ^ 64"
  then have "(2 ^ 64)\<^sup>2 \<le> r\<^sup>2" by (intro power_mono) simp_all
  with \<open>r\<^sup>2 \<le> q\<close> \<open>q < 2 ^ 128\<close> show False by simp
qed

lemma sqrt_loop_val:
  assumes "n \<le> 64" and "pair_shift = 2 * (n - 1)"
    and "(val128 res)\<^sup>2 \<le> val128 sq div 4 ^ n" and "val128 sq div 4 ^ n < (val128 res + 1)\<^sup>2"
    and "val128 diff = val128 sq div 4 ^ n - (val128 res)\<^sup>2"
  shows "\<exists>r. sqrt_loop n sq pair_shift diff res = Some r \<and> (val128 r)\<^sup>2 \<le> val128 sq \<and> val128 sq < (val128 r + 1)\<^sup>2"
  using assms
proof (induction n arbitrary: pair_shift diff res)
  case 0
  then show ?case by simp
next
  case (Suc n)
  define r d q q' p where d: "r = val128 res" "d = val128 diff" "q = val128 sq div 4 ^ Suc n" "q' = val128 sq div 4 ^ n" "p = q' mod 4"
  have q': "q' = 4 * q + p" by (simp add: d div_mult2_eq mult.commute [of 4])
  have rq: "r\<^sup>2 \<le> q" "q < (r + 1)\<^sup>2" "d = q - r\<^sup>2" "p < 4" using Suc.prems by (simp_all add: d)
  have "q' < 2 ^ 128" using val128_less [of sq] le_less_trans [OF div_le_dividend] by (simp add: d)
  moreover have "(2 * r)\<^sup>2 \<le> q'" using rq(1) q' by (simp add: power_mult_distrib)
  ultimately have "2 * r < 2 ^ 64" using sqrt_less_word [of "2 * r" q'] by simp
  then have r64: "2 * r + 1 < 2 ^ 64" by simp
  have "d \<le> 2 * r" using rq by (simp add: power2_eq_square algebra_simps)
  then have d4: "4 * d + p < 2 ^ 128" using r64 rq(4) by simp
  obtain np where np: "dt_shift_128 sq (- int pair_shift) = Some np" "unat (fst np AND 3) = p"
    using shift_right_pair [of pair_shift sq] Suc.prems(1,2) by (auto simp: d power_mult)
  obtain df where df: "dt_shift_128 diff 2 = Some df" "val128 df = 4 * d"
    using shift_left_val [of 2 diff] d4 by (auto simp: d)
  define df' where "df' = dt_add_128 df (fst np AND 3, 0)"
  have df': "val128 df' = 4 * d + p" unfolding df'_def using d4 df(2) np(2) by (subst add_128_val) simp_all
  obtain nt where nt: "dt_shift_128 res 2 = Some nt" "val128 nt = 4 * r"
    using shift_left_val [of 2 res] r64 by (auto simp: d)
  define nt' where "nt' = dt_add_128 nt (1, 0)"
  have nt': "val128 nt' = 4 * r + 1" unfolding nt'_def using r64 nt(2) by (subst add_128_val) simp_all
  obtain rs where rs: "dt_shift_128 res 1 = Some rs" "val128 rs = 2 * r"
    using shift_left_val [of 1 res] r64 by (auto simp: d)
  have rs': "val128 (dt_add_128 rs (1, 0)) = 2 * r + 1" using rs(2) r64 by (subst add_128_val) simp_all
  have ps: "pair_shift - 2 = 2 * (n - 1)" using Suc.prems(2) by simp
  show ?case
  proof (cases "4 * r + 1 \<le> 4 * d + p")
    case True
    note st = isqrt_step(1) [OF rq(1,2,3) q' rq(4) True]
    have "\<exists>x. sqrt_loop n sq (pair_shift - 2) (dt_subtract_128 df' nt') (dt_add_128 rs (1, 0)) = Some x \<and>
        (val128 x)\<^sup>2 \<le> val128 sq \<and> val128 sq < (val128 x + 1)\<^sup>2"
      using Suc.prems(1) ps st True rs' by (intro Suc.IH) (simp_all add: subtract_128_val df' nt' d(4))
    then show ?thesis
      using True np df nt rs by (simp add: Let_def df'_def [symmetric] nt'_def [symmetric] df' nt')
  next
    case False
    note st = isqrt_step(2) [OF rq(1,2,3) q' rq(4) False]
    have "\<exists>x. sqrt_loop n sq (pair_shift - 2) df' rs = Some x \<and>
        (val128 x)\<^sup>2 \<le> val128 sq \<and> val128 sq < (val128 x + 1)\<^sup>2"
      using Suc.prems(1) ps st rs by (intro Suc.IH) (simp_all add: df' d(4))
    then show ?thesis
      using False np df nt rs by (simp add: Let_def df'_def [symmetric] nt'_def [symmetric] df' nt')
  qed
qed

lemma sqrt_128_val:
  "\<exists>r. dt_sqrt_128 sq = Some r \<and> (unat r)\<^sup>2 \<le> val128 sq \<and> val128 sq < (unat r + 1)\<^sup>2"
proof -
  obtain n where n: "dt_nbits_128 sq = Some n" "val128 sq < 2 ^ Suc n" "val128 sq = 0 \<longrightarrow> n = 0" "0 < val128 sq \<longrightarrow> 2 ^ n \<le> val128 sq"
    using nbits_128_val by blast
  have "n < 128"
  proof (cases "val128 sq = 0")
    case False
    with n(4) have "2 ^ n < (2 :: nat) ^ 128" using val128_less [of sq] le_less_trans by blast
    then show ?thesis by (rule power_less_imp_less_exp [rotated]) simp
  qed (use n(3) in simp)
  define bp where "bp = n div 2"
  have "Suc n \<le> 2 * (bp + 1)" by (simp add: bp_def)
  then have "(2 :: nat) ^ Suc n \<le> 2 ^ (2 * (bp + 1))" by (intro power_increasing) simp_all
  then have "val128 sq < 4 ^ (bp + 1)" using n(2) by (simp only: power_mult) simp
  then have "val128 sq div 4 ^ (bp + 1) = 0" by simp
  then have "\<exists>r. sqrt_loop (bp + 1) sq (bp * 2) (0, 0) (0, 0) = Some r \<and> (val128 r)\<^sup>2 \<le> val128 sq \<and> val128 sq < (val128 r + 1)\<^sup>2"
    using \<open>n < 128\<close> by (intro sqrt_loop_val) (simp_all add: bp_def)
  then obtain r where r: "sqrt_loop (bp + 1) sq (bp * 2) (0, 0) (0, 0) = Some r" "(val128 r)\<^sup>2 \<le> val128 sq" "val128 sq < (val128 r + 1)\<^sup>2"
    by blast
  have "val128 r < 2 ^ 64" using sqrt_less_word [OF r(2) val128_less] .
  then have "snd r = 0" by (cases "unat (snd r)") (simp_all add: val128_def unat_eq_zero)
  then have "val128 r = unat (fst r)" by (simp add: val128_def)
  with r \<open>snd r = 0\<close> n(1) show ?thesis by (simp add: dt_sqrt_128_def bp_def [symmetric] del: sqrt_loop.simps)
qed

section \<open>Division\<close>

lemma val128_or: "val128 (fst a OR fst b, snd a OR snd b) = val128 a OR val128 b"
  by (rule bit_eqI) (simp add: bit_val128 bit_simps)

lemma or_eq_add:
  assumes "2 ^ Suc k dvd (a :: nat)"
  shows "a OR 2 ^ k = a + 2 ^ k"
proof -
  from assms obtain m where "a = 2 ^ Suc k * m" ..
  then have "a = push_bit (Suc k) m" by (simp add: push_bit_eq_mult mult.commute)
  then have "a AND 2 ^ k = 0" by (intro bit_eqI) (auto simp: bit_simps bit_0)
  then show ?thesis by (rule disjunctive_add_eq_or [symmetric])
qed

lemma divide_loop_done: "val128 rem < val128 dv \<Longrightarrow> divide_loop dv rem sub msk res = Some res"
  by (subst divide_loop.simps) simp

lemma divide_loop_val:
  assumes "0 < val128 dv" and "val128 sub = val128 dv * 2 ^ k" and "val128 msk = 2 ^ k"
    and "val128 res * val128 dv + val128 rem = N" and "val128 rem < val128 dv * 2 ^ Suc k" and "2 ^ Suc k dvd val128 res"
  shows "\<exists>q. divide_loop dv rem sub msk res = Some q \<and> val128 q = N div val128 dv"
  using assms
proof (induction k arbitrary: sub msk res rem rule: less_induct)
  case (less k)
  define D where "D = val128 dv"
  have quot: "val128 q = N div D" if "val128 q * D + x = N" "x < D" for q x
    using that by (metis add.commute div_mult_self1 div_less add_0 less_nat_zero_code)
  show ?case
  proof (cases "val128 rem < D")
    case True
    then show ?thesis using less.prems(4) quot [of res "val128 rem"] divide_loop_done [of rem dv] by (auto simp: D_def)
  next
    case False
    obtain sub' where sub': "dt_shift_128 sub (- 1) = Some sub'" "val128 sub' = D * 2 ^ k div 2"
      using shift_right_1 [of sub] less.prems(2) by (auto simp: D_def)
    obtain msk' where msk': "dt_shift_128 msk (- 1) = Some msk'" "val128 msk' = 2 ^ k div 2"
      using shift_right_1 [of msk] less.prems(3) by auto
    define sr where "sr = (if val128 sub \<le> val128 rem
      then (dt_subtract_128 rem sub, (fst res OR fst msk, snd res OR snd msk)) else (rem, res))"
    obtain rem' res' where rr: "sr = (rem', res')" by (cases sr)
    have step: "divide_loop dv rem sub msk res = divide_loop dv rem' sub' msk' res'"
      using False sub'(1) msk'(1) rr by (subst divide_loop.simps) (simp add: D_def sr_def)
    have inv: "val128 res' * D + val128 rem' = N" "val128 rem' < D * 2 ^ k" "2 ^ k dvd val128 res'"
    proof (atomize (full), cases "val128 sub \<le> val128 rem")
      case True
      then have "val128 rem' = val128 rem - D * 2 ^ k" "val128 res' = val128 res + 2 ^ k"
        using rr less.prems(2,3) or_eq_add [OF less.prems(6)] by (auto simp: sr_def subtract_128_val val128_or D_def)
      moreover have "2 ^ k dvd val128 res" using less.prems(6) by (rule dvd_trans [rotated]) (simp add: le_imp_power_dvd)
      ultimately show "val128 res' * D + val128 rem' = N \<and> val128 rem' < D * 2 ^ k \<and> 2 ^ k dvd val128 res'"
        using less.prems(2,4,5) True by (auto simp: D_def [symmetric] algebra_simps)
    next
      case no: False
      have "2 ^ k dvd val128 res" using less.prems(6) by (rule dvd_trans [rotated]) (simp add: le_imp_power_dvd)
      then show "val128 res' * D + val128 rem' = N \<and> val128 rem' < D * 2 ^ k \<and> 2 ^ k dvd val128 res'"
        using no rr less.prems(2,4) by (simp add: sr_def D_def)
    qed
    show ?thesis
    proof (cases k)
      case 0
      then have "val128 rem' < D" using inv(2) by simp
      then show ?thesis using quot [OF inv(1)] divide_loop_done [of rem' dv] step by (auto simp: D_def)
    next
      case (Suc j)
      then show ?thesis unfolding step using less.prems(1) inv sub'(2) msk'(2)
        by (intro less.IH [of j]) (simp_all add: D_def)
    qed
  qed
qed

declare divisor_log.simps [simp del]

lemma divisor_log_val: "0 < d \<Longrightarrow> 0 < divisor_log d \<and> 2 ^ (divisor_log d - 1) \<le> unat d \<and> unat d < 2 ^ divisor_log d"
proof (induction d rule: divisor_log.induct)
  case (1 d)
  have half: "unat (drop_bit 1 d) = unat d div 2" by (simp add: drop_bit_eq_div unat_div)
  have log: "divisor_log d = Suc (divisor_log (drop_bit 1 d))" using 1(2) by (subst divisor_log.simps) simp
  show ?case
  proof (cases "unat d div 2 = 0")
    case True
    then have "drop_bit 1 d = 0" using half unat_eq_zero [of "drop_bit 1 d"] by simp
    then have "divisor_log (drop_bit 1 d) = 0" by (subst divisor_log.simps) simp
    moreover have "unat d < 2" using True by linarith
    ultimately show ?thesis using log 1(2) by (simp add: unat_gt_0 Suc_le_eq word_gt_0)
  next
    case False
    then have "0 < drop_bit 1 d" using half unat_gt_0 [of "drop_bit 1 d"] word_gt_0 [of "drop_bit 1 d"] by simp
    from 1(1) [OF 1(2) this] half obtain m where "divisor_log (drop_bit 1 d) = Suc m" "2 ^ m \<le> unat d div 2" "unat d div 2 < 2 ^ Suc m"
      by (cases "divisor_log (drop_bit 1 d)") auto
    with log show ?thesis by simp linarith
  qed
qed

lemma divide_128_val:
  assumes "dv \<noteq> 0"
  shows "\<exists>q. dt_divide_128 a dv = Some q \<and> val128 q = val128 a div unat dv"
proof -
  define l where "l = divisor_log dv"
  have dv: "0 < unat dv" using assms by (simp add: unat_gt_0)
  have l: "0 < l" "2 ^ (l - 1) \<le> unat dv" "unat dv < 2 ^ l" using divisor_log_val [of dv] assms by (auto simp: l_def word_gt_0)
  have "(2 :: nat) ^ (l - 1) < 2 ^ 64" using l(2) unat_u64_less [of dv] by linarith
  then have "l - 1 < 64" by (rule power_less_imp_less_exp [rotated]) simp
  then have l64: "l \<le> 64" by simp
  have p: "(2 :: nat) ^ l * 2 ^ (128 - l) = 2 ^ 128" using l64 by (simp flip: power_add)
  have "unat dv * 2 ^ (128 - l) < 2 ^ l * 2 ^ (128 - l)" using l(3) by (rule mult_strict_right_mono) simp
  then have "unat dv * 2 ^ (128 - l) < 2 ^ 128" unfolding p .
  then obtain sub where sub: "dt_shift_128 (dv, 0) (int (128 - l)) = Some sub" "val128 sub = unat dv * 2 ^ (128 - l)"
    using shift_left_val [of "128 - l" "(dv, 0)"] l by auto
  have "(2 :: nat) ^ (128 - l) < 2 ^ 128" using l(1) by (intro power_strict_increasing) simp_all
  then obtain msk where msk: "dt_shift_128 (1, 0) (int (128 - l)) = Some msk" "val128 msk = 2 ^ (128 - l)"
    using shift_left_val [of "128 - l" "(1, 0)"] l by auto
  have "(2 :: nat) ^ 128 = 2 ^ (l - 1) * 2 ^ Suc (128 - l)" using l(1) l64 by (simp flip: power_add)
  also have "\<dots> \<le> unat dv * 2 ^ Suc (128 - l)" using l(2) by simp
  finally have "val128 a < unat dv * 2 ^ Suc (128 - l)" using val128_less [of a] by linarith
  then have "\<exists>q. divide_loop (dv, 0) a sub msk (0, 0) = Some q \<and> val128 q = val128 a div val128 (dv, 0 :: u64)"
    using dv sub(2) msk(2) by (intro divide_loop_val [where k = "128 - l"]) simp_all
  moreover have e: "128 - int l = int (128 - l)" using l64 by simp
  have "dt_divide_128 a dv = divide_loop (dv, 0) a sub msk (0, 0)"
    unfolding dt_divide_128_def Let_def l_def [symmetric] e sub(1) msk(1) using assms by simp
  ultimately show ?thesis by simp
qed

section \<open>Standard deviation\<close>

abbreviation sum_sq :: "int list \<Rightarrow> int" where
  "sum_sq xs \<equiv> sum_list (map (\<lambda>x. x\<^sup>2) xs)"

lemma sum_list_square_le: "(sum_list xs)\<^sup>2 \<le> int (length xs) * sum_sq xs"
proof (induction xs)
  case Nil
  then show ?case by simp
next
  case (Cons x xs)
  have "2 * sum_list xs * x \<le> sum_sq xs + int (length xs) * x\<^sup>2"
  proof (induction xs)
    case (Cons y ys)
    have "0 \<le> (y - x)\<^sup>2" by simp
    then have "2 * y * x \<le> y\<^sup>2 + x\<^sup>2" by (simp add: power2_diff mult.commute)
    with Cons show ?case by (simp add: algebra_simps)
  qed simp
  with Cons show ?case by (simp add: power2_sum algebra_simps)
qed

lemma sum_sq_nonneg: "0 \<le> sum_sq xs"
  by (rule sum_list_nonneg) auto

lemma sint_word_of_int_id: "i64_ok i \<Longrightarrow> sint (word_of_int i :: u64) = i"
  by (simp add: i64_ok_def sint_sbintrunc' signed_take_bit_int_eq_self)

lemma abs_sdiv: "0 < b \<Longrightarrow> \<bar>a sdiv b :: int\<bar> = \<bar>a\<bar> div b"
  by (auto simp: signed_divide_int_def abs_mult sgn_if pos_imp_zdiv_nonneg_iff)

lemma uint_word_of_int_id: "0 \<le> i \<Longrightarrow> i < 2 ^ 64 \<Longrightarrow> uint (word_of_int i :: u64) = i"
  by (simp add: uint_word_of_int)

lemma i64_div_val:
  assumes "\<bar>a\<bar> < 2 ^ 63" and "0 < b"
  shows "i64_div a b = Some (a sdiv b)" and "\<bar>a sdiv b\<bar> < 2 ^ 63"
proof -
  have "\<bar>a\<bar> div b \<le> \<bar>a\<bar> div 1" using assms(2) by (intro zdiv_mono2) simp_all
  then show less: "\<bar>a sdiv b\<bar> < 2 ^ 63" using assms by (simp add: abs_sdiv)
  then have "i64_ok (a sdiv b)" unfolding i64_ok_def by linarith
  with assms(2) show "i64_div a b = Some (a sdiv b)" by (simp add: i64_div_def)
qed

text \<open>The truncated mean squared does not exceed the truncated mean of the squares.\<close>

lemma mean_square_le:
  assumes "xs \<noteq> []" and "0 < m"
  shows "(\<bar>sum_list xs\<bar> div m div int (length xs))\<^sup>2 \<le> sum_sq xs div m div int (length xs)"
proof -
  define n a where d: "n = int (length xs)" "a = \<bar>sum_list xs\<bar> div m div n"
  have n: "0 < n" using assms by (simp add: d)
  have am: "a = \<bar>sum_list xs\<bar> div (m * n)" using n assms(2) by (simp add: d zdiv_zmult2_eq)
  have a0: "0 \<le> a" using n assms(2) by (simp add: am pos_imp_zdiv_nonneg_iff)
  have "a * (m * n) \<le> \<bar>sum_list xs\<bar>" by (simp add: am minus_mod_eq_div_mult [symmetric] n assms(2))
  then have "(a * (m * n))\<^sup>2 \<le> \<bar>sum_list xs\<bar>\<^sup>2" using a0 n assms(2) by (intro power_mono) simp_all
  also have "\<dots> \<le> n * sum_sq xs" using sum_list_square_le [of xs] by (simp add: d)
  finally have "n * (a\<^sup>2 * m\<^sup>2 * n) \<le> n * sum_sq xs" by (simp add: power_mult_distrib power2_eq_square algebra_simps)
  then have "a\<^sup>2 * m\<^sup>2 * n \<le> sum_sq xs" using n by simp
  moreover have "a\<^sup>2 * m * n \<le> a\<^sup>2 * m\<^sup>2 * n"
    using n assms(2) by (intro mult_right_mono mult_left_mono) (simp_all add: power2_eq_square)
  ultimately have "a\<^sup>2 * (m * n) \<le> sum_sq xs" by (simp add: mult.assoc)
  then have "a\<^sup>2 * (m * n) div (m * n) \<le> sum_sq xs div (m * n)" using n assms(2) by (intro zdiv_mono1) simp_all
  then have "a\<^sup>2 \<le> sum_sq xs div (m * n)" using n assms(2) by simp
  then show ?thesis using n assms(2) by (simp add: d zdiv_zmult2_eq)
qed

section \<open>Properties\<close>

text \<open>
  C14. The standard deviation.  For the count, the sum and the 128-bit sum of squares of any non-empty list of
  numbers, with the sums in range, and any normalisation factor, \<^verbatim>\<open>dt_stddev\<close> passes its assertions, all its loops
  end, the subtraction does not wrap, and the result is the integer square root of the
  truncated mean of the squares minus the square of the truncated mean.
\<close>

theorem stddev_correct:
  assumes "xs \<noteq> []" and "length xs < 2 ^ 63" and "\<bar>sum_list xs\<bar> < 2 ^ 63" and "sum_sq xs < 2 ^ 128"
    and "0 < m" and "m < 2 ^ 63"
  defines "n \<equiv> int (length xs)"
  defines "v \<equiv> sum_sq xs div m div n - (\<bar>sum_list xs\<bar> div m div n)\<^sup>2"
  shows "0 \<le> v \<and> (\<exists>r. dt_stddev [word_of_int n, word_of_int (sum_list xs),
      word_of_int (sum_sq xs mod 2 ^ 64), word_of_int (sum_sq xs div 2 ^ 64)] (word_of_int m) = Some r \<and>
    (uint r)\<^sup>2 \<le> v \<and> v < (uint r + 1)\<^sup>2)"
proof -
  define S Q sq where d: "S = sum_list xs" "Q = sum_sq xs"
    "sq = (word_of_int (Q mod 2 ^ 64) :: u64, word_of_int (Q div 2 ^ 64) :: u64)"
  have n: "0 < n" "n < 2 ^ 63" using assms(1,2) by (simp_all add: n_def)
  have Q: "0 \<le> Q" "Q < 2 ^ 128" using assms(4) sum_sq_nonneg [of xs] by (simp_all add: d)
  have "Q div 2 ^ 64 < 2 ^ 64" using Q(2) by (simp add: div_less_iff_less_mult) 
  then have "uint (fst sq) = Q mod 2 ^ 64" "uint (snd sq) = Q div 2 ^ 64"
    using Q(1) by (simp_all add: d(3) uint_word_of_int_id pos_imp_zdiv_nonneg_iff)
  then have sq: "int (val128 sq) = Q" by (simp add: val128_def)
  have u: "uint (word_of_int n :: u64) = n" "uint (word_of_int m :: u64) = m"
    and i: "sint (word_of_int n :: u64) = n" "sint (word_of_int m :: u64) = m" "sint (word_of_int S :: u64) = S"
    using n assms(3,5,6) by (auto simp: uint_word_of_int d i64_ok_def intro!: sint_word_of_int_id)
  have nz: "(word_of_int n :: u64) \<noteq> 0" "(word_of_int m :: u64) \<noteq> 0" using u n assms(5) by (metis uint_0_eq less_irrefl)+
  obtain q1 where q1: "dt_divide_128 sq (word_of_int m) = Some q1" "val128 q1 = val128 sq div unat (word_of_int m :: u64)"
    using divide_128_val [OF nz(2)] by blast
  obtain q2 where q2: "dt_divide_128 q1 (word_of_int n) = Some q2" "val128 q2 = val128 q1 div unat (word_of_int n :: u64)"
    using divide_128_val [OF nz(1)] by blast
  have q: "int (val128 q2) = Q div m div n" using q1(2) q2(2) sq u by (simp add: zdiv_int)
  define a where "a = \<bar>S\<bar> div m div n"
  define t where "t = S sdiv m sdiv n"
  have t: "\<bar>t\<bar> = a" "\<bar>t\<bar> < 2 ^ 63"
    using n assms(3,5) i64_div_val(2) [of S m] i64_div_val(2) [of "S sdiv m" n] by (simp_all add: t_def a_def abs_sdiv d)
  have div: "i64_div S m = Some (S sdiv m)" "i64_div (S sdiv m) n = Some t"
    using n assms(3,5) i64_div_val [of S m] i64_div_val(1) [of "S sdiv m" n] by (simp_all add: t_def d)
  have neg: "(if t < 0 then i64_neg t else Some t) = Some a" using t by (auto simp: i64_neg_def i64_ok_def)
  obtain p where p: "dt_multiply_128 (word_of_int a) (word_of_int a) = Some p" "val128 p = unat (word_of_int a :: u64) * unat (word_of_int a :: u64)"
    using multiply_128_val by blast
  have "uint (word_of_int a :: u64) = a" using t(1) t(2) by (intro uint_word_of_int_id) auto
  then have p2: "int (val128 p) = a\<^sup>2" by (simp add: p(2) power2_eq_square)
  have le: "a\<^sup>2 \<le> Q div m div n" using mean_square_le [OF assms(1,5)] by (simp add: a_def d n_def)
  then have "val128 p \<le> val128 q2" using p2 q by linarith
  then have sub: "int (val128 (dt_subtract_128 q2 p)) = v" using p2 q by (simp add: subtract_128_val v_def a_def d of_nat_diff)
  obtain r where r: "dt_sqrt_128 (dt_subtract_128 q2 p) = Some r" "(unat r)\<^sup>2 \<le> val128 (dt_subtract_128 q2 p)"
    "val128 (dt_subtract_128 q2 p) < (unat r + 1)\<^sup>2" using sqrt_128_val by blast
  have "int ((unat r)\<^sup>2) \<le> v" "v < int ((unat r + 1)\<^sup>2)"
    unfolding sub [symmetric] of_nat_le_iff of_nat_less_iff using r(2,3) .
  then have "(uint r)\<^sup>2 \<le> v" "v < (uint r + 1)\<^sup>2" by (simp_all add: add.commute)
  moreover have "dt_stddev [word_of_int n, word_of_int S, fst sq, snd sq] (word_of_int m) = Some r"
    using q1(1) q2(1) div neg p(1) r(1) by (simp add: i)
  ultimately show ?thesis using le by (auto simp: d v_def a_def)
qed

theorem stddev_correct_witness:
  "\<exists>r. dt_stddev [word_of_int 3, word_of_int (- 6), word_of_int 14, word_of_int 0] (word_of_int 1) = Some r \<and> (uint r)\<^sup>2 \<le> 0 \<and> 0 < (uint r + 1)\<^sup>2"
  using stddev_correct [of "[- 1, - 2, - 3]" 1] by simp


end
