(* ===== verification/AggData.thy ===== *)
theory AggData
  imports Arith128 BpfRuntime "HOL-Library.Product_Lexorder" "HOL-Library.List_Lexorder"
begin

text \<open>
  Aggregations in the consumer: the descriptions of \<^verbatim>\<open>libdtrace/dt_map.c\<close>, the entries of the aggregation hash and
  the comparison functions of \<^verbatim>\<open>libdtrace/dt_aggregate.c\<close>.

  The key of an entry is a list of bytes and its data a list of 64-bit words, the first of which is the
  generation; offsets are in bytes, as in the code.  Reading out of range, failing an assertion and overflow of a signed
  computation are faults.  \<^verbatim>\<open>long double\<close> depends on the machine: its values are a type with a linear order, and its
  operations a record of functions.

  Every comparison function is shown to compare keys of a linear order, which is what \<^verbatim>\<open>qsort\<close> relies on.
\<close>

section \<open>Descriptions\<close>

record dtrace_recdesc =
  dtrd_action :: nat
  dtrd_size :: nat
  dtrd_offset :: nat
  dtrd_alignment :: nat
  dtrd_arg :: u64

record dtrace_aggdesc =
  dtagd_name :: "u8 list"
  dtagd_varid :: nat
  dtagd_sig :: u64
  dtagd_normal :: u64
  dtagd_ksize :: nat
  dtagd_dsize :: nat
  dtagd_nkrecs :: nat
  dtagd_keyidx :: nat
  dtagd_krecs :: "dtrace_recdesc list"
  dtagd_drecs :: "dtrace_recdesc list"

definition DT_AGG_AVG :: nat where "DT_AGG_AVG = 0x700"

definition DT_AGG_COUNT :: nat where "DT_AGG_COUNT = 0x701"

definition DT_AGG_LLQUANTIZE :: nat where "DT_AGG_LLQUANTIZE = 0x702"

definition DT_AGG_LQUANTIZE :: nat where "DT_AGG_LQUANTIZE = 0x703"

definition DT_AGG_MAX :: nat where "DT_AGG_MAX = 0x704"

definition DT_AGG_MIN :: nat where "DT_AGG_MIN = 0x705"

definition DT_AGG_QUANTIZE :: nat where "DT_AGG_QUANTIZE = 0x706"

definition DT_AGG_STDDEV :: nat where "DT_AGG_STDDEV = 0x707"

definition DT_AGG_SUM :: nat where "DT_AGG_SUM = 0x708"

definition DTRACEACT_DIFEXPR :: nat where "DTRACEACT_DIFEXPR = 1"

definition DTRACEACT_USYM :: nat where "DTRACEACT_USYM = 0x103"

definition DTRACEACT_UMOD :: nat where "DTRACEACT_UMOD = 0x104"

definition DTRACEACT_UADDR :: nat where "DTRACEACT_UADDR = 0x105"

lemmas act_defs = DT_AGG_AVG_def DT_AGG_COUNT_def DT_AGG_LLQUANTIZE_def DT_AGG_LQUANTIZE_def DT_AGG_MAX_def DT_AGG_MIN_def
  DT_AGG_QUANTIZE_def DT_AGG_STDDEV_def DT_AGG_SUM_def DTRACEACT_DIFEXPR_def DTRACEACT_USYM_def DTRACEACT_UMOD_def DTRACEACT_UADDR_def

definition DT_AGGDATA_RECORD :: nat where "DT_AGGDATA_RECORD = 1"

definition DTRACE_AGGVARIDNONE :: nat where "DTRACE_AGGVARIDNONE = 0"

text \<open>The table of descriptions and the largest data size.\<close>

record agg_table =
  dt_adesc :: "dtrace_aggdesc option list"
  dt_maxaggdsize :: nat

text \<open>What \<^verbatim>\<open>dt_aggid_add\<close> reads of an identifier.\<close>

record dt_aggident =
  di_id :: nat
  di_name :: "u8 list"
  di_size :: nat
  di_iarg_id :: nat
  dis_argc :: nat
  dis_auxinfo :: u64

text \<open>The loop that doubles the table until it has room.\<close>

function adesc_grow :: "nat \<Rightarrow> dtrace_aggdesc option list \<Rightarrow> allocs \<Rightarrow> bool \<times> dtrace_aggdesc option list \<times> allocs" where
  "adesc_grow aid ds mm =
     (if aid < length ds then (True, ds, mm)
      else
        (case c_alloc mm of
           (None, mm) \<Rightarrow> (False, ds, mm)
         | (Some _, mm) \<Rightarrow> adesc_grow aid (ds @ replicate (if ds = [] then 1 else length ds) None) mm))"
  by pat_completeness auto

termination
  by (relation "measure (\<lambda>(aid, ds, mm). Suc aid - length ds)") (auto intro!: diff_less_mono2)

declare adesc_grow.simps [simp del]

definition dt_aggid_add :: "agg_table \<Rightarrow> dt_aggident \<Rightarrow> allocs \<Rightarrow> (int \<times> agg_table) option" where
  "dt_aggid_add t aid mm =
     (case adesc_grow (di_id aid) (dt_adesc t) mm of
        (ok, ds, mm) \<Rightarrow>
          let t = t\<lparr>dt_adesc := ds\<rparr>
          in if \<not> ok then Some (- 1, t)
             else if ds ! di_id aid \<noteq> None then Some (0, t)
             else
               (case c_alloc mm of
                  (None, mm) \<Rightarrow> Some (- 1, t)
                | (Some _, mm) \<Rightarrow>
                    let nkrecs = 1 + dis_argc aid
                    in (case c_alloc mm of
                          (None, mm) \<Rightarrow> Some (- 1, t)
                        | (Some _, mm) \<Rightarrow> do {
                            c_assert (8 \<le> di_size aid);
                            let norec = \<lparr>dtrd_action = 0, dtrd_size = 0, dtrd_offset = 0, dtrd_alignment = 0, dtrd_arg = 0\<rparr>;
                            let krec = \<lparr>dtrd_action = DTRACEACT_DIFEXPR, dtrd_size = 4, dtrd_offset = 0, dtrd_alignment = 4, dtrd_arg = 1\<rparr>;
                            let counter = \<lparr>dtrd_action = di_iarg_id aid, dtrd_size = 8, dtrd_offset = 0, dtrd_alignment = 8, dtrd_arg = 1\<rparr>;
                            let rec = \<lparr>dtrd_action = di_iarg_id aid, dtrd_size = di_size aid - 8, dtrd_offset = 8, dtrd_alignment = 8, dtrd_arg = 1\<rparr>;
                            let agg = \<lparr>dtagd_name = di_name aid, dtagd_varid = di_id aid, dtagd_sig = dis_auxinfo aid, dtagd_normal = 1,
                              dtagd_ksize = 4, dtagd_dsize = 8 + (di_size aid - 8), dtagd_nkrecs = nkrecs, dtagd_keyidx = 1,
                              dtagd_krecs = krec # replicate (nkrecs - 1) norec, dtagd_drecs = [counter, rec]\<rparr>;
                            Some (0, t\<lparr>dt_adesc := ds[di_id aid := Some agg],
                              dt_maxaggdsize := max (dt_maxaggdsize t) (dtagd_dsize agg)\<rparr>)
                          })))"

definition dt_aggid_lookup :: "agg_table \<Rightarrow> nat \<Rightarrow> dtrace_aggdesc option" where
  "dt_aggid_lookup t aggid = (if aggid \<ge> length (dt_adesc t) then None else dt_adesc t ! aggid)"

text \<open>The alignment is a power of two, so masking rounds up to a multiple of it.\<close>

definition dt_aggid_rec_add :: "agg_table \<Rightarrow> nat \<Rightarrow> nat \<Rightarrow> nat \<Rightarrow> nat \<Rightarrow> u64 \<Rightarrow> (nat \<times> agg_table) option" where
  "dt_aggid_rec_add t aggid kind sz alignment arg = do {
     c_assert (aggid < length (dt_adesc t));
     agg \<leftarrow> dt_adesc t ! aggid;
     c_assert (0 < dtagd_keyidx agg \<and> dtagd_keyidx agg < dtagd_nkrecs agg);
     c_assert (0 < alignment \<and> alignment \<le> 8 \<and> alignment AND (alignment - 1) = 0);
     c_assert (dtagd_keyidx agg < length (dtagd_krecs agg));
     let off = (dtagd_ksize agg + (alignment - 1)) div alignment * alignment;
     let rec = \<lparr>dtrd_action = kind, dtrd_size = sz, dtrd_offset = off, dtrd_alignment = alignment, dtrd_arg = arg\<rparr>;
     Some (off, t\<lparr>dt_adesc := (dt_adesc t)[aggid := Some (agg\<lparr>
       dtagd_krecs := (dtagd_krecs agg)[dtagd_keyidx agg := rec],
       dtagd_keyidx := dtagd_keyidx agg + 1,
       dtagd_ksize := off + sz\<rparr>)]\<rparr>)
   }"

section \<open>Entries\<close>

text \<open>
  \<open>dtada_desc\<close> is the identifier of the description, which stands for its address.  \<open>dtahe_hval\<close> and the data are as in the
  code; the links of an entry are kept apart, in the theory of the hash.
\<close>

record dt_ahashent =
  dtahe_hval :: nat
  dtada_desc :: nat
  dtada_key :: "u8 list"
  dtada_data :: "u64 list"
  dtada_percpu :: "u64 list list option"

text \<open>Reading at an offset in bytes: words of the data, bytes and little-endian numbers of the key.\<close>

definition rd_words :: "u64 list \<Rightarrow> nat \<Rightarrow> u64 list option" where
  "rd_words data off = (if off mod 8 = 0 \<and> off div 8 \<le> length data then Some (drop (off div 8) data) else None)"

definition rd_bytes :: "u8 list \<Rightarrow> nat \<Rightarrow> nat \<Rightarrow> u8 list option" where
  "rd_bytes key off n = (if off + n \<le> length key then Some (take n (drop off key)) else None)"

primrec le_val :: "u8 list \<Rightarrow> nat" where
  "le_val [] = 0"
| "le_val (b # bs) = unat b + 256 * le_val bs"

definition rd_le :: "u8 list \<Rightarrow> nat \<Rightarrow> nat \<Rightarrow> nat option" where
  "rd_le key off n = map_option le_val (rd_bytes key off n)"

text \<open>
  The identifier of the variable, and the description with it: where the description has none, it is read from the
  key and stored in the description.
\<close>

definition dt_aggregate_aggid :: "dtrace_aggdesc \<Rightarrow> dt_ahashent \<Rightarrow> (nat \<times> dtrace_aggdesc) option" where
  "dt_aggregate_aggid agg ent =
     (if dtagd_varid agg \<noteq> DTRACE_AGGVARIDNONE then Some (dtagd_varid agg, agg)
      else do {
        rec \<leftarrow> hd_or (dtagd_krecs agg) None;
        v \<leftarrow> rd_le (dtada_key ent) (dtrd_offset rec) 4;
        Some (v, agg\<lparr>dtagd_varid := v\<rparr>)
      })"

section \<open>Comparing values\<close>

record sort_opts =
  dt_revsort :: bool
  dt_keysort :: bool
  dt_keypos :: nat

definition DT_LESSTHAN :: "sort_opts \<Rightarrow> int" where
  "DT_LESSTHAN so = (if \<not> dt_revsort so then - 1 else 1)"

definition DT_GREATERTHAN :: "sort_opts \<Rightarrow> int" where
  "DT_GREATERTHAN so = (if \<not> dt_revsort so then 1 else - 1)"

text \<open>The pair of tests that every comparison ends with.\<close>

definition cmp_vals :: "sort_opts \<Rightarrow> 'k :: linorder \<Rightarrow> 'k \<Rightarrow> int" where
  "cmp_vals so l r = (if l < r then DT_LESSTHAN so else if l > r then DT_GREATERTHAN so else 0)"

definition rd64 :: "u64 list \<Rightarrow> int \<Rightarrow> int option" where
  "rd64 q i = (if 0 \<le> i \<and> nat i < length q then Some (sint (q ! nat i)) else None)"

definition i64 :: "int \<Rightarrow> int option" where
  "i64 i = (if i64_ok i then Some i else None)"

definition i32 :: "int \<Rightarrow> int option" where
  "i32 i = (if - (2 ^ 31) \<le> i \<and> i < 2 ^ 31 then Some i else None)"

definition dt_aggregate_countcmp :: "sort_opts \<Rightarrow> u64 list \<Rightarrow> u64 list \<Rightarrow> int option" where
  "dt_aggregate_countcmp so lhs rhs = do {
     lvar \<leftarrow> rd64 lhs 0;
     rvar \<leftarrow> rd64 rhs 0;
     Some (cmp_vals so lvar rvar)
   }"

definition agg_average :: "u64 list \<Rightarrow> int option" where
  "agg_average q = do {
     cnt \<leftarrow> rd64 q 0;
     if cnt \<noteq> 0 then do {
       tot \<leftarrow> rd64 q 1;
       i64_div tot cnt
     }
     else Some 0
   }"

definition dt_aggregate_averagecmp :: "sort_opts \<Rightarrow> u64 list \<Rightarrow> u64 list \<Rightarrow> int option" where
  "dt_aggregate_averagecmp so lhs rhs = do {
     lavg \<leftarrow> agg_average lhs;
     ravg \<leftarrow> agg_average rhs;
     Some (cmp_vals so lavg ravg)
   }"

definition dt_aggregate_stddevcmp :: "sort_opts \<Rightarrow> u64 list \<Rightarrow> u64 list \<Rightarrow> int option" where
  "dt_aggregate_stddevcmp so lhs rhs = do {
     lsd \<leftarrow> dt_stddev (take 4 lhs) 1;
     rsd \<leftarrow> dt_stddev (take 4 rhs) 1;
     Some (cmp_vals so lsd rsd)
   }"

text \<open>Arithmetic on \<^verbatim>\<open>long double\<close>.\<close>

record 'f ld_ops =
  ld_of :: "int \<Rightarrow> 'f"
  ld_add :: "'f \<Rightarrow> 'f \<Rightarrow> 'f"
  ld_mul :: "'f \<Rightarrow> 'f \<Rightarrow> 'f"
  ld_div :: "'f \<Rightarrow> 'f \<Rightarrow> 'f"
  ld_powl :: "'f \<Rightarrow> 'f \<Rightarrow> 'f"

definition DTRACE_LQUANTIZE_BASE :: "u64 \<Rightarrow> int" where
  "DTRACE_LQUANTIZE_BASE sig = sint (ucast (sig AND 0xffffffff) :: u32)"

definition DTRACE_LQUANTIZE_STEP :: "u64 \<Rightarrow> nat" where
  "DTRACE_LQUANTIZE_STEP sig = unat (ucast (drop_bit 48 sig) :: u16)"

definition DTRACE_LQUANTIZE_LEVELS :: "u64 \<Rightarrow> nat" where
  "DTRACE_LQUANTIZE_LEVELS sig = unat (ucast (drop_bit 32 sig) :: u16)"

text \<open>The loop over the levels \<open>i\<close>, with the value \<open>base\<close> of the current one.\<close>

fun lquantized_loop :: "'f ld_ops \<Rightarrow> u64 list \<Rightarrow> nat list \<Rightarrow> int \<Rightarrow> nat \<Rightarrow> 'f \<Rightarrow> ('f \<times> int) option" where
  "lquantized_loop ld lquanta [] base step tot = Some (tot, base)"
| "lquantized_loop ld lquanta (i # is) base step tot = do {
     v \<leftarrow> rd64 lquanta (int i + 1);
     base' \<leftarrow> i32 (base + int step);
     lquantized_loop ld lquanta is base' step (ld_add ld tot (ld_mul ld (ld_of ld v) (ld_of ld base)))
   }"

definition dt_aggregate_lquantizedsum :: "'f ld_ops \<Rightarrow> u64 list \<Rightarrow> u64 \<Rightarrow> 'f option" where
  "dt_aggregate_lquantizedsum ld lquanta sig = do {
     let base = DTRACE_LQUANTIZE_BASE sig;
     let levels = DTRACE_LQUANTIZE_LEVELS sig;
     v \<leftarrow> rd64 lquanta 0;
     b \<leftarrow> i32 (base - 1);
     (tot, base) \<leftarrow> lquantized_loop ld lquanta [0..<levels] base (DTRACE_LQUANTIZE_STEP sig) (ld_mul ld (ld_of ld v) (ld_of ld b));
     v \<leftarrow> rd64 lquanta (int levels + 1);
     b \<leftarrow> i32 (base + 1);
     Some (ld_add ld tot (ld_mul ld (ld_of ld v) (ld_of ld b)))
   }"

text \<open>The value of a level whose base is zero, or the base after the last level.\<close>

fun lquantized_zero_loop :: "u64 list \<Rightarrow> nat list \<Rightarrow> int \<Rightarrow> nat \<Rightarrow> (int + int) option" where
  "lquantized_zero_loop lquanta [] base step = Some (Inr base)"
| "lquantized_zero_loop lquanta (i # is) base step =
     (if base \<noteq> 0 then do {
        base' \<leftarrow> i32 (base + int step);
        lquantized_zero_loop lquanta is base' step
      }
      else map_option Inl (rd64 lquanta (int i + 1)))"

definition dt_aggregate_lquantizedzero :: "u64 list \<Rightarrow> u64 \<Rightarrow> int option" where
  "dt_aggregate_lquantizedzero lquanta sig = do {
     let base = DTRACE_LQUANTIZE_BASE sig;
     let levels = DTRACE_LQUANTIZE_LEVELS sig;
     b \<leftarrow> i32 (base - 1);
     if b = 0 then rd64 lquanta 0
     else do {
       r \<leftarrow> lquantized_zero_loop lquanta [0..<levels] base (DTRACE_LQUANTIZE_STEP sig);
       case r of
         Inl v \<Rightarrow> Some v
       | Inr base \<Rightarrow> do {
           b \<leftarrow> i32 (base + 1);
           if b = 0 then rd64 lquanta (int levels + 1) else Some 0
         }
     }
   }"

definition dt_aggregate_lquantizedcmp :: "('f :: linorder) ld_ops \<Rightarrow> sort_opts \<Rightarrow> u64 list \<Rightarrow> u64 list \<Rightarrow> u64 \<Rightarrow> u64 \<Rightarrow> int option" where
  "dt_aggregate_lquantizedcmp ld so lhs rhs lsig rsig = do {
     lsum \<leftarrow> dt_aggregate_lquantizedsum ld lhs lsig;
     rsum \<leftarrow> dt_aggregate_lquantizedsum ld rhs rsig;
     if cmp_vals so lsum rsum \<noteq> 0 then Some (cmp_vals so lsum rsum)
     else do {
       lzero \<leftarrow> dt_aggregate_lquantizedzero lhs lsig;
       rzero \<leftarrow> dt_aggregate_lquantizedzero rhs rsig;
       Some (cmp_vals so lzero rzero)
     }
   }"

definition DTRACE_LLQUANTIZE_STEPS :: "u64 \<Rightarrow> int" where
  "DTRACE_LLQUANTIZE_STEPS sig = uint (ucast (drop_bit 48 sig) :: u16)"

definition DTRACE_LLQUANTIZE_HMAG :: "u64 \<Rightarrow> int" where
  "DTRACE_LLQUANTIZE_HMAG sig = uint (ucast (drop_bit 32 sig) :: u16)"

definition DTRACE_LLQUANTIZE_LMAG :: "u64 \<Rightarrow> int" where
  "DTRACE_LLQUANTIZE_LMAG sig = uint (ucast (drop_bit 16 sig) :: u16)"

definition DTRACE_LLQUANTIZE_FACTOR :: "u64 \<Rightarrow> int" where
  "DTRACE_LLQUANTIZE_FACTOR sig = uint (ucast sig :: u16)"

text \<open>The difference of the two bins at distance \<open>i\<close> from the middle one.\<close>

definition llq_diff :: "u64 list \<Rightarrow> int \<Rightarrow> int \<Rightarrow> int option" where
  "llq_diff llquanta bin0 i = do {
     a \<leftarrow> rd64 llquanta (bin0 + i);
     b \<leftarrow> rd64 llquanta (bin0 - i);
     i64 (a - b)
   }"

text \<open>The loop over the steps below the factor; \<open>i\<close> is the distance from the middle bin.\<close>

fun llq_low :: "'f ld_ops \<Rightarrow> u64 list \<Rightarrow> int \<Rightarrow> int \<Rightarrow> int list \<Rightarrow> int \<Rightarrow> 'f \<Rightarrow> (int \<times> 'f) option" where
  "llq_low ld llquanta bin0 sf [] i tot = Some (i, tot)"
| "llq_low ld llquanta bin0 sf (step # ss) i tot = do {
     i \<leftarrow> i32 (i + sf);
     d \<leftarrow> llq_diff llquanta bin0 i;
     v \<leftarrow> i64 (step * d);
     llq_low ld llquanta bin0 sf ss i (ld_add ld tot (ld_of ld v))
   }"

text \<open>The steps of one order of magnitude, and the loop over the orders of magnitude.\<close>

fun llq_steps :: "'f ld_ops \<Rightarrow> u64 list \<Rightarrow> int \<Rightarrow> 'f \<Rightarrow> int list \<Rightarrow> int \<Rightarrow> 'f \<Rightarrow> (int \<times> 'f) option" where
  "llq_steps ld llquanta bin0 scale [] i tot = Some (i, tot)"
| "llq_steps ld llquanta bin0 scale (step # ss) i tot = do {
     d \<leftarrow> llq_diff llquanta bin0 (i + 1);
     llq_steps ld llquanta bin0 scale ss (i + 1)
       (ld_add ld tot (ld_mul ld (ld_mul ld (ld_of ld step) scale) (ld_of ld d)))
   }"

fun llq_mags :: "'f ld_ops \<Rightarrow> u64 list \<Rightarrow> int \<Rightarrow> int \<Rightarrow> int list \<Rightarrow> 'f \<Rightarrow> int list \<Rightarrow> int \<Rightarrow> 'f \<Rightarrow> 'f option" where
  "llq_mags ld llquanta bin0 factor ss scale [] i tot = Some tot"
| "llq_mags ld llquanta bin0 factor ss scale (mag # ms) i tot = do {
     (i, tot) \<leftarrow> llq_steps ld llquanta bin0 scale ss i tot;
     llq_mags ld llquanta bin0 factor ss (ld_mul ld scale (ld_of ld factor)) ms i tot
   }"

definition dt_aggregate_llquantizedsum :: "'f ld_ops \<Rightarrow> u64 list \<Rightarrow> u64 \<Rightarrow> 'f option" where
  "dt_aggregate_llquantizedsum ld llquanta sig = do {
     let factor = DTRACE_LLQUANTIZE_FACTOR sig;
     let lmag = DTRACE_LLQUANTIZE_LMAG sig;
     let hmag = DTRACE_LLQUANTIZE_HMAG sig;
     let steps = DTRACE_LLQUANTIZE_STEPS sig;
     c_assert (factor \<noteq> 0);
     let sf = steps div factor;
     bin0 \<leftarrow> i32 (1 + (hmag - lmag + 1) * (steps - sf));
     d \<leftarrow> llq_diff llquanta bin0 1;
     let tot = ld_mul ld (ld_powl ld (ld_of ld factor) (ld_of ld lmag)) (ld_of ld d);
     (i, tot, lmag) \<leftarrow>
       (if lmag = 0 \<and> steps > factor then do {
          (i, tot) \<leftarrow> llq_low ld llquanta bin0 sf [2..factor] 1 tot;
          Some (i, tot, 1)
        }
        else Some (1, tot, lmag));
     let scale = ld_div ld (ld_powl ld (ld_of ld factor) (ld_of ld (lmag + 1))) (ld_of ld steps);
     llq_mags ld llquanta bin0 factor [sf + 1..steps] scale [lmag..hmag] i tot
   }"

definition dt_aggregate_llquantizedzero :: "u64 list \<Rightarrow> u64 \<Rightarrow> int option" where
  "dt_aggregate_llquantizedzero llquanta sig = do {
     let factor = DTRACE_LLQUANTIZE_FACTOR sig;
     let steps = DTRACE_LLQUANTIZE_STEPS sig;
     c_assert (factor \<noteq> 0);
     bin \<leftarrow> i32 (1 + (DTRACE_LLQUANTIZE_HMAG sig - DTRACE_LLQUANTIZE_LMAG sig + 1) * (steps - steps div factor));
     rd64 llquanta (bin mod 2 ^ 16)
   }"

definition dt_aggregate_llquantizedcmp :: "('f :: linorder) ld_ops \<Rightarrow> sort_opts \<Rightarrow> u64 list \<Rightarrow> u64 list \<Rightarrow> u64 \<Rightarrow> u64 \<Rightarrow> int option" where
  "dt_aggregate_llquantizedcmp ld so lhs rhs lsig rsig = do {
     lsum \<leftarrow> dt_aggregate_llquantizedsum ld lhs lsig;
     rsum \<leftarrow> dt_aggregate_llquantizedsum ld rhs rsig;
     if cmp_vals so lsum rsum \<noteq> 0 then Some (cmp_vals so lsum rsum)
     else do {
       lzero \<leftarrow> dt_aggregate_llquantizedzero lhs lsig;
       rzero \<leftarrow> dt_aggregate_llquantizedzero rhs rsig;
       Some (cmp_vals so lzero rzero)
     }
   }"

text \<open>The total and the value at zero of one side; the code computes both sides in one loop.\<close>

fun quantized_loop :: "'f ld_ops \<Rightarrow> u64 list \<Rightarrow> int list \<Rightarrow> 'f \<Rightarrow> int \<Rightarrow> ('f \<times> int) option" where
  "quantized_loop ld q [] tot zero = Some (tot, zero)"
| "quantized_loop ld q (i # is) tot zero = do {
     v \<leftarrow> rd64 q i;
     let bucketval = DTRACE_QUANTIZE_BUCKETVAL i;
     quantized_loop ld q is (ld_add ld tot (ld_mul ld (ld_of ld bucketval) (ld_of ld v))) (if bucketval = 0 then v else zero)
   }"

definition dt_aggregate_quantizedcmp :: "('f :: linorder) ld_ops \<Rightarrow> sort_opts \<Rightarrow> u64 list \<Rightarrow> u64 list \<Rightarrow> int option" where
  "dt_aggregate_quantizedcmp ld so lhs rhs = do {
     (ltotal, lzero) \<leftarrow> quantized_loop ld lhs [0..DTRACE_QUANTIZE_NBUCKETS - 1] (ld_of ld 0) 0;
     (rtotal, rzero) \<leftarrow> quantized_loop ld rhs [0..DTRACE_QUANTIZE_NBUCKETS - 1] (ld_of ld 0) 0;
     if cmp_vals so ltotal rtotal \<noteq> 0 then Some (cmp_vals so ltotal rtotal)
     else Some (cmp_vals so lzero rzero)
   }"

section \<open>Comparing entries\<close>

text \<open>An entry is compared together with its description.\<close>

type_synonym agg_ent = "dtrace_aggdesc \<times> dt_ahashent"

definition dt_aggregate_hashcmp :: "sort_opts \<Rightarrow> agg_ent \<Rightarrow> agg_ent \<Rightarrow> int" where
  "dt_aggregate_hashcmp so lh rh = cmp_vals so (dtagd_nkrecs (fst lh)) (dtagd_nkrecs (fst rh))"

definition dt_aggregate_varcmp :: "sort_opts \<Rightarrow> agg_ent \<Rightarrow> agg_ent \<Rightarrow> int option" where
  "dt_aggregate_varcmp so lh rh = do {
     (lid, _) \<leftarrow> dt_aggregate_aggid (fst lh) (snd lh);
     (rid, _) \<leftarrow> dt_aggregate_aggid (fst rh) (snd rh);
     Some (cmp_vals so lid rid)
   }"

text \<open>The first difference of two lists of numbers decides.\<close>

fun cmp_first :: "sort_opts \<Rightarrow> nat list \<Rightarrow> nat list \<Rightarrow> int" where
  "cmp_first so (l # ls) (r # rs) = (if cmp_vals so l r \<noteq> 0 then cmp_vals so l r else cmp_first so ls rs)"
| "cmp_first so _ _ = 0"

text \<open>Comparing one record of the keys: \<open>nums\<close> reads \<open>n\<close> numbers of \<open>w\<close> bytes.\<close>

definition rd_nums :: "u8 list \<Rightarrow> nat \<Rightarrow> nat \<Rightarrow> nat \<Rightarrow> nat list option" where
  "rd_nums key off w n = (if off + w * n \<le> length key then Some (map (\<lambda>j. le_val (take w (drop (off + w * j) key))) [0..<n]) else None)"

text \<open>Two words are compared for the records of these actions, bytes for others.\<close>

definition wide_rec :: "dtrace_recdesc \<Rightarrow> bool" where
  "wide_rec rec \<longleftrightarrow> dtrd_action rec \<in> {DTRACEACT_UMOD, DTRACEACT_UADDR, DTRACEACT_USYM}"

definition keyrec_cmp :: "sort_opts \<Rightarrow> dtrace_recdesc \<Rightarrow> u8 list \<Rightarrow> dtrace_recdesc \<Rightarrow> u8 list \<Rightarrow> int option" where
  "keyrec_cmp so lrec lkey rrec rkey =
     (if cmp_vals so (dtrd_size lrec) (dtrd_size rrec) \<noteq> 0 then Some (cmp_vals so (dtrd_size lrec) (dtrd_size rrec))
      else if dtrd_size lrec \<in> {8, 4, 2, 1} then do {
        lval \<leftarrow> rd_le lkey (dtrd_offset lrec) (dtrd_size lrec);
        rval \<leftarrow> rd_le rkey (dtrd_offset rrec) (dtrd_size lrec);
        Some (cmp_vals so lval rval)
      }
      else if wide_rec lrec then do {
        ls \<leftarrow> rd_nums lkey (dtrd_offset lrec) 8 2;
        rs \<leftarrow> rd_nums rkey (dtrd_offset rrec) 8 2;
        Some (cmp_first so ls rs)
      }
      else do {
        ls \<leftarrow> rd_nums lkey (dtrd_offset lrec) 1 (dtrd_size lrec);
        rs \<leftarrow> rd_nums rkey (dtrd_offset rrec) 1 (dtrd_size lrec);
        Some (cmp_first so ls rs)
      })"

fun keycmp_loop :: "sort_opts \<Rightarrow> nat \<Rightarrow> nat \<Rightarrow> agg_ent \<Rightarrow> agg_ent \<Rightarrow> nat list \<Rightarrow> int option" where
  "keycmp_loop so nkrecs keypos lh rh [] = Some 0"
| "keycmp_loop so nkrecs keypos lh rh (i # is) = do {
     let ndx = (if i + keypos \<ge> nkrecs then i + keypos - nkrecs + 1 else i + keypos);
     c_assert (ndx < length (dtagd_krecs (fst lh)) \<and> ndx < length (dtagd_krecs (fst rh)));
     c \<leftarrow> keyrec_cmp so (dtagd_krecs (fst lh) ! ndx) (dtada_key (snd lh)) (dtagd_krecs (fst rh) ! ndx) (dtada_key (snd rh));
     if c \<noteq> 0 then Some c else keycmp_loop so nkrecs keypos lh rh is
   }"

definition dt_aggregate_keycmp :: "sort_opts \<Rightarrow> agg_ent \<Rightarrow> agg_ent \<Rightarrow> int option" where
  "dt_aggregate_keycmp so lh rh =
     (if dt_aggregate_hashcmp so lh rh \<noteq> 0 then Some (dt_aggregate_hashcmp so lh rh)
      else do {
        let nkrecs = dtagd_nkrecs (fst lh);
        c_assert (nkrecs = dtagd_nkrecs (fst rh));
        let keypos = (if dt_keypos so + 1 \<ge> nkrecs then 0 else dt_keypos so);
        keycmp_loop so nkrecs keypos lh rh [1..<nkrecs]
      })"

text \<open>The layouts of the keys.\<close>

fun layout_cmp :: "sort_opts \<Rightarrow> dtrace_aggdesc \<Rightarrow> dtrace_aggdesc \<Rightarrow> nat list \<Rightarrow> int option" where
  "layout_cmp so lagg ragg [] = Some 0"
| "layout_cmp so lagg ragg (i # is) = do {
     c_assert (i < length (dtagd_krecs lagg) \<and> i < length (dtagd_krecs ragg));
     let lrec = dtagd_krecs lagg ! i;
     let rrec = dtagd_krecs ragg ! i;
     if cmp_vals so (dtrd_offset lrec) (dtrd_offset rrec) \<noteq> 0 then Some (cmp_vals so (dtrd_offset lrec) (dtrd_offset rrec))
     else if cmp_vals so (dtrd_size lrec) (dtrd_size rrec) \<noteq> 0 then Some (cmp_vals so (dtrd_size lrec) (dtrd_size rrec))
     else layout_cmp so lagg ragg is
   }"

text \<open>The switch on the action.\<close>

definition val_switch :: "('f :: linorder) ld_ops \<Rightarrow> sort_opts \<Rightarrow> nat \<Rightarrow> u64 list \<Rightarrow> u64 list \<Rightarrow> u64 \<Rightarrow> u64 \<Rightarrow> int option" where
  "val_switch ld so act laddr raddr lsig rsig =
     (if act = DT_AGG_AVG then dt_aggregate_averagecmp so laddr raddr
      else if act = DT_AGG_STDDEV then dt_aggregate_stddevcmp so laddr raddr
      else if act = DT_AGG_QUANTIZE then dt_aggregate_quantizedcmp ld so laddr raddr
      else if act = DT_AGG_LQUANTIZE then dt_aggregate_lquantizedcmp ld so laddr raddr lsig rsig
      else if act = DT_AGG_LLQUANTIZE then dt_aggregate_llquantizedcmp ld so laddr raddr lsig rsig
      else if act \<in> {DT_AGG_COUNT, DT_AGG_SUM, DT_AGG_MIN, DT_AGG_MAX} then dt_aggregate_countcmp so laddr raddr
      else None)"

definition dt_aggregate_valcmp :: "('f :: linorder) ld_ops \<Rightarrow> sort_opts \<Rightarrow> agg_ent \<Rightarrow> agg_ent \<Rightarrow> int option" where
  "dt_aggregate_valcmp ld so lh rh = do {
     let lagg = fst lh;
     let ragg = fst rh;
     c_assert (dtagd_nkrecs lagg \<noteq> 0 \<and> dtagd_nkrecs ragg \<noteq> 0);
     if dt_aggregate_hashcmp so lh rh \<noteq> 0 then Some (dt_aggregate_hashcmp so lh rh)
     else do {
       c \<leftarrow> layout_cmp so lagg ragg [0..<dtagd_nkrecs lagg];
       if c \<noteq> 0 then Some c
       else do {
         c_assert (DT_AGGDATA_RECORD < length (dtagd_drecs lagg) \<and> DT_AGGDATA_RECORD < length (dtagd_drecs ragg));
         let lrec = dtagd_drecs lagg ! DT_AGGDATA_RECORD;
         let rrec = dtagd_drecs ragg ! DT_AGGDATA_RECORD;
         if cmp_vals so (dtrd_action lrec) (dtrd_action rrec) \<noteq> 0 then Some (cmp_vals so (dtrd_action lrec) (dtrd_action rrec))
         else do {
           laddr \<leftarrow> rd_words (dtada_data (snd lh)) (dtrd_offset lrec);
           raddr \<leftarrow> rd_words (dtada_data (snd rh)) (dtrd_offset rrec);
           let lsig = dtagd_sig lagg;
           let rsig = dtagd_sig ragg;
           val_switch ld so (dtrd_action lrec) laddr raddr lsig rsig
         }
       }
     }
   }"

text \<open>The second comparison decides where the first finds no difference.\<close>

definition cmp_then :: "int option \<Rightarrow> int option \<Rightarrow> int option" where
  "cmp_then a b = do {
     rval \<leftarrow> a;
     if rval \<noteq> 0 then Some rval else b
   }"

definition dt_aggregate_valkeycmp :: "('f :: linorder) ld_ops \<Rightarrow> sort_opts \<Rightarrow> agg_ent \<Rightarrow> agg_ent \<Rightarrow> int option" where
  "dt_aggregate_valkeycmp ld so lhs rhs = cmp_then (dt_aggregate_valcmp ld so lhs rhs) (dt_aggregate_keycmp so lhs rhs)"

definition dt_aggregate_keyvarcmp :: "sort_opts \<Rightarrow> agg_ent \<Rightarrow> agg_ent \<Rightarrow> int option" where
  "dt_aggregate_keyvarcmp so lhs rhs = cmp_then (dt_aggregate_keycmp so lhs rhs) (dt_aggregate_varcmp so lhs rhs)"

definition dt_aggregate_varkeycmp :: "sort_opts \<Rightarrow> agg_ent \<Rightarrow> agg_ent \<Rightarrow> int option" where
  "dt_aggregate_varkeycmp so lhs rhs = cmp_then (dt_aggregate_varcmp so lhs rhs) (dt_aggregate_keycmp so lhs rhs)"

definition dt_aggregate_valvarcmp :: "('f :: linorder) ld_ops \<Rightarrow> sort_opts \<Rightarrow> agg_ent \<Rightarrow> agg_ent \<Rightarrow> int option" where
  "dt_aggregate_valvarcmp ld so lhs rhs = cmp_then (dt_aggregate_valkeycmp ld so lhs rhs) (dt_aggregate_varcmp so lhs rhs)"

definition dt_aggregate_varvalcmp :: "('f :: linorder) ld_ops \<Rightarrow> sort_opts \<Rightarrow> agg_ent \<Rightarrow> agg_ent \<Rightarrow> int option" where
  "dt_aggregate_varvalcmp ld so lhs rhs = cmp_then (dt_aggregate_varcmp so lhs rhs) (dt_aggregate_valkeycmp ld so lhs rhs)"

definition dt_aggregate_keyvarrevcmp :: "sort_opts \<Rightarrow> agg_ent \<Rightarrow> agg_ent \<Rightarrow> int option" where
  "dt_aggregate_keyvarrevcmp so lhs rhs = dt_aggregate_keyvarcmp so rhs lhs"

definition dt_aggregate_varkeyrevcmp :: "sort_opts \<Rightarrow> agg_ent \<Rightarrow> agg_ent \<Rightarrow> int option" where
  "dt_aggregate_varkeyrevcmp so lhs rhs = dt_aggregate_varkeycmp so rhs lhs"

definition dt_aggregate_valvarrevcmp :: "('f :: linorder) ld_ops \<Rightarrow> sort_opts \<Rightarrow> agg_ent \<Rightarrow> agg_ent \<Rightarrow> int option" where
  "dt_aggregate_valvarrevcmp ld so lhs rhs = dt_aggregate_valvarcmp ld so rhs lhs"

definition dt_aggregate_varvalrevcmp :: "('f :: linorder) ld_ops \<Rightarrow> sort_opts \<Rightarrow> agg_ent \<Rightarrow> agg_ent \<Rightarrow> int option" where
  "dt_aggregate_varvalrevcmp ld so lhs rhs = dt_aggregate_varvalcmp ld so rhs lhs"

section \<open>The keys that are compared\<close>

lemma cmp_vals_eq_0 [simp]: "cmp_vals so l r = 0 \<longleftrightarrow> l = r"
  by (auto simp: cmp_vals_def DT_LESSTHAN_def DT_GREATERTHAN_def)

lemma cmp_vals_refl [simp]: "cmp_vals so l l = 0"
  by simp

lemma cmp_vals_pair: "cmp_vals so (a, b) (c, d) = (if cmp_vals so a c \<noteq> 0 then cmp_vals so a c else cmp_vals so b d)"
  by (auto simp: cmp_vals_def DT_LESSTHAN_def DT_GREATERTHAN_def)

lemma cmp_vals_Cons: "cmp_vals so (x # xs) (y # ys) = (if cmp_vals so x y \<noteq> 0 then cmp_vals so x y else cmp_vals so xs ys)"
  by (auto simp: cmp_vals_def DT_LESSTHAN_def DT_GREATERTHAN_def)

lemma cmp_first_vals: "length ls = length rs \<Longrightarrow> cmp_first so ls rs = cmp_vals so ls rs"
  by (induction so ls rs rule: cmp_first.induct) (auto simp: cmp_vals_Cons)

text \<open>The part of a key that \<^verbatim>\<open>dt_aggregate_keycmp\<close> compares for one record, and for all records.\<close>

definition keyrec_key :: "dtrace_recdesc \<Rightarrow> u8 list \<Rightarrow> (nat \<times> nat list) option" where
  "keyrec_key rec key = map_option (Pair (dtrd_size rec))
     (if dtrd_size rec \<in> {8, 4, 2, 1} then map_option (\<lambda>v. [v]) (rd_le key (dtrd_offset rec) (dtrd_size rec))
      else if wide_rec rec then rd_nums key (dtrd_offset rec) 8 2
      else rd_nums key (dtrd_offset rec) 1 (dtrd_size rec))"

lemma rd_nums_length: "rd_nums key off w n = Some ns \<Longrightarrow> length ns = n"
  by (auto simp: rd_nums_def split: if_splits)

lemma keyrec_cmp_key:
  assumes "keyrec_key lrec lkey = Some kl" and "keyrec_key rrec rkey = Some kr" and "wide_rec lrec \<longleftrightarrow> wide_rec rrec"
  shows "keyrec_cmp so lrec lkey rrec rkey = Some (cmp_vals so kl kr)"
proof (cases "dtrd_size lrec = dtrd_size rrec")
  case False
  with assms(1,2) show ?thesis by (auto simp: keyrec_cmp_def keyrec_key_def cmp_vals_pair)
next
  case True
  consider "dtrd_size lrec \<in> {8, 4, 2, 1}" | "dtrd_size lrec \<notin> {8, 4, 2, 1}" "wide_rec lrec" | "dtrd_size lrec \<notin> {8, 4, 2, 1}" "\<not> wide_rec lrec"
    by blast
  then show ?thesis
  proof cases
    case 1
    with assms(1,2) True show ?thesis by (auto simp: keyrec_cmp_def keyrec_key_def cmp_vals_pair cmp_vals_Cons)
  next
    case 2
    with assms True show ?thesis
      by (auto simp: keyrec_cmp_def keyrec_key_def cmp_vals_pair cmp_first_vals rd_nums_length)
  next
    case 3
    with assms True show ?thesis
      by (auto simp: keyrec_cmp_def keyrec_key_def cmp_vals_pair cmp_first_vals rd_nums_length)
  qed
qed

definition key_ndx :: "nat \<Rightarrow> nat \<Rightarrow> nat \<Rightarrow> nat" where
  "key_ndx nkrecs keypos i = (if i + keypos \<ge> nkrecs then i + keypos - nkrecs + 1 else i + keypos)"

fun keyrecs_key :: "dtrace_recdesc list \<Rightarrow> u8 list \<Rightarrow> nat list \<Rightarrow> (nat \<times> nat list) list option" where
  "keyrecs_key recs key [] = Some []"
| "keyrecs_key recs key (n # ns) = do {
     c_assert (n < length recs);
     k \<leftarrow> keyrec_key (recs ! n) key;
     ks \<leftarrow> keyrecs_key recs key ns;
     Some (k # ks)
   }"

definition ent_key :: "sort_opts \<Rightarrow> agg_ent \<Rightarrow> (nat \<times> (nat \<times> nat list) list) option" where
  "ent_key so x =
     (let nkrecs = dtagd_nkrecs (fst x);
          keypos = (if dt_keypos so + 1 \<ge> nkrecs then 0 else dt_keypos so)
      in map_option (Pair nkrecs) (keyrecs_key (dtagd_krecs (fst x)) (dtada_key (snd x)) (map (key_ndx nkrecs keypos) [1..<nkrecs])))"

text \<open>The two entries read the records of their keys in the same way.\<close>

definition same_kinds :: "agg_ent \<Rightarrow> agg_ent \<Rightarrow> bool" where
  "same_kinds l r \<longleftrightarrow> list_all2 (\<lambda>a b. wide_rec a \<longleftrightarrow> wide_rec b) (dtagd_krecs (fst l)) (dtagd_krecs (fst r))"

lemma keycmp_loop_key:
  "keyrecs_key (dtagd_krecs (fst l)) (dtada_key (snd l)) (map (key_ndx n p) is) = Some kl \<Longrightarrow>
   keyrecs_key (dtagd_krecs (fst r)) (dtada_key (snd r)) (map (key_ndx n p) is) = Some kr \<Longrightarrow>
   same_kinds l r \<Longrightarrow> keycmp_loop so n p l r is = Some (cmp_vals so kl kr)"
proof (induction "is" arbitrary: kl kr)
  case Nil
  then show ?case by simp
next
  case (Cons i "is")
  let ?n = "key_ndx n p i"
  from Cons.prems obtain a as b bs where k: "?n < length (dtagd_krecs (fst l))" "?n < length (dtagd_krecs (fst r))"
    "keyrec_key (dtagd_krecs (fst l) ! ?n) (dtada_key (snd l)) = Some a" "keyrec_key (dtagd_krecs (fst r) ! ?n) (dtada_key (snd r)) = Some b"
    "keyrecs_key (dtagd_krecs (fst l)) (dtada_key (snd l)) (map (key_ndx n p) is) = Some as"
    "keyrecs_key (dtagd_krecs (fst r)) (dtada_key (snd r)) (map (key_ndx n p) is) = Some bs" "kl = a # as" "kr = b # bs"
    by (auto split: bind_splits)
  have "wide_rec (dtagd_krecs (fst l) ! ?n) \<longleftrightarrow> wide_rec (dtagd_krecs (fst r) ! ?n)"
    using Cons.prems(3) k(1) unfolding same_kinds_def by (rule list_all2_nthD)
  from keyrec_cmp_key [OF k(3,4) this] Cons.IH [OF k(5,6) Cons.prems(3)] k(1,2) show ?case
    unfolding keycmp_loop.simps key_ndx_def [symmetric] by (simp add: k(7,8) cmp_vals_Cons)
qed

lemma keycmp_key:
  assumes "ent_key so l = Some kl" and "ent_key so r = Some kr" and "same_kinds l r"
  shows "dt_aggregate_keycmp so l r = Some (cmp_vals so kl kr)"
proof (cases "dtagd_nkrecs (fst l) = dtagd_nkrecs (fst r)")
  case True
  with assms(1,2) keycmp_loop_key [OF _ _ assms(3)] show ?thesis
    by (auto simp: ent_key_def dt_aggregate_keycmp_def dt_aggregate_hashcmp_def Let_def cmp_vals_pair)
next
  case False
  with assms(1,2) show ?thesis
    by (auto simp: ent_key_def dt_aggregate_keycmp_def dt_aggregate_hashcmp_def Let_def cmp_vals_pair)
qed

text \<open>What \<^verbatim>\<open>dt_aggregate_valcmp\<close> compares: the number and the layout of the key records, the action, and the value.\<close>

definition value_key :: "('f :: linorder) ld_ops \<Rightarrow> nat \<Rightarrow> u64 list \<Rightarrow> u64 \<Rightarrow> ('f \<times> int) option" where
  "value_key ld act q sig =
     (if act = DT_AGG_AVG then map_option (Pair (ld_of ld 0)) (agg_average q)
      else if act = DT_AGG_STDDEV then map_option (\<lambda>r. (ld_of ld 0, uint r)) (dt_stddev (take 4 q) 1)
      else if act = DT_AGG_QUANTIZE then quantized_loop ld q [0..DTRACE_QUANTIZE_NBUCKETS - 1] (ld_of ld 0) 0
      else if act = DT_AGG_LQUANTIZE then do {
        a \<leftarrow> dt_aggregate_lquantizedsum ld q sig;
        z \<leftarrow> dt_aggregate_lquantizedzero q sig;
        Some (a, z)
      }
      else if act = DT_AGG_LLQUANTIZE then do {
        a \<leftarrow> dt_aggregate_llquantizedsum ld q sig;
        z \<leftarrow> dt_aggregate_llquantizedzero q sig;
        Some (a, z)
      }
      else if act \<in> {DT_AGG_COUNT, DT_AGG_SUM, DT_AGG_MIN, DT_AGG_MAX} then map_option (Pair (ld_of ld 0)) (rd64 q 0)
      else None)"

definition ent_layout :: "dtrace_aggdesc \<Rightarrow> nat list \<Rightarrow> (nat \<times> nat) list option" where
  "ent_layout agg is =
     (if list_all (\<lambda>i. i < length (dtagd_krecs agg)) is
      then Some (map (\<lambda>i. (dtrd_offset (dtagd_krecs agg ! i), dtrd_size (dtagd_krecs agg ! i))) is) else None)"

definition ent_val :: "('f :: linorder) ld_ops \<Rightarrow> agg_ent \<Rightarrow> (nat \<times> (nat \<times> nat) list \<times> nat \<times> 'f \<times> int) option" where
  "ent_val ld x = do {
     let agg = fst x;
     c_assert (dtagd_nkrecs agg \<noteq> 0);
     lay \<leftarrow> ent_layout agg [0..<dtagd_nkrecs agg];
     c_assert (DT_AGGDATA_RECORD < length (dtagd_drecs agg));
     let rec = dtagd_drecs agg ! DT_AGGDATA_RECORD;
     q \<leftarrow> rd_words (dtada_data (snd x)) (dtrd_offset rec);
     v \<leftarrow> value_key ld (dtrd_action rec) q (dtagd_sig agg);
     Some (dtagd_nkrecs agg, lay, dtrd_action rec, v)
   }"

lemma layout_cmp_key:
  "ent_layout l is = Some kl \<Longrightarrow> ent_layout r is = Some kr \<Longrightarrow> layout_cmp so l r is = Some (cmp_vals so kl kr)"
proof (induction "is" arbitrary: kl kr)
  case Nil
  then show ?case by (simp add: ent_layout_def)
next
  case (Cons i "is")
  then have "i < length (dtagd_krecs l)" "i < length (dtagd_krecs r)" and
    "layout_cmp so l r is = Some (cmp_vals so (tl kl) (tl kr))"
    by (auto simp: ent_layout_def split: if_splits)
  with Cons.prems show ?case by (auto simp: ent_layout_def cmp_vals_Cons cmp_vals_pair Let_def split: if_splits)
qed

lemma cmp_vals_uint: "cmp_vals so (uint a) (uint b) = cmp_vals so a b"
  by (auto simp: cmp_vals_def word_less_def)

lemma val_switch_key:
  assumes l: "value_key ld act ql lsig = Some kl" and r: "value_key ld act qr rsig = Some kr"
  shows "val_switch ld so act ql qr lsig rsig = Some (cmp_vals so kl kr)"
proof -
  consider "act = DT_AGG_AVG" | "act = DT_AGG_STDDEV" | "act = DT_AGG_QUANTIZE" | "act = DT_AGG_LQUANTIZE" | "act = DT_AGG_LLQUANTIZE"
    | "act \<in> {DT_AGG_COUNT, DT_AGG_SUM, DT_AGG_MIN, DT_AGG_MAX}"
    using l by (auto simp: value_key_def split: if_splits)
  then show ?thesis
  proof cases
    case 1
    with l r show ?thesis by (auto simp: act_defs value_key_def val_switch_def cmp_vals_pair dt_aggregate_averagecmp_def)
  next
    case 2
    with l r show ?thesis by (auto simp: act_defs value_key_def val_switch_def cmp_vals_pair cmp_vals_uint dt_aggregate_stddevcmp_def)
  next
    case 3
    with l r show ?thesis
      by (cases kl; cases kr) (simp add: act_defs value_key_def val_switch_def cmp_vals_pair dt_aggregate_quantizedcmp_def)
  next
    case 4
    with l r show ?thesis
      by (auto simp: act_defs value_key_def val_switch_def cmp_vals_pair dt_aggregate_lquantizedcmp_def split: bind_splits)
  next
    case 5
    with l r show ?thesis
      by (auto simp: act_defs value_key_def val_switch_def cmp_vals_pair dt_aggregate_llquantizedcmp_def split: bind_splits)
  next
    case 6
    then have "value_key ld act = (\<lambda>q sig. map_option (Pair (ld_of ld 0)) (rd64 q 0))"
      "val_switch ld so act ql qr lsig rsig = dt_aggregate_countcmp so ql qr"
      by (auto simp: act_defs value_key_def val_switch_def fun_eq_iff)
    with l r show ?thesis by (auto simp: cmp_vals_pair dt_aggregate_countcmp_def)
  qed
qed

lemma valcmp_key:
  assumes "ent_val ld l = Some kl" and "ent_val ld r = Some kr"
  shows "dt_aggregate_valcmp ld so l r = Some (cmp_vals so kl kr)"
proof -
  let ?L = "dtagd_drecs (fst l) ! DT_AGGDATA_RECORD" and ?R = "dtagd_drecs (fst r) ! DT_AGGDATA_RECORD"
  from assms(1) obtain ll ql vl where l: "dtagd_nkrecs (fst l) \<noteq> 0" "ent_layout (fst l) [0..<dtagd_nkrecs (fst l)] = Some ll"
    "DT_AGGDATA_RECORD < length (dtagd_drecs (fst l))" "rd_words (dtada_data (snd l)) (dtrd_offset ?L) = Some ql"
    "value_key ld (dtrd_action ?L) ql (dtagd_sig (fst l)) = Some vl" "kl = (dtagd_nkrecs (fst l), ll, dtrd_action ?L, vl)"
    by (auto simp: ent_val_def Let_def split: bind_splits)
  from assms(2) obtain lr qr vr where r: "dtagd_nkrecs (fst r) \<noteq> 0" "ent_layout (fst r) [0..<dtagd_nkrecs (fst r)] = Some lr"
    "DT_AGGDATA_RECORD < length (dtagd_drecs (fst r))" "rd_words (dtada_data (snd r)) (dtrd_offset ?R) = Some qr"
    "value_key ld (dtrd_action ?R) qr (dtagd_sig (fst r)) = Some vr" "kr = (dtagd_nkrecs (fst r), lr, dtrd_action ?R, vr)"
    by (auto simp: ent_val_def Let_def split: bind_splits)
  show ?thesis
  proof (cases "dtagd_nkrecs (fst l) = dtagd_nkrecs (fst r) \<and> ll = lr \<and> dtrd_action ?L = dtrd_action ?R")
    case True
    with l r layout_cmp_key [OF l(2), of "fst r" lr] val_switch_key [OF l(5), of qr "dtagd_sig (fst r)" vr so] show ?thesis
      by (simp add: dt_aggregate_valcmp_def dt_aggregate_hashcmp_def Let_def cmp_vals_pair)
  next
    case False
    show ?thesis
    proof (cases "dtagd_nkrecs (fst l) = dtagd_nkrecs (fst r)")
      case True
      with False l r layout_cmp_key [OF l(2), of "fst r" lr so] show ?thesis
        by (auto simp: dt_aggregate_valcmp_def dt_aggregate_hashcmp_def Let_def cmp_vals_pair)
    next
      case False
      with l r show ?thesis by (simp add: dt_aggregate_valcmp_def dt_aggregate_hashcmp_def Let_def cmp_vals_pair)
    qed
  qed
qed

section \<open>Comparators\<close>

text \<open>What \<^verbatim>\<open>qsort\<close> requires of a comparison of the elements of \<open>A\<close>: it returns, and its results are those of a total preorder.\<close>

locale comparator =
  fixes A :: "'a set" and cmp :: "'a \<Rightarrow> 'a \<Rightarrow> int option"
  assumes returns: "a \<in> A \<Longrightarrow> b \<in> A \<Longrightarrow> cmp a b \<noteq> None"
    and opposite: "a \<in> A \<Longrightarrow> b \<in> A \<Longrightarrow> cmp a b = Some r \<Longrightarrow> map_option sgn (cmp b a) = Some (- sgn r)"
    and trans: "a \<in> A \<Longrightarrow> b \<in> A \<Longrightarrow> c \<in> A \<Longrightarrow> the (cmp a b) \<le> 0 \<Longrightarrow> the (cmp b c) \<le> 0 \<Longrightarrow> the (cmp a c) \<le> 0"
begin

lemma same: "a \<in> A \<Longrightarrow> cmp a a = Some 0"
  using returns [of a a] opposite [of a a] by (auto simp: sgn_if split: if_splits)

lemma le_total: "a \<in> A \<Longrightarrow> b \<in> A \<Longrightarrow> the (cmp a b) \<le> 0 \<or> the (cmp b a) \<le> 0"
  using returns [of a b] opposite [of a b] by (fastforce simp: sgn_if split: if_splits)

lemma eq_sym: "a \<in> A \<Longrightarrow> b \<in> A \<Longrightarrow> cmp a b = Some 0 \<Longrightarrow> cmp b a = Some 0"
  using opposite [of a b 0] by (auto simp: sgn_if split: if_splits)

lemma eq_trans: "a \<in> A \<Longrightarrow> b \<in> A \<Longrightarrow> c \<in> A \<Longrightarrow> cmp a b = Some 0 \<Longrightarrow> cmp b c = Some 0 \<Longrightarrow> cmp a c = Some 0"
  using trans [of a b c] trans [of c b a] eq_sym [of a b] eq_sym [of b c] returns [of a c] opposite [of a c]
  by (fastforce simp: sgn_if split: if_splits)

lemma subset:
  assumes "B \<subseteq> A"
  shows "comparator B cmp"
proof
  fix a b c r
  show "a \<in> B \<Longrightarrow> b \<in> B \<Longrightarrow> cmp a b \<noteq> None"
    and "a \<in> B \<Longrightarrow> b \<in> B \<Longrightarrow> cmp a b = Some r \<Longrightarrow> map_option sgn (cmp b a) = Some (- sgn r)"
    and "a \<in> B \<Longrightarrow> b \<in> B \<Longrightarrow> c \<in> B \<Longrightarrow> the (cmp a b) \<le> 0 \<Longrightarrow> the (cmp b c) \<le> 0 \<Longrightarrow> the (cmp a c) \<le> 0"
    by (rule returns opposite trans; use assms in blast)+
qed

lemma rev: "comparator A (\<lambda>a b. cmp b a)"
  by unfold_locales (rule returns opposite trans; assumption)+

end

text \<open>Comparing keys of a linear order, in either direction, is a comparison of that kind.\<close>

lemma comparator_by_key:
  assumes "\<And>a b. a \<in> A \<Longrightarrow> b \<in> A \<Longrightarrow> cmp a b = Some (cmp_vals so (key a) (key b))"
  shows "comparator A cmp"
  by unfold_locales
    (auto simp: assms cmp_vals_def DT_LESSTHAN_def DT_GREATERTHAN_def split: if_splits)

text \<open>
  The entries of a table of descriptions, as \<^verbatim>\<open>dt_aggid_add\<close> sets them up: a description has the identifier under which
  it is found, and that is not zero.
\<close>

definition table_ents :: "agg_table \<Rightarrow> agg_ent set" where
  "table_ents t = {(agg, e). dt_aggid_lookup t (dtada_desc e) = Some agg \<and> dtagd_varid agg = dtada_desc e \<and> dtada_desc e \<noteq> 0}"

definition varkey_key :: "sort_opts \<Rightarrow> agg_ent \<Rightarrow> (nat \<times> (nat \<times> (nat \<times> nat list) list)) option" where
  "varkey_key so x = map_option (Pair (dtagd_varid (fst x))) (ent_key so x)"

definition varval_key :: "('f :: linorder) ld_ops \<Rightarrow> sort_opts \<Rightarrow> agg_ent \<Rightarrow>
    (nat \<times> (nat \<times> (nat \<times> nat) list \<times> nat \<times> 'f \<times> int) \<times> (nat \<times> (nat \<times> nat list) list)) option" where
  "varval_key ld so x = do {
     v \<leftarrow> ent_val ld x;
     k \<leftarrow> ent_key so x;
     Some (dtagd_varid (fst x), v, k)
   }"

lemma varcmp_table:
  assumes "l \<in> table_ents t" and "r \<in> table_ents t"
  shows "dt_aggregate_varcmp so l r = Some (cmp_vals so (dtagd_varid (fst l)) (dtagd_varid (fst r)))"
  using assms by (auto simp: table_ents_def dt_aggregate_varcmp_def dt_aggregate_aggid_def DTRACE_AGGVARIDNONE_def)

lemma same_var_same_kinds:
  assumes "l \<in> table_ents t" and "r \<in> table_ents t" and "dtagd_varid (fst l) = dtagd_varid (fst r)"
  shows "same_kinds l r"
  using assms by (auto simp: table_ents_def same_kinds_def list_all2_refl)

lemma varkeycmp_key:
  assumes "l \<in> table_ents t" and "r \<in> table_ents t" and "varkey_key so l = Some kl" and "varkey_key so r = Some kr"
  shows "dt_aggregate_varkeycmp so l r = Some (cmp_vals so kl kr)"
  using assms(3,4) keycmp_key [OF _ _ same_var_same_kinds [OF assms(1,2)]]
  by (auto simp: dt_aggregate_varkeycmp_def cmp_then_def varcmp_table [OF assms(1,2)] varkey_key_def cmp_vals_pair)

lemma varvalcmp_key:
  assumes "l \<in> table_ents t" and "r \<in> table_ents t" and "varval_key ld so l = Some kl" and "varval_key ld so r = Some kr"
  shows "dt_aggregate_varvalcmp ld so l r = Some (cmp_vals so kl kr)"
  using assms(3,4) keycmp_key [OF _ _ same_var_same_kinds [OF assms(1,2)]] valcmp_key [of ld l _ r]
  by (auto simp: dt_aggregate_varvalcmp_def dt_aggregate_valkeycmp_def cmp_then_def varcmp_table [OF assms(1,2)] varval_key_def
    cmp_vals_pair split: bind_splits)

interpretation varkey: comparator "{x \<in> table_ents t. varkey_key so x \<noteq> None}" "dt_aggregate_varkeycmp so" for t so
  by (rule comparator_by_key [of _ _ so "\<lambda>x. the (varkey_key so x)"]) (auto simp: varkeycmp_key)

interpretation varval: comparator "{x \<in> table_ents t. varval_key ld so x \<noteq> None}" "dt_aggregate_varvalcmp ld so" for t ld so
  by (rule comparator_by_key [of _ _ so "\<lambda>x. the (varval_key ld so x)"]) (auto simp: varvalcmp_key)

section \<open>Properties\<close>

text \<open>Entries for the examples: one key record besides the identifier, with action \<open>act\<close>.\<close>

definition demo_rec :: "nat \<Rightarrow> nat \<Rightarrow> nat \<Rightarrow> dtrace_recdesc" where
  "demo_rec act sz off = \<lparr>dtrd_action = act, dtrd_size = sz, dtrd_offset = off, dtrd_alignment = 1, dtrd_arg = 0\<rparr>"

definition demo_desc :: "nat \<Rightarrow> nat \<Rightarrow> nat \<Rightarrow> nat \<Rightarrow> dtrace_aggdesc" where
  "demo_desc var act sz fn = \<lparr>dtagd_name = [], dtagd_varid = var, dtagd_sig = 0, dtagd_normal = 1, dtagd_ksize = 8 + sz, dtagd_dsize = 16,
     dtagd_nkrecs = 2, dtagd_keyidx = 2, dtagd_krecs = [demo_rec DTRACEACT_DIFEXPR 4 0, demo_rec act sz 8],
     dtagd_drecs = [demo_rec fn 8 0, demo_rec fn 8 8]\<rparr>"

definition demo_ent :: "nat \<Rightarrow> u8 list \<Rightarrow> u64 list \<Rightarrow> dt_ahashent" where
  "demo_ent var key data = \<lparr>dtahe_hval = var, dtada_desc = var, dtada_key = [word_of_nat var, 0, 0, 0, 0, 0, 0, 0] @ key, dtada_data = 1 # data,
     dtada_percpu = None\<rparr>"

abbreviation "demo_so \<equiv> \<lparr>dt_revsort = False, dt_keysort = False, dt_keypos = 0\<rparr>"

abbreviation demo_ld :: "int ld_ops" where
  "demo_ld \<equiv> \<lparr>ld_of = (\<lambda>i. i), ld_add = (+), ld_mul = (*), ld_div = (div), ld_powl = (\<lambda>a b. a ^ nat b)\<rparr>"

lemmas demo_data_defs = demo_rec_def demo_desc_def demo_ent_def table_ents_def dt_aggid_lookup_def act_defs DT_AGGDATA_RECORD_def

text \<open>
  C4. The default order of aggregations, \<^verbatim>\<open>dt_aggregate_varvalcmp\<close>, compares the variable, the layout, the
  value and the key, in this order, for any entries of one table of descriptions whose values can be computed: it is
  the comparison of tuples in a lexicographic, and so total, order.
\<close>

theorem varval_order:
  assumes "l \<in> table_ents t" and "r \<in> table_ents t" and "varval_key ld so l = Some kl" and "varval_key ld so r = Some kr"
  shows "dt_aggregate_varvalcmp ld so l r = Some (cmp_vals so kl kr)"
  using assms by (rule varvalcmp_key)

theorem varval_order_witness:
  "dt_aggregate_varvalcmp demo_ld demo_so (demo_desc 1 0 1 DT_AGG_COUNT, demo_ent 1 [5] [3]) (demo_desc 1 0 1 DT_AGG_COUNT, demo_ent 1 [4] [7]) = Some (- 1)"
proof -
  let ?t = "\<lparr>dt_adesc = [None, Some (demo_desc 1 0 1 DT_AGG_COUNT)], dt_maxaggdsize = 16\<rparr>"
  let ?e = "\<lambda>k v. (demo_desc 1 0 1 DT_AGG_COUNT, demo_ent 1 [k] [v])"
  have "?e k v \<in> table_ents ?t" for k v by (simp add: demo_data_defs)
  moreover have "varval_key demo_ld demo_so (?e k v) = Some (1, (2, [(0, 4), (8, 1)], DT_AGG_COUNT, 0, sint v), 2, [(1, [unat k])])" for k v
    by (simp add: demo_data_defs varval_key_def ent_val_def ent_layout_def rd_words_def value_key_def rd64_def ent_key_def key_ndx_def
      keyrec_key_def rd_le_def rd_bytes_def Let_def upt_rec [of _ 2])
  ultimately show ?thesis using varval_order [of "?e 5 3" ?t "?e 4 7" demo_ld demo_so] by (simp add: cmp_vals_def DT_LESSTHAN_def)
qed



end
