(* ===== verification/AggHash.thy ===== *)
theory AggHash
  imports AggData "HOL-Library.Sublist"
begin

text \<open>
  The aggregation hash of \<^verbatim>\<open>libdtrace/dt_aggregate.c\<close>: entries that are on a hash chain and on the list of all entries at
  once, both doubly linked, and the walk over all entries, which may remove the entry it is at.

  \<open>ahash_rep\<close> relates the links to a list of entries and a partition of it into chains.  The walk is shown to refine a
  fold over that list.
\<close>

section \<open>Structure\<close>

text \<open>
  Both pairs of links of the entries, the array of chains and the head of the list of all.  \<open>aggmaps\<close> has the producers'
  maps of the online CPUs, by key; \<^term>\<open>None\<close> where the map cannot be opened.
\<close>

record agg_hash =
  ents :: "addr \<rightharpoonup> dt_ahashent"
  hlinks :: links
  alinks :: links
  dtah_hash :: "addr option list"
  dtah_all :: "addr option"
  aggmaps :: "(u8 list \<times> u64 list) list option list"

definition DTRACE_AHASHSIZE :: nat where "DTRACE_AHASHSIZE = 32779"

text \<open>\<^verbatim>\<open>dt_aggregate_go\<close>: three buffers and the array.\<close>

definition dt_aggregate_go :: "agg_hash \<Rightarrow> nat \<Rightarrow> allocs \<Rightarrow> int \<times> agg_hash" where
  "dt_aggregate_go hs maxaggdsize mm =
     (if maxaggdsize = 0 then (0, hs)
      else
        (case c_alloc mm of
           (b, mm) \<Rightarrow>
        (case c_alloc mm of
           (k, mm) \<Rightarrow>
        (case c_alloc mm of
           (nk, mm) \<Rightarrow>
             if b = None \<or> k = None \<or> nk = None then (- 1, hs)
             else
               (case c_alloc mm of
                  (None, mm) \<Rightarrow> (- 1, hs\<lparr>dtah_hash := []\<rparr>)
                | (Some _, mm) \<Rightarrow> (0, hs\<lparr>dtah_hash := replicate DTRACE_AHASHSIZE None\<rparr>))))))"

text \<open>The end of \<^verbatim>\<open>dt_aggregate_snap_one\<close>: the new entry becomes the first of its chain and of all.\<close>

definition link_first :: "links \<Rightarrow> addr option \<Rightarrow> addr \<Rightarrow> links option" where
  "link_first lk first h = do {
     let lk = lk(h \<mapsto> \<lparr>lk_prev = None, lk_next = None\<rparr>);
     lk \<leftarrow> (case first of None \<Rightarrow> Some lk | Some f \<Rightarrow> set_prev lk f (Some h));
     set_next lk h first
   }"

definition ahash_add :: "agg_hash \<Rightarrow> addr \<Rightarrow> dt_ahashent \<Rightarrow> agg_hash option" where
  "ahash_add hs h e = do {
     let ndx = dtahe_hval e mod length (dtah_hash hs);
     c_assert (ndx < length (dtah_hash hs));
     hl \<leftarrow> link_first (hlinks hs) (dtah_hash hs ! ndx) h;
     al \<leftarrow> link_first (alinks hs) (dtah_all hs) h;
     Some (hs\<lparr>ents := (ents hs)(h \<mapsto> e), hlinks := hl, alinks := al, dtah_hash := (dtah_hash hs)[ndx := Some h], dtah_all := Some h\<rparr>)
   }"

text \<open>
  Unlinking a node: the result has the links and the new head, where the node was the first.  \<open>first\<close> is the head, which
  is only looked at where the node has no previous one.
\<close>

definition link_remove :: "links \<Rightarrow> addr option \<Rightarrow> addr \<Rightarrow> (links \<times> addr option) option" where
  "link_remove lk first h = do {
     p \<leftarrow> get_prev lk h;
     n \<leftarrow> get_next lk h;
     (lk, first) \<leftarrow>
       (case p of
          Some p \<Rightarrow> do {
            lk \<leftarrow> set_next lk p n;
            Some (lk, first)
          }
        | None \<Rightarrow> do {
            c_assert (first = Some h);
            Some (lk, n)
          });
     n \<leftarrow> get_next lk h;
     (case n of
        Some n \<Rightarrow> do {
          p \<leftarrow> get_prev lk h;
          lk \<leftarrow> set_prev lk n p;
          Some (lk, first)
        }
      | None \<Rightarrow> Some (lk, first))
   }"

text \<open>Removal on the producer side; it stops at the first map that cannot be opened, which its caller ignores.\<close>

definition pad_key :: "nat \<Rightarrow> u8 list \<Rightarrow> u8 list" where
  "pad_key maxtuplesize key = key @ replicate (maxtuplesize - length key) 0"

fun dt_aggwalk_remove :: "u8 list \<Rightarrow> (u8 list \<times> u64 list) list option list \<Rightarrow> (u8 list \<times> u64 list) list option list" where
  "dt_aggwalk_remove key [] = []"
| "dt_aggwalk_remove key (None # ms) = None # ms"
| "dt_aggwalk_remove key (Some m # ms) = Some (filter (\<lambda>e. fst e \<noteq> key) m) # dt_aggwalk_remove key ms"

definition DTRACE_AGGWALK_ERROR :: int where "DTRACE_AGGWALK_ERROR = - 1"

definition DTRACE_AGGWALK_NEXT :: int where "DTRACE_AGGWALK_NEXT = 0"

definition DTRACE_AGGWALK_ABORT :: int where "DTRACE_AGGWALK_ABORT = 1"

definition DTRACE_AGGWALK_REMOVE :: int where "DTRACE_AGGWALK_REMOVE = 3"

lemmas aggwalk_defs = DTRACE_AGGWALK_ERROR_def DTRACE_AGGWALK_NEXT_def DTRACE_AGGWALK_ABORT_def DTRACE_AGGWALK_REMOVE_def

definition dt_aggwalk_rval :: "nat \<Rightarrow> agg_hash \<Rightarrow> addr \<Rightarrow> int \<Rightarrow> (int \<times> agg_hash) option" where
  "dt_aggwalk_rval maxtuplesize hs h rval =
     (if rval = DTRACE_AGGWALK_NEXT then Some (0, hs)
      else if rval = DTRACE_AGGWALK_ERROR then Some (- 1, hs)
      else if rval = DTRACE_AGGWALK_ABORT then Some (- 1, hs)
      else if rval = DTRACE_AGGWALK_REMOVE then do {
        e \<leftarrow> ents hs h;
        let ndx = dtahe_hval e mod length (dtah_hash hs);
        c_assert (ndx < length (dtah_hash hs));
        (hl, first) \<leftarrow> link_remove (hlinks hs) (dtah_hash hs ! ndx) h;
        (al, all) \<leftarrow> link_remove (alinks hs) (dtah_all hs) h;
        Some (0, hs\<lparr>ents := (ents hs)(h := None), hlinks := hl(h := None), alinks := al(h := None),
          dtah_hash := (dtah_hash hs)[ndx := first], dtah_all := all,
          aggmaps := dt_aggwalk_remove (pad_key maxtuplesize (dtada_key e)) (aggmaps hs)\<rparr>)
      }
      else Some (- 1, hs))"

text \<open>
  The function that is called for an entry may change the data of the entry and has a state of its own; it returns one of
  the values above.
\<close>

type_synonym 's agg_func = "'s \<Rightarrow> dt_ahashent \<Rightarrow> int \<times> 's \<times> dt_ahashent"

definition agg_visit :: "nat \<Rightarrow> 's agg_func \<Rightarrow> agg_hash \<Rightarrow> 's \<Rightarrow> addr \<Rightarrow> (int \<times> agg_hash \<times> 's) option" where
  "agg_visit mts f hs u h = do {
     e \<leftarrow> ents hs h;
     (case f u e of
        (rval, u, e) \<Rightarrow> do {
          (r, hs) \<leftarrow> dt_aggwalk_rval mts (hs\<lparr>ents := (ents hs)(h \<mapsto> e)\<rparr>) h rval;
          Some (r, hs, u)
        })
   }"

partial_function (option) agg_walk :: "nat \<Rightarrow> 's agg_func \<Rightarrow> addr option \<Rightarrow> agg_hash \<Rightarrow> 's \<Rightarrow> (int \<times> agg_hash \<times> 's) option" where
  "agg_walk mts f h hs u =
     (case h of
        None \<Rightarrow> Some (0, hs, u)
      | Some h \<Rightarrow> do {
          nxt \<leftarrow> get_next (alinks hs) h;
          (r, hs, u) \<leftarrow> agg_visit mts f hs u h;
          if r = - 1 then Some (- 1, hs, u) else agg_walk mts f nxt hs u
        })"

definition dtrace_aggregate_walk :: "nat \<Rightarrow> 's agg_func \<Rightarrow> agg_hash \<Rightarrow> 's \<Rightarrow> (int \<times> agg_hash \<times> 's) option" where
  "dtrace_aggregate_walk mts f hs u = agg_walk mts f (dtah_all hs) hs u"

section \<open>Links\<close>

lemma link_first_seg:
  assumes "seg lk None xs None" and "distinct xs" and "h \<notin> set xs"
  shows "\<exists>lk'. link_first lk (hd_or xs None) h = Some lk' \<and> seg lk' None (h # xs) None \<and> (\<forall>p. p \<notin> set (h # xs) \<longrightarrow> lk' p = lk p)"
proof (cases xs)
  case Nil
  then show ?thesis by (simp add: link_first_def link_access)
next
  case (Cons x ys)
  with assms show ?thesis by (auto simp: link_first_def link_access)
qed

lemma link_remove_seg:
  assumes "seg lk None (as @ h # bs) None" and "distinct (as @ h # bs)"
  shows "\<exists>lk'. link_remove lk (hd_or (as @ h # bs) None) h = Some (lk', hd_or (as @ bs) None) \<and> seg lk' None (as @ bs) None \<and>
    (\<forall>p. p \<notin> set (as @ bs) \<longrightarrow> lk' p = lk p)"
proof (cases as rule: rev_cases)
  case Nil
  then show ?thesis using assms by (cases bs) (auto simp: link_remove_def link_access)
next
  case (snoc cs a)
  then show ?thesis using assms by (cases bs) (auto simp: link_remove_def link_access)
qed

text \<open>The nodes of the list, chain by chain and in the order of all.\<close>

definition ahash_rep :: "agg_hash \<Rightarrow> addr list list \<Rightarrow> addr list \<Rightarrow> bool" where
  "ahash_rep hs cs as \<longleftrightarrow>
     0 < length cs \<and> length (dtah_hash hs) = length cs \<and>
     (\<forall>i < length cs. dtah_hash hs ! i = hd_or (cs ! i) None \<and> seg (hlinks hs) None (cs ! i) None \<and>
        (\<forall>p \<in> set (cs ! i). \<exists>e. ents hs p = Some e \<and> dtahe_hval e mod length cs = i)) \<and>
     distinct (concat cs) \<and> set (concat cs) = set as \<and>
     dtah_all hs = hd_or as None \<and> seg (alinks hs) None as None \<and> distinct as"

lemma concat_update_distinct:
  assumes "i < length cs" and "distinct (concat cs)" and "distinct xs" and "set xs \<inter> (set (concat cs) - set (cs ! i)) = {}"
  shows "distinct (concat (cs[i := xs])) \<and> set (concat (cs[i := xs])) = (set (concat cs) - set (cs ! i)) \<union> set xs"
proof -
  define ps qs where d: "ps = concat (take i cs)" "qs = concat (drop (Suc i) cs)"
  have "concat (cs[i := xs]) = ps @ xs @ qs" using assms(1) by (simp add: upd_conv_take_nth_drop d)
  moreover have "concat cs = ps @ cs ! i @ qs"
    using arg_cong [OF id_take_nth_drop [OF assms(1)], of concat] by (simp add: d)
  ultimately show ?thesis using assms(2-4) by auto
qed

lemma chain_disjoint:
  assumes "distinct (concat cs)" and "i < length cs" and "j < length cs" and "i \<noteq> j"
  shows "set (cs ! i) \<inter> set (cs ! j) = {}"
proof -
  define ps qs where d: "ps = concat (take i cs)" "qs = concat (drop (Suc i) cs)"
  have "concat cs = ps @ cs ! i @ qs"
    using arg_cong [OF id_take_nth_drop [OF assms(2)], of concat] by (simp add: d)
  moreover have "cs ! j \<in> set (take i cs @ drop (Suc i) cs)"
  proof (cases "j < i")
    case True
    then show ?thesis using assms(3) by (auto simp: in_set_conv_nth)
  next
    case False
    then have "drop (Suc i) cs ! (j - Suc i) = cs ! j" "j - Suc i < length (drop (Suc i) cs)" using assms(3,4) by auto
    then show ?thesis by (metis Un_iff nth_mem set_append)
  qed
  then have "set (cs ! j) \<subseteq> set ps \<union> set qs" by (auto simp: d)
  ultimately show ?thesis using assms(1) by auto
qed

lemma ahash_rep_at:
  assumes "ahash_rep hs cs as" and "i < length cs"
  shows "dtah_hash hs ! i = hd_or (cs ! i) None" and "seg (hlinks hs) None (cs ! i) None"
    and "p \<in> set (cs ! i) \<Longrightarrow> \<exists>e. ents hs p = Some e \<and> dtahe_hval e mod length cs = i"
  using assms unfolding ahash_rep_def by blast+

lemma ahash_rep_chain:
  assumes "ahash_rep hs cs as" and "ents hs p = Some e" and "p \<in> set as"
  shows "dtahe_hval e mod length cs < length cs \<and> p \<in> set (cs ! (dtahe_hval e mod length cs))"
proof -
  have "p \<in> set (concat cs)" using assms by (simp add: ahash_rep_def)
  then obtain c where "c \<in> set cs" "p \<in> set c" by auto
  then obtain i where i: "i < length cs" "p \<in> set (cs ! i)" by (metis in_set_conv_nth)
  then have "dtahe_hval e mod length cs = i" using ahash_rep_at(3) [OF assms(1) i] assms(2) by simp
  with i show ?thesis by simp
qed

lemma ahash_rep_add:
  assumes rep: "ahash_rep hs cs as" and new: "h \<notin> set as" and "ndx = dtahe_hval e mod length cs"
  shows "\<exists>hs'. ahash_add hs h e = Some hs' \<and> ahash_rep hs' (cs[ndx := h # cs ! ndx]) (h # as) \<and>
    ents hs' = (ents hs)(h \<mapsto> e) \<and> aggmaps hs' = aggmaps hs"
proof -
  have ndx: "ndx < length cs" using rep by (simp add: assms(3) ahash_rep_def)
  have hn: "h \<notin> set (concat cs)" "\<And>i. i < length cs \<Longrightarrow> h \<notin> set (cs ! i)" using rep new by (auto simp: ahash_rep_def dest: nth_mem)
  have dc: "distinct (concat cs)" "distinct (cs ! ndx)" using rep ndx by (auto simp: ahash_rep_def distinct_concat_iff)
  obtain hl where hl: "link_first (hlinks hs) (hd_or (cs ! ndx) None) h = Some hl" "seg hl None (h # cs ! ndx) None"
    "\<And>p. p \<notin> set (h # cs ! ndx) \<Longrightarrow> hl p = hlinks hs p"
    using link_first_seg [of "hlinks hs" "cs ! ndx" h] rep ndx dc(2) hn(2) by (auto simp: ahash_rep_def)
  obtain al where al: "link_first (alinks hs) (hd_or as None) h = Some al" "seg al None (h # as) None"
    using link_first_seg [of "alinks hs" as h] rep new by (auto simp: ahash_rep_def)
  have other: "seg hl None (cs ! i) None" if "i < length cs" "i \<noteq> ndx" for i
  proof -
    have "p \<notin> set (h # cs ! ndx)" if "p \<in> set (cs ! i)" for p
      using chain_disjoint [OF dc(1) \<open>i < length cs\<close> ndx \<open>i \<noteq> ndx\<close>] hn(2) [OF \<open>i < length cs\<close>] that by auto
    then have "seg hl None (cs ! i) None = seg (hlinks hs) None (cs ! i) None" by (intro seg_cong) (rule hl(3))
    then show ?thesis using rep that by (simp add: ahash_rep_def)
  qed
  have upd: "distinct (concat (cs[ndx := h # cs ! ndx])) \<and> set (concat (cs[ndx := h # cs ! ndx])) = insert h (set as)"
    using concat_update_distinct [OF ndx dc(1), of "h # cs ! ndx"] dc(2) hn ndx rep nth_mem [OF ndx]
    by (auto simp: ahash_rep_def)
  let ?hs = "hs\<lparr>ents := (ents hs)(h \<mapsto> e), hlinks := hl, alinks := al, dtah_hash := (dtah_hash hs)[ndx := Some h], dtah_all := Some h\<rparr>"
  have "ahash_rep ?hs (cs[ndx := h # cs ! ndx]) (h # as)"
    using rep ndx upd al(2) hl(2) other new hn(2) unfolding ahash_rep_def
    by (auto simp: nth_list_update assms(3) fun_upd_def)
  moreover have "ahash_add hs h e = Some ?hs"
    using rep ndx hl(1) al(1) by (simp add: ahash_add_def ahash_rep_def assms(3) [symmetric] Let_def)
  ultimately show ?thesis by (intro exI [of _ ?hs]) simp
qed

lemma ahash_rep_remove:
  assumes rep: "ahash_rep hs cs (xs @ h # ys)" and e: "ents hs h = Some e"
  shows "\<exists>hs' cs'. dt_aggwalk_rval mts hs h DTRACE_AGGWALK_REMOVE = Some (0, hs') \<and> ahash_rep hs' cs' (xs @ ys) \<and>
    ents hs' = (ents hs)(h := None) \<and> aggmaps hs' = dt_aggwalk_remove (pad_key mts (dtada_key e)) (aggmaps hs)"
proof -
  define ndx where "ndx = dtahe_hval e mod length cs"
  have ndx: "ndx < length cs" "h \<in> set (cs ! ndx)" using ahash_rep_chain [OF rep e] by (simp_all add: ndx_def)
  then obtain ps qs where c: "cs ! ndx = ps @ h # qs" by (meson split_list)
  have dc: "distinct (concat cs)" "distinct (cs ! ndx)" and len: "length (dtah_hash hs) = length cs"
    using rep ndx by (auto simp: ahash_rep_def distinct_concat_iff)
  obtain hl where hl: "link_remove (hlinks hs) (hd_or (ps @ h # qs) None) h = Some (hl, hd_or (ps @ qs) None)" "seg hl None (ps @ qs) None"
    "\<And>p. p \<notin> set (ps @ qs) \<Longrightarrow> hl p = hlinks hs p"
    using link_remove_seg [of "hlinks hs" ps h qs] ahash_rep_at(2) [OF rep ndx(1)] dc(2) unfolding c by blast
  obtain al where al: "link_remove (alinks hs) (hd_or (xs @ h # ys) None) h = Some (al, hd_or (xs @ ys) None)" "seg al None (xs @ ys) None"
    using link_remove_seg [of "alinks hs" xs h ys] rep by (auto simp: ahash_rep_def)
  let ?cs = "cs[ndx := ps @ qs]"
  let ?hs = "hs\<lparr>ents := (ents hs)(h := None), hlinks := hl(h := None), alinks := al(h := None), dtah_hash := (dtah_hash hs)[ndx := hd_or (ps @ qs) None],
    dtah_all := hd_or (xs @ ys) None, aggmaps := dt_aggwalk_remove (pad_key mts (dtada_key e)) (aggmaps hs)\<rparr>"
  have nin: "h \<notin> set (ps @ qs)" "h \<notin> set (xs @ ys)" using dc(2) rep by (auto simp: c ahash_rep_def)
  have other: "seg hl None (cs ! i) None \<and> h \<notin> set (cs ! i)" if "i < length cs" "i \<noteq> ndx" for i
  proof -
    have "set (cs ! i) \<inter> set (ps @ h # qs) = {}" using chain_disjoint [OF dc(1) that(1) ndx(1) that(2)] by (simp only: c)
    then have "seg hl None (cs ! i) None = seg (hlinks hs) None (cs ! i) None" by (intro seg_cong hl(3)) auto
    with \<open>set (cs ! i) \<inter> _ = {}\<close> ahash_rep_at(2) [OF rep that(1)] show ?thesis by auto
  qed
  have upd: "distinct (concat ?cs) \<and> set (concat ?cs) = set (xs @ ys)"
  proof -
    have all: "set (concat cs) = set (xs @ h # ys)" using rep by (simp add: ahash_rep_def)
    have "set (cs ! ndx) \<subseteq> set (concat cs)" using nth_mem [OF ndx(1)] by auto
    then have sub: "set (ps @ h # qs) \<subseteq> set (xs @ h # ys)" unfolding all c .
    have "distinct (concat ?cs) \<and> set (concat ?cs) = (set (xs @ h # ys) - set (ps @ h # qs)) \<union> set (ps @ qs)"
      using concat_update_distinct [OF ndx(1) dc(1), of "ps @ qs"] dc(2) unfolding all c by auto
    then show ?thesis using sub nin by auto
  qed
  have at: "dtah_hash ?hs ! i = hd_or (?cs ! i) None \<and> seg (hlinks ?hs) None (?cs ! i) None \<and>
      (\<forall>p \<in> set (?cs ! i). \<exists>e. ents ?hs p = Some e \<and> dtahe_hval e mod length ?cs = i)" if i: "i < length ?cs" for i
  proof (cases "i = ndx")
    case True
    then show ?thesis using ndx(1) len hl(2) nin(1) ahash_rep_at(3) [OF rep ndx(1)] by (auto simp: c)
  next
    case False
    then show ?thesis using i other [of i] ahash_rep_at [OF rep, of i] by auto
  qed
  have "ahash_rep ?hs ?cs (xs @ ys)"
    using at upd al(2) nin(2) ndx(1) len rep unfolding ahash_rep_def by auto
  moreover have "dt_aggwalk_rval mts hs h DTRACE_AGGWALK_REMOVE = Some (0, ?hs)"
    using e len ndx(1) hl(1) al(1) ahash_rep_at(1) [OF rep ndx(1)] rep
    by (simp add: dt_aggwalk_rval_def aggwalk_defs Let_def ndx_def [symmetric] c ahash_rep_def)
  ultimately show ?thesis by (intro exI [of _ ?hs] exI [of _ ?cs]) simp
qed

section \<open>Walking\<close>

text \<open>
  The walk as a fold over the entries: the result, the state of the function, the entries that are left, and the ones that were removed.
\<close>

fun ents_fold :: "'s agg_func \<Rightarrow> 's \<Rightarrow> dt_ahashent list \<Rightarrow> int \<times> 's \<times> dt_ahashent list \<times> dt_ahashent list" where
  "ents_fold f u [] = (0, u, [], [])"
| "ents_fold f u (e # es) =
     (case f u e of
        (rval, u, e) \<Rightarrow>
          if rval = DTRACE_AGGWALK_NEXT then (case ents_fold f u es of (r, u, ks, ds) \<Rightarrow> (r, u, e # ks, ds))
          else if rval = DTRACE_AGGWALK_REMOVE then (case ents_fold f u es of (r, u, ks, ds) \<Rightarrow> (r, u, ks, e # ds))
          else (- 1, u, e # es, []))"

definition keeps_hval :: "'s agg_func \<Rightarrow> bool" where
  "keeps_hval f \<longleftrightarrow> (\<forall>u e. dtahe_hval (snd (snd (f u e))) = dtahe_hval e)"

definition ents_of :: "agg_hash \<Rightarrow> addr list \<Rightarrow> dt_ahashent list" where
  "ents_of hs as = map (\<lambda>p. the (ents hs p)) as"

lemma ents_of_simps [simp]:
  "ents_of hs [] = []" "ents_of hs (p # ps) = the (ents hs p) # ents_of hs ps" "ents_of hs (ps @ qs) = ents_of hs ps @ ents_of hs qs"
  by (simp_all add: ents_of_def)

lemma ents_of_cong: "(\<And>p. p \<in> set ps \<Longrightarrow> ents hs p = ents hs' p) \<Longrightarrow> ents_of hs ps = ents_of hs' ps"
  by (simp add: ents_of_def)

lemma ahash_rep_ents: "ahash_rep hs cs as \<Longrightarrow> p \<in> set as \<Longrightarrow> \<exists>e. ents hs p = Some e"
proof -
  assume rep: "ahash_rep hs cs as" and "p \<in> set as"
  then have "p \<in> set (concat cs)" by (simp add: ahash_rep_def)
  then obtain c where "c \<in> set cs" "p \<in> set c" by auto
  then obtain i where "i < length cs" "p \<in> set (cs ! i)" by (metis in_set_conv_nth)
  from ahash_rep_at(3) [OF rep this] show ?thesis by blast
qed

lemma ahash_rep_set_ent:
  assumes "ahash_rep hs cs as" and "ents hs p = Some e" and "dtahe_hval e' = dtahe_hval e"
  shows "ahash_rep (hs\<lparr>ents := (ents hs)(p \<mapsto> e')\<rparr>) cs as"
  using assms by (fastforce simp: ahash_rep_def)

lemma agg_walk_fold:
  assumes "keeps_hval f"
  shows "ahash_rep hs cs (xs @ ys) \<Longrightarrow>
    \<exists>r hs' cs' zs u' ds. agg_walk mts f (hd_or ys None) hs u = Some (r, hs', u') \<and> ahash_rep hs' cs' (xs @ zs) \<and>
      ents_fold f u (ents_of hs ys) = (r, u', ents_of hs' zs, ds) \<and> ents_of hs' xs = ents_of hs xs \<and> subseq zs ys \<and>
      aggmaps hs' = fold (\<lambda>e. dt_aggwalk_remove (pad_key mts (dtada_key e))) ds (aggmaps hs) \<and> (\<forall>p. ents hs p = None \<longrightarrow> ents hs' p = None)"
proof (induction ys arbitrary: hs cs xs u)
  case Nil
  then show ?case by (subst agg_walk.simps) (auto simp: ents_of_def)
next
  case (Cons h ys)
  obtain e where e: "ents hs h = Some e" using ahash_rep_ents [OF Cons.prems, of h] by auto
  obtain rval u1 e1 where f: "f u e = (rval, u1, e1)" by (cases "f u e")
  have hv: "dtahe_hval e1 = dtahe_hval e" using assms f unfolding keeps_hval_def by (metis snd_conv)
  define hs1 where "hs1 = hs\<lparr>ents := (ents hs)(h \<mapsto> e1)\<rparr>"
  have rep1: "ahash_rep hs1 cs (xs @ h # ys)" unfolding hs1_def by (rule ahash_rep_set_ent [OF Cons.prems e hv])
  have nxt: "get_next (alinks hs) h = Some (hd_or ys None)"
    using seg_next [of "alinks hs" None "xs @ h # ys" None "length xs"] Cons.prems by (simp add: ahash_rep_def)
  have dis: "h \<notin> set xs" "h \<notin> set ys" using Cons.prems by (auto simp: ahash_rep_def)
  then have same: "ents_of hs1 xs = ents_of hs xs" "ents_of hs1 ys = ents_of hs ys"
    by (auto simp: hs1_def intro!: ents_of_cong)
  have none: "\<forall>p. ents hs p = None \<longrightarrow> ents hs1 p = None" using e by (simp add: hs1_def)
  note step = agg_walk.simps [of mts f "Some h" hs u]
  consider "rval = DTRACE_AGGWALK_NEXT" | "rval = DTRACE_AGGWALK_REMOVE" | "rval \<noteq> DTRACE_AGGWALK_NEXT" "rval \<noteq> DTRACE_AGGWALK_REMOVE" by blast
  then show ?case
  proof cases
    case 1
    have "ahash_rep hs1 cs ((xs @ [h]) @ ys)" using rep1 by simp
    from Cons.IH [OF this, of u1] obtain r hs' cs' zs u' ds where IH: "agg_walk mts f (hd_or ys None) hs1 u1 = Some (r, hs', u')"
      "ahash_rep hs' cs' ((xs @ [h]) @ zs)" "ents_fold f u1 (ents_of hs1 ys) = (r, u', ents_of hs' zs, ds)"
      "ents_of hs' (xs @ [h]) = ents_of hs1 (xs @ [h])" "subseq zs ys"
      "aggmaps hs' = fold (\<lambda>e. dt_aggwalk_remove (pad_key mts (dtada_key e))) ds (aggmaps hs1)" "\<forall>p. ents hs1 p = None \<longrightarrow> ents hs' p = None" by blast
    have "agg_visit mts f hs u h = Some (0, hs1, u1)" using e f 1 by (simp add: agg_visit_def dt_aggwalk_rval_def hs1_def)
    then have w: "agg_walk mts f (Some h) hs u = Some (r, hs', u')" using IH(1) nxt by (subst step) simp
    have "the (ents hs' h) = e1" "ents_of hs' xs = ents_of hs xs" using IH(4) same(1) by (simp_all add: hs1_def)
    moreover have "\<forall>p. ents hs p = None \<longrightarrow> ents hs' p = None" using none IH(7) by blast
    ultimately show ?thesis using w IH(1-6) same(2) e f 1
      by (intro exI [of _ r] exI [of _ hs'] exI [of _ cs'] exI [of _ "h # zs"] exI [of _ u'] exI [of _ ds]) (simp add: hs1_def)
  next
    case 2
    have e1: "ents hs1 h = Some e1" by (simp add: hs1_def)
    from ahash_rep_remove [OF rep1 e1, of mts] obtain hs2 cs2 where hs2: "dt_aggwalk_rval mts hs1 h DTRACE_AGGWALK_REMOVE = Some (0, hs2)"
      "ahash_rep hs2 cs2 (xs @ ys)" "ents hs2 = (ents hs1)(h := None)" "aggmaps hs2 = dt_aggwalk_remove (pad_key mts (dtada_key e1)) (aggmaps hs1)" by blast
    have same2: "ents_of hs2 xs = ents_of hs xs" "ents_of hs2 ys = ents_of hs ys"
      using dis by (auto simp: hs2(3) hs1_def intro!: ents_of_cong)
    from Cons.IH [OF hs2(2), of u1] obtain r hs' cs' zs u' ds where IH: "agg_walk mts f (hd_or ys None) hs2 u1 = Some (r, hs', u')"
      "ahash_rep hs' cs' (xs @ zs)" "ents_fold f u1 (ents_of hs2 ys) = (r, u', ents_of hs' zs, ds)"
      "ents_of hs' xs = ents_of hs2 xs" "subseq zs ys"
      "aggmaps hs' = fold (\<lambda>e. dt_aggwalk_remove (pad_key mts (dtada_key e))) ds (aggmaps hs2)" "\<forall>p. ents hs2 p = None \<longrightarrow> ents hs' p = None" by blast
    have "agg_visit mts f hs u h = Some (0, hs2, u1)" using e f 2 hs2(1) by (simp add: agg_visit_def hs1_def)
    then have w: "agg_walk mts f (Some h) hs u = Some (r, hs', u')" using IH(1) nxt by (subst step) simp
    moreover have "\<forall>p. ents hs p = None \<longrightarrow> ents hs' p = None" using none IH(7) by (simp add: hs2(3))
    ultimately show ?thesis using IH(1-6) same2 e f 2
      by (intro exI [of _ r] exI [of _ hs'] exI [of _ cs'] exI [of _ zs] exI [of _ u'] exI [of _ "e1 # ds"])
        (simp add: hs2(4) hs1_def aggwalk_defs list_emb_Cons)
  next
    case 3
    then have "agg_visit mts f hs u h = Some (- 1, hs1, u1)" using e f by (simp add: agg_visit_def dt_aggwalk_rval_def hs1_def)
    then have "agg_walk mts f (Some h) hs u = Some (- 1, hs1, u1)" using nxt by (subst step) simp
    with 3 rep1 same e f show ?thesis
      by (intro exI [of _ "- 1"] exI [of _ hs1] exI [of _ cs] exI [of _ "h # ys"] exI [of _ u1] exI [of _ "[]"]) (simp add: hs1_def)
  qed
qed

section \<open>Properties\<close>

text \<open>
  C5. \<^verbatim>\<open>dtrace_aggregate_walk\<close> ends, without a fault, and is a fold over the entries: the function is called once for
  every entry, in the order of the list, up to the first one for which it returns an error, also when it removes entries on the way.
  The entries that are left are well-formed again and in the same order, and the removed keys are
  deleted from the maps of the producers.
\<close>

theorem walk_is_fold:
  assumes "ahash_rep hs cs as" and "keeps_hval f"
  shows "\<exists>r hs' cs' as' u' ds. dtrace_aggregate_walk mts f hs u = Some (r, hs', u') \<and> ahash_rep hs' cs' as' \<and> subseq as' as \<and>
    ents_fold f u (ents_of hs as) = (r, u', ents_of hs' as', ds) \<and>
    aggmaps hs' = fold (\<lambda>e. dt_aggwalk_remove (pad_key mts (dtada_key e))) ds (aggmaps hs)"
proof -
  have "dtah_all hs = hd_or as None" using assms(1) by (simp add: ahash_rep_def)
  then show ?thesis using agg_walk_fold [OF assms(2), of hs cs "[]" as mts u] assms(1)
    by (fastforce simp: dtrace_aggregate_walk_def)
qed

definition demo_hash :: agg_hash where
  "demo_hash = \<lparr>ents = [1 \<mapsto> demo_ent 5 [] [], 2 \<mapsto> demo_ent 3 [] []],
     hlinks = [1 \<mapsto> \<lparr>lk_prev = None, lk_next = Some 2\<rparr>, 2 \<mapsto> \<lparr>lk_prev = Some 1, lk_next = None\<rparr>],
     alinks = [1 \<mapsto> \<lparr>lk_prev = Some 2, lk_next = None\<rparr>, 2 \<mapsto> \<lparr>lk_prev = None, lk_next = Some 1\<rparr>],
     dtah_hash = [None, Some 1], dtah_all = Some 2, aggmaps = []\<rparr>"

lemma demo_hash_rep: "ahash_rep demo_hash [[], [1, 2]] [2, 1]"
proof -
  have "(5 :: nat) mod Suc (Suc 0) = Suc 0" "(3 :: nat) mod Suc (Suc 0) = Suc 0" by (simp_all add: mod_Suc eval_nat_numeral)
  then show ?thesis by (auto simp: ahash_rep_def demo_hash_def demo_ent_def less_Suc_eq)
qed

text \<open>The function removes the first entry and counts the entries that it is called for.\<close>

theorem walk_is_fold_witness:
  "\<exists>hs' as'. dtrace_aggregate_walk 8 (\<lambda>n e. (if n = 0 then 3 else 0, n + 1, e)) demo_hash (0 :: nat) = Some (0, hs', 2) \<and>
     ents_of hs' as' = [demo_ent 5 [] []]"
proof -
  have "keeps_hval (\<lambda>n e. (if n = 0 then 3 else 0, n + 1 :: nat, e))" by (simp add: keeps_hval_def)
  from walk_is_fold [OF demo_hash_rep this, of 8 0] show ?thesis by (auto simp: demo_hash_def aggwalk_defs)
qed

end
