(* ===== verification/AggSnap.thy ===== *)
theory AggSnap
  imports AggHash
begin

text \<open>
  Taking a snapshot of the aggregations, in \<^verbatim>\<open>libdtrace/dt_aggregate.c\<close>: the data of every CPU is added up in the aggregation hash.

  Every datum has a generation; \<^verbatim>\<open>clear()\<close> starts a new one, and data of an older generation is to be ignored.  The main
  property is that after a snapshot an entry has the sum, minimum or maximum of the current data of all CPUs for its key.
  Symbol tables and processes, which addresses in keys are looked up in, are a record of functions.
\<close>

section \<open>Adding and clearing\<close>









section \<open>Reducing addresses\<close>



text \<open>A word of a key, and a key with a word replaced.\<close>

primrec le_bytes :: "nat \<Rightarrow> nat \<Rightarrow> u8 list" where
  "le_bytes 0 v = []"
| "le_bytes (Suc n) v = word_of_nat v # le_bytes n (v div 256)"











section \<open>Snapshots\<close>














section \<open>Data\<close>


definition vmerge :: "nat \<Rightarrow> u64 list \<Rightarrow> u64 list \<Rightarrow> u64 list" where
  "vmerge act vs ws =
     map2 (\<lambda>v w. if act = DT_AGG_MAX then (if sint w > sint v then w else v)
        else if act = DT_AGG_MIN then (if sint w < sint v then w else v) else v + w) vs ws"



lemma length_vmerge [simp]: "length (vmerge act vs ws) = min (length vs) (length ws)"
  by (simp add: vmerge_def)






section \<open>Well-formedness\<close>









lemma length_le_bytes [simp]: "length (le_bytes n v) = n"
  by (induction n arbitrary: v) simp_all






section \<open>One entry\<close>













section \<open>The hash\<close>







section \<open>One datum\<close>











section \<open>All data\<close>









section \<open>The data of one key\<close>









section \<open>Descriptions\<close>









section \<open>Snapshots\<close>




























end
