(* ===== verification/AggSort.thy ===== *)
theory AggSort
  imports AggHash "HOL-Library.Multiset"
begin

text \<open>
  Sorted walks over the aggregation hash (\<^verbatim>\<open>dt_aggregate_walk_sorted\<close> and the functions that call it, in
  \<^verbatim>\<open>libdtrace/dt_aggregate.c\<close>) and the truncation of aggregations (\<^verbatim>\<open>dt_trunc\<close> in \<^verbatim>\<open>libdtrace/dt_consume.c\<close>), which is built on
  them.

  The standard leaves open how \<^verbatim>\<open>qsort\<close> orders elements that compare equal, so it is a parameter that is known to return
  a sorted permutation when the comparison is consistent.  A sorted walk is shown to refine a fold over that permutation, and
  \<^verbatim>\<open>trunc()\<close> to keep the largest, or smallest, entries.
\<close>

section \<open>Sorting\<close>

text \<open>The elements are pointers to entries; a fault of the comparison is a fault of the sort.\<close>

type_synonym c_qsort = "(addr \<Rightarrow> addr \<Rightarrow> int option) \<Rightarrow> addr list \<Rightarrow> addr list option"

definition qsort_laws :: "c_qsort \<Rightarrow> bool" where
  "qsort_laws qs \<longleftrightarrow> (\<forall>cmp ps. comparator (set ps) cmp \<longrightarrow>
     (\<exists>qs'. qs cmp ps = Some qs' \<and> mset qs' = mset ps \<and> sorted_wrt (\<lambda>p q. the (cmp p q) \<le> 0) qs'))"

text \<open>The comparison functions are given pointers; the description of an entry is found by its identifier.\<close>

type_synonym agg_cmp = "sort_opts \<Rightarrow> agg_ent \<Rightarrow> agg_ent \<Rightarrow> int option"

definition ent_at :: "agg_table \<Rightarrow> agg_hash \<Rightarrow> addr \<Rightarrow> agg_ent option" where
  "ent_at t hs p = do {
     e \<leftarrow> ents hs p;
     agg \<leftarrow> dt_aggid_lookup t (dtada_desc e);
     Some (agg, e)
   }"

definition ptr_cmp :: "agg_table \<Rightarrow> agg_hash \<Rightarrow> (agg_ent \<Rightarrow> agg_ent \<Rightarrow> int option) \<Rightarrow> addr \<Rightarrow> addr \<Rightarrow> int option" where
  "ptr_cmp t hs cmp p q = do {
     l \<leftarrow> ent_at t hs p;
     r \<leftarrow> ent_at t hs q;
     cmp l r
   }"

text \<open>The options of the handle, where set, and the static variables outside \<^verbatim>\<open>dt_aggregate_qsort\<close>, which restores them.\<close>

record agg_sort_options =
  aggsortrev :: bool
  aggsortkey :: bool
  aggsortkeypos :: "nat option"

definition static_opts :: sort_opts where
  "static_opts = \<lparr>dt_revsort = False, dt_keysort = False, dt_keypos = 0\<rparr>"

definition dt_aggregate_qsort :: "('f :: linorder) ld_ops \<Rightarrow> c_qsort \<Rightarrow> agg_sort_options \<Rightarrow> agg_table \<Rightarrow> agg_hash \<Rightarrow> agg_cmp option \<Rightarrow> addr list \<Rightarrow> addr list option" where
  "dt_aggregate_qsort ld qs opts t hs compar base =
     (let so = \<lparr>dt_revsort = aggsortrev opts, dt_keysort = aggsortkey opts,
        dt_keypos = (case aggsortkeypos opts of Some n \<Rightarrow> if n \<le> 2147483647 then n else 0 | None \<Rightarrow> 0)\<rparr>;
          compar = (case compar of
            None \<Rightarrow> if \<not> dt_keysort so then dt_aggregate_varvalcmp ld else dt_aggregate_varkeycmp
          | Some c \<Rightarrow> c)
      in qs (ptr_cmp t hs (compar so)) base)"

section \<open>Sorted walks\<close>

text \<open>The loops over the list of all entries that count them and fill the array.\<close>

partial_function (option) all_entries :: "links \<Rightarrow> addr option \<Rightarrow> addr list option" where
  "all_entries lk h =
     (case h of
        None \<Rightarrow> Some []
      | Some p \<Rightarrow> do {
          n \<leftarrow> get_next lk p;
          ps \<leftarrow> all_entries lk n;
          Some (p # ps)
        })"

fun visit_sorted :: "nat \<Rightarrow> 's agg_func \<Rightarrow> addr list \<Rightarrow> agg_hash \<Rightarrow> 's \<Rightarrow> (int \<times> agg_hash \<times> 's) option" where
  "visit_sorted mts f [] hs u = Some (0, hs, u)"
| "visit_sorted mts f (h # hps) hs u = do {
     (r, hs, u) \<leftarrow> agg_visit mts f hs u h;
     if r = - 1 then Some (- 1, hs, u) else visit_sorted mts f hps hs u
   }"

text \<open>What the walks are given besides the function: the table, the sizes, the options and the C library.\<close>

record 'f sort_env =
  so_ld :: "'f ld_ops"
  so_qsort :: c_qsort
  so_options :: agg_sort_options
  so_table :: agg_table
  so_mts :: nat

definition dt_aggregate_walk_sorted :: "('f :: linorder) sort_env \<Rightarrow> 's agg_func \<Rightarrow> agg_cmp option \<Rightarrow> agg_hash \<Rightarrow> 's \<Rightarrow> allocs \<Rightarrow> (int \<times> agg_hash \<times> 's) option" where
  "dt_aggregate_walk_sorted env f sfunc hs u mm = do {
     ps \<leftarrow> all_entries (alinks hs) (dtah_all hs);
     if ps = [] then Some (0, hs, u)
     else
       (case c_alloc mm of
          (None, _) \<Rightarrow> Some (- 1, hs, u)
        | (Some _, _) \<Rightarrow> do {
            sorted \<leftarrow>
              (case sfunc of
                 None \<Rightarrow> dt_aggregate_qsort (so_ld env) (so_qsort env) (so_options env) (so_table env) hs None ps
               | Some sfunc \<Rightarrow> so_qsort env (ptr_cmp (so_table env) hs (sfunc static_opts)) ps);
            visit_sorted (so_mts env) f sorted hs u
          })
   }"

definition dtrace_aggregate_walk_sorted :: "('f :: linorder) sort_env \<Rightarrow> 's agg_func \<Rightarrow> agg_hash \<Rightarrow> 's \<Rightarrow> allocs \<Rightarrow> (int \<times> agg_hash \<times> 's) option" where
  "dtrace_aggregate_walk_sorted env f = dt_aggregate_walk_sorted env f None"

definition dtrace_aggregate_walk_keysorted :: "('f :: linorder) sort_env \<Rightarrow> 's agg_func \<Rightarrow> agg_hash \<Rightarrow> 's \<Rightarrow> allocs \<Rightarrow> (int \<times> agg_hash \<times> 's) option" where
  "dtrace_aggregate_walk_keysorted env f = dt_aggregate_walk_sorted env f (Some dt_aggregate_varkeycmp)"

definition dtrace_aggregate_walk_valsorted :: "('f :: linorder) sort_env \<Rightarrow> 's agg_func \<Rightarrow> agg_hash \<Rightarrow> 's \<Rightarrow> allocs \<Rightarrow> (int \<times> agg_hash \<times> 's) option" where
  "dtrace_aggregate_walk_valsorted env f = dt_aggregate_walk_sorted env f (Some (dt_aggregate_varvalcmp (so_ld env)))"

definition dtrace_aggregate_walk_keyvarsorted :: "('f :: linorder) sort_env \<Rightarrow> 's agg_func \<Rightarrow> agg_hash \<Rightarrow> 's \<Rightarrow> allocs \<Rightarrow> (int \<times> agg_hash \<times> 's) option" where
  "dtrace_aggregate_walk_keyvarsorted env f = dt_aggregate_walk_sorted env f (Some dt_aggregate_keyvarcmp)"

definition dtrace_aggregate_walk_valvarsorted :: "('f :: linorder) sort_env \<Rightarrow> 's agg_func \<Rightarrow> agg_hash \<Rightarrow> 's \<Rightarrow> allocs \<Rightarrow> (int \<times> agg_hash \<times> 's) option" where
  "dtrace_aggregate_walk_valvarsorted env f = dt_aggregate_walk_sorted env f (Some (dt_aggregate_valvarcmp (so_ld env)))"

definition dtrace_aggregate_walk_keyrevsorted :: "('f :: linorder) sort_env \<Rightarrow> 's agg_func \<Rightarrow> agg_hash \<Rightarrow> 's \<Rightarrow> allocs \<Rightarrow> (int \<times> agg_hash \<times> 's) option" where
  "dtrace_aggregate_walk_keyrevsorted env f = dt_aggregate_walk_sorted env f (Some dt_aggregate_varkeyrevcmp)"

definition dtrace_aggregate_walk_valrevsorted :: "('f :: linorder) sort_env \<Rightarrow> 's agg_func \<Rightarrow> agg_hash \<Rightarrow> 's \<Rightarrow> allocs \<Rightarrow> (int \<times> agg_hash \<times> 's) option" where
  "dtrace_aggregate_walk_valrevsorted env f = dt_aggregate_walk_sorted env f (Some (dt_aggregate_varvalrevcmp (so_ld env)))"

definition dtrace_aggregate_walk_keyvarrevsorted :: "('f :: linorder) sort_env \<Rightarrow> 's agg_func \<Rightarrow> agg_hash \<Rightarrow> 's \<Rightarrow> allocs \<Rightarrow> (int \<times> agg_hash \<times> 's) option" where
  "dtrace_aggregate_walk_keyvarrevsorted env f = dt_aggregate_walk_sorted env f (Some dt_aggregate_keyvarrevcmp)"

definition dtrace_aggregate_walk_valvarrevsorted :: "('f :: linorder) sort_env \<Rightarrow> 's agg_func \<Rightarrow> agg_hash \<Rightarrow> 's \<Rightarrow> allocs \<Rightarrow> (int \<times> agg_hash \<times> 's) option" where
  "dtrace_aggregate_walk_valvarrevsorted env f = dt_aggregate_walk_sorted env f (Some (dt_aggregate_valvarrevcmp (so_ld env)))"

section \<open>Truncation\<close>

definition DTRACEACT_LIBACT :: nat where "DTRACEACT_LIBACT = 5"

definition DT_ACT_TRUNC :: u64 where "DT_ACT_TRUNC = 47 + 1 + 18"

record dt_trunc_arg =
  dttd_id :: nat
  dttd_remaining :: nat

text \<open>An entry without a description is a fault, which the argument remembers.\<close>

definition dt_trunc_agg :: "agg_table \<Rightarrow> (dt_trunc_arg \<times> bool) agg_func" where
  "dt_trunc_agg t u e =
     (case u of
        (trunc, ok) \<Rightarrow>
          (case dt_aggid_lookup t (dtada_desc e) of
             None \<Rightarrow> (DTRACE_AGGWALK_ERROR, (trunc, False), e)
           | Some agg \<Rightarrow>
               if dtagd_nkrecs agg = 0 then (DTRACE_AGGWALK_NEXT, u, e)
               else if dtagd_varid agg \<noteq> dttd_id trunc then (DTRACE_AGGWALK_NEXT, u, e)
               else if dttd_remaining trunc = 0 then (DTRACE_AGGWALK_REMOVE, u, e)
               else (DTRACE_AGGWALK_NEXT, (trunc\<lparr>dttd_remaining := dttd_remaining trunc - 1\<rparr>, ok), e)))"

text \<open>The number of entries to keep, by the size of its record; no result for any other size.\<close>

definition trunc_count :: "u8 list \<Rightarrow> dtrace_recdesc \<Rightarrow> int option option" where
  "trunc_count base rec =
     (if dtrd_size rec = 8 then map_option (\<lambda>v. Some (sint (word_of_nat v :: 64 word))) (rd_le base (dtrd_offset rec) 8)
      else if dtrd_size rec = 4 then map_option (\<lambda>v. Some (sint (word_of_nat v :: 32 word))) (rd_le base (dtrd_offset rec) 4)
      else if dtrd_size rec = 2 then map_option (\<lambda>v. Some (sint (word_of_nat v :: 16 word))) (rd_le base (dtrd_offset rec) 2)
      else if dtrd_size rec = 1 then map_option (\<lambda>v. Some (sint (word_of_nat v :: 8 word))) (rd_le base (dtrd_offset rec) 1)
      else Some None)"

text \<open>
  \<open>recs\<close> are the record of the aggregation and those after it.  Negating the least number overflows.  The result of the walk is
  ignored.
\<close>

definition dt_trunc :: "('f :: linorder) sort_env \<Rightarrow> agg_hash \<Rightarrow> u8 list \<Rightarrow> dtrace_recdesc list \<Rightarrow> allocs \<Rightarrow> (int \<times> agg_hash) option" where
  "dt_trunc env hs base recs mm =
     (case recs of
        [] \<Rightarrow> None
      | rec # recs \<Rightarrow>
          if dtrd_size rec \<noteq> 4 then Some (- 1, hs)
          else do {
            aid \<leftarrow> rd_le base (dtrd_offset rec) 4;
            (case recs of
               [] \<Rightarrow> None
             | rec # _ \<Rightarrow>
                 if dtrd_action rec \<noteq> DTRACEACT_LIBACT then Some (- 1, hs)
                 else if dtrd_arg rec \<noteq> DT_ACT_TRUNC then Some (- 1, hs)
                 else do {
                   count \<leftarrow> trunc_count base rec;
                   (case count of
                      None \<Rightarrow> Some (- 1, hs)
                    | Some remaining \<Rightarrow> do {
                        c_assert (- (2 ^ 63) < remaining);
                        let func = (if remaining < 0 then dtrace_aggregate_walk_valsorted env else dtrace_aggregate_walk_valrevsorted env);
                        (_, hs, (_, ok)) \<leftarrow> func (dt_trunc_agg (so_table env)) hs
                          (\<lparr>dttd_id = aid, dttd_remaining = nat \<bar>remaining\<bar>\<rparr>, True) mm;
                        c_assert ok;
                        Some (0, hs)
                      })
                 })
          })"

section \<open>Visiting entries in any order\<close>

lemma all_entries_seg: "seg lk p xs None \<Longrightarrow> all_entries lk (hd_or xs None) = Some xs"
proof (induction xs arbitrary: p)
  case Nil
  then show ?case by (subst all_entries.simps) simp
next
  case (Cons x xs)
  then have "get_next lk x = Some (hd_or xs None)" "all_entries lk (hd_or xs None) = Some xs" by (auto simp: get_next_def)
  then show ?case by (subst all_entries.simps) simp
qed

text \<open>
  What visiting does to the entries \<open>E\<close>: the result, the argument, the entries and the pointers to those that are removed.
\<close>

fun visit_fold :: "'s agg_func \<Rightarrow> (addr \<Rightarrow> dt_ahashent) \<Rightarrow> 's \<Rightarrow> addr list \<Rightarrow> int \<times> 's \<times> (addr \<Rightarrow> dt_ahashent) \<times> addr list" where
  "visit_fold f E u [] = (0, u, E, [])"
| "visit_fold f E u (p # ps) =
     (case f u (E p) of
        (rval, u, e) \<Rightarrow>
          if rval = DTRACE_AGGWALK_NEXT then visit_fold f (E(p := e)) u ps
          else if rval = DTRACE_AGGWALK_REMOVE then (case visit_fold f (E(p := e)) u ps of (r, u, E, rs) \<Rightarrow> (r, u, E, p # rs))
          else (- 1, u, E(p := e), []))"

definition ents_are :: "agg_hash \<Rightarrow> addr list \<Rightarrow> (addr \<Rightarrow> dt_ahashent) \<Rightarrow> bool" where
  "ents_are hs as E \<longleftrightarrow> (\<forall>p \<in> set as. ents hs p = Some (E p))"

lemma visit_one:
  assumes "keeps_hval f" and "ahash_rep hs cs as" and "ents_are hs as E" and "h \<in> set as" and "f u (E h) = (rval, u1, e1)"
  shows "\<exists>hs' cs' as'. agg_visit mts f hs u h = Some (if rval \<in> {DTRACE_AGGWALK_NEXT, DTRACE_AGGWALK_REMOVE} then 0 else - 1, hs', u1) \<and>
    ahash_rep hs' cs' (filter (\<lambda>p. rval \<noteq> DTRACE_AGGWALK_REMOVE \<or> p \<noteq> h) as) \<and>
    ents_are hs' (filter (\<lambda>p. rval \<noteq> DTRACE_AGGWALK_REMOVE \<or> p \<noteq> h) as) (E(h := e1))"
proof -
  have e: "ents hs h = Some (E h)" using assms(3,4) by (simp add: ents_are_def)
  have hv: "dtahe_hval e1 = dtahe_hval (E h)" using assms(1,5) unfolding keeps_hval_def by (metis snd_conv)
  define hs1 where "hs1 = hs\<lparr>ents := (ents hs)(h \<mapsto> e1)\<rparr>"
  have rep1: "ahash_rep hs1 cs as" unfolding hs1_def by (rule ahash_rep_set_ent [OF assms(2) e hv])
  have are1: "ents_are hs1 as (E(h := e1))" using assms(3) by (simp add: ents_are_def hs1_def)
  show ?thesis
  proof (cases "rval = DTRACE_AGGWALK_REMOVE")
    case False
    then have "agg_visit mts f hs u h = Some (if rval \<in> {DTRACE_AGGWALK_NEXT, DTRACE_AGGWALK_REMOVE} then 0 else - 1, hs1, u1)"
      using e assms(5) by (simp add: agg_visit_def dt_aggwalk_rval_def hs1_def)
    with False rep1 are1 show ?thesis by (intro exI [of _ hs1] exI [of _ cs]) simp
  next
    case True
    obtain xs ys where as: "as = xs @ h # ys" using assms(4) by (meson split_list)
    have dist: "distinct as" using assms(2) by (simp add: ahash_rep_def)
    then have "h \<notin> set xs" "h \<notin> set ys" by (auto simp: as)
    then have "filter (\<lambda>p. p \<noteq> h) xs = xs" "filter (\<lambda>p. p \<noteq> h) ys = ys" by (metis (mono_tags, lifting) filter_True)+
    then have rest: "filter (\<lambda>p. p \<noteq> h) as = xs @ ys" by (simp add: as)
    obtain hs2 cs2 where hs2: "dt_aggwalk_rval mts hs1 h DTRACE_AGGWALK_REMOVE = Some (0, hs2)" "ahash_rep hs2 cs2 (xs @ ys)"
      "ents hs2 = (ents hs1)(h := None)" using ahash_rep_remove [OF rep1 [unfolded as], of e1 mts] by (auto simp: hs1_def)
    have "agg_visit mts f hs u h = Some (0, hs2, u1)" using e assms(5) True hs2(1) by (simp add: agg_visit_def hs1_def)
    moreover have "ents_are hs2 (xs @ ys) (E(h := e1))" using are1 dist unfolding as by (auto simp: ents_are_def hs2(3))
    ultimately show ?thesis using True hs2(2) rest by (intro exI [of _ hs2] exI [of _ cs2]) simp
  qed
qed

lemma visit_sorted_fold:
  assumes "keeps_hval f"
  shows "ahash_rep hs cs as \<Longrightarrow> ents_are hs as E \<Longrightarrow> distinct ps \<Longrightarrow> set ps \<subseteq> set as \<Longrightarrow> visit_fold f E u ps = (r, u', E', rs) \<Longrightarrow>
    \<exists>hs' cs'. visit_sorted mts f ps hs u = Some (r, hs', u') \<and> ahash_rep hs' cs' (filter (\<lambda>p. p \<notin> set rs) as) \<and>
      ents_are hs' (filter (\<lambda>p. p \<notin> set rs) as) E'"
proof (induction ps arbitrary: hs cs as E u rs)
  case Nil
  then show ?case by auto
next
  case (Cons h ps)
  obtain rval u1 e1 where f: "f u (E h) = (rval, u1, e1)" by (cases "f u (E h)")
  let ?as = "filter (\<lambda>p. rval \<noteq> DTRACE_AGGWALK_REMOVE \<or> p \<noteq> h) as"
  from visit_one [OF assms Cons.prems(1,2) _ f, of mts] Cons.prems(4) obtain hs1 cs1 where one:
    "agg_visit mts f hs u h = Some (if rval \<in> {DTRACE_AGGWALK_NEXT, DTRACE_AGGWALK_REMOVE} then 0 else - 1, hs1, u1)"
    "ahash_rep hs1 cs1 ?as" "ents_are hs1 ?as (E(h := e1))" by auto
  show ?case
  proof (cases "rval \<in> {DTRACE_AGGWALK_NEXT, DTRACE_AGGWALK_REMOVE}")
    case False
    then show ?thesis using one Cons.prems(5) f by (auto simp: aggwalk_defs)
  next
    case True
    obtain rs1 where fold: "visit_fold f (E(h := e1)) u1 ps = (r, u', E', rs1)" "rs = (if rval = DTRACE_AGGWALK_REMOVE then h # rs1 else rs1)"
      using Cons.prems(5) f True by (auto simp: aggwalk_defs split: prod.splits)
    have "set ps \<subseteq> set ?as" "distinct ps" using Cons.prems(3,4) by auto
    from Cons.IH [OF one(2,3) this(2,1) fold(1)] obtain hs' cs' where
      "visit_sorted mts f ps hs1 u1 = Some (r, hs', u')" "ahash_rep hs' cs' (filter (\<lambda>p. p \<notin> set rs1) ?as)"
      "ents_are hs' (filter (\<lambda>p. p \<notin> set rs1) ?as) E'" by blast
    moreover have "filter (\<lambda>p. p \<notin> set rs1) ?as = filter (\<lambda>p. p \<notin> set rs) as" by (auto simp: fold(2) intro: filter_cong)
    ultimately show ?thesis using True one(1) by (intro exI [of _ hs'] exI [of _ cs']) auto
  qed
qed

lemma walk_sorted_fold:
  assumes qs: "qsort_laws (so_qsort env)" and keep: "keeps_hval f" and rep: "ahash_rep hs cs as" and are: "ents_are hs as E"
    and cmp: "comparator (set as) (ptr_cmp (so_table env) hs (sfunc static_opts))" and mm: "fst (c_alloc mm) \<noteq> None"
  shows "\<exists>ps. mset ps = mset as \<and> sorted_wrt (\<lambda>p q. the (ptr_cmp (so_table env) hs (sfunc static_opts) p q) \<le> 0) ps \<and>
    (\<forall>r u' E' rs. visit_fold f E u ps = (r, u', E', rs) \<longrightarrow>
       (\<exists>hs' cs'. dt_aggregate_walk_sorted env f (Some sfunc) hs u mm = Some (r, hs', u') \<and>
          ahash_rep hs' cs' (filter (\<lambda>p. p \<notin> set rs) as) \<and> ents_are hs' (filter (\<lambda>p. p \<notin> set rs) as) E'))"
proof -
  have all: "all_entries (alinks hs) (dtah_all hs) = Some as" "distinct as"
    using rep all_entries_seg [of "alinks hs" None as] by (simp_all add: ahash_rep_def)
  obtain ps where ps: "so_qsort env (ptr_cmp (so_table env) hs (sfunc static_opts)) as = Some ps" "mset ps = mset as"
    "sorted_wrt (\<lambda>p q. the (ptr_cmp (so_table env) hs (sfunc static_opts) p q) \<le> 0) ps"
    using qs cmp unfolding qsort_laws_def by blast
  have "distinct ps" "set ps \<subseteq> set as" using all(2) mset_eq_imp_distinct_iff [OF ps(2)] mset_eq_setD [OF ps(2)] by auto
  note visit = visit_sorted_fold [OF keep rep are this, where mts = "so_mts env"]
  have "dt_aggregate_walk_sorted env f (Some sfunc) hs u mm = visit_sorted (so_mts env) f ps hs u" if "as \<noteq> []"
    using all(1) ps(1) mm that by (auto simp: dt_aggregate_walk_sorted_def split: prod.split option.split)
  moreover have "dt_aggregate_walk_sorted env f (Some sfunc) hs u mm = visit_sorted (so_mts env) f ps hs u" if "as = []"
    using all(1) ps(2) that by (simp add: dt_aggregate_walk_sorted_def)
  ultimately have "dt_aggregate_walk_sorted env f (Some sfunc) hs u mm = visit_sorted (so_mts env) f ps hs u" by blast
  with visit ps(2,3) show ?thesis by (intro exI [of _ ps]) simp
qed

section \<open>What truncation keeps\<close>

definition of_var :: "agg_table \<Rightarrow> nat \<Rightarrow> dt_ahashent \<Rightarrow> bool" where
  "of_var t aid e = (case dt_aggid_lookup t (dtada_desc e) of None \<Rightarrow> False | Some agg \<Rightarrow> dtagd_nkrecs agg \<noteq> 0 \<and> dtagd_varid agg = aid)"

lemma keeps_trunc: "keeps_hval (dt_trunc_agg t)"
  by (auto simp: keeps_hval_def dt_trunc_agg_def split: option.splits)

lemma trunc_agg_step:
  "dt_aggid_lookup t (dtada_desc e) \<noteq> None \<Longrightarrow> dt_trunc_agg t (trunc, ok) e =
     (if \<not> of_var t (dttd_id trunc) e then (DTRACE_AGGWALK_NEXT, (trunc, ok), e)
      else if dttd_remaining trunc = 0 then (DTRACE_AGGWALK_REMOVE, (trunc, ok), e)
      else (DTRACE_AGGWALK_NEXT, (trunc\<lparr>dttd_remaining := dttd_remaining trunc - 1\<rparr>, ok), e))"
  by (auto simp: dt_trunc_agg_def of_var_def)

lemma trunc_fold:
  assumes "\<And>p. p \<in> set ps \<Longrightarrow> dt_aggid_lookup t (dtada_desc (E p)) \<noteq> None"
  shows "\<exists>u. visit_fold (dt_trunc_agg t) E (\<lparr>dttd_id = aid, dttd_remaining = n\<rparr>, True) ps =
    (0, (u, True), E, drop n (filter (\<lambda>p. of_var t aid (E p)) ps))"
  using assms
proof (induction ps arbitrary: n)
  case (Cons p ps)
  have agg: "dt_aggid_lookup t (dtada_desc (E p)) \<noteq> None" using Cons.prems by simp
  obtain u where u: "visit_fold (dt_trunc_agg t) E (\<lparr>dttd_id = aid, dttd_remaining = n - 1\<rparr>, True) ps =
    (0, (u, True), E, drop (n - 1) (filter (\<lambda>p. of_var t aid (E p)) ps))" using Cons by auto
  obtain u' where u': "visit_fold (dt_trunc_agg t) E (\<lparr>dttd_id = aid, dttd_remaining = n\<rparr>, True) ps =
    (0, (u', True), E, drop n (filter (\<lambda>p. of_var t aid (E p)) ps))" using Cons by auto
  show ?case
  proof (cases "of_var t aid (E p)")
    case True
    then show ?thesis using u u' by (cases n) (simp_all add: trunc_agg_step [OF agg] aggwalk_defs)
  next
    case False
    then show ?thesis using u' by (simp add: trunc_agg_step [OF agg])
  qed
qed simp

text \<open>A comparison of entries is one of the pointers to them.\<close>

lemma comparator_ptr:
  assumes "comparator A cmp" and "\<And>p. p \<in> P \<Longrightarrow> \<exists>x \<in> A. ent_at t hs p = Some x"
  shows "comparator P (ptr_cmp t hs cmp)"
proof
  fix a b c r
  assume a: "a \<in> P" and b: "b \<in> P"
  obtain x y where x: "x \<in> A" "ent_at t hs a = Some x" and y: "y \<in> A" "ent_at t hs b = Some y" using assms(2) a b by metis
  show "ptr_cmp t hs cmp a b \<noteq> None" using comparator.returns [OF assms(1) x(1) y(1)] x y by (simp add: ptr_cmp_def)
  show "ptr_cmp t hs cmp a b = Some r \<Longrightarrow> map_option sgn (ptr_cmp t hs cmp b a) = Some (- sgn r)"
    using comparator.opposite [OF assms(1) x(1) y(1)] x y by (simp add: ptr_cmp_def)
  assume c: "c \<in> P"
  then obtain z where z: "z \<in> A" "ent_at t hs c = Some z" using assms(2) by metis
  show "the (ptr_cmp t hs cmp a b) \<le> 0 \<Longrightarrow> the (ptr_cmp t hs cmp b c) \<le> 0 \<Longrightarrow> the (ptr_cmp t hs cmp a c) \<le> 0"
    using comparator.trans [OF assms(1) x(1) y(1) z(1)] x y z by (simp add: ptr_cmp_def)
qed

text \<open>The entries can be compared by value.\<close>

definition val_sortable :: "('f :: linorder) sort_env \<Rightarrow> agg_hash \<Rightarrow> addr list \<Rightarrow> bool" where
  "val_sortable env hs as \<longleftrightarrow> (\<forall>p \<in> set as. case ent_at (so_table env) hs p of
     None \<Rightarrow> False
   | Some x \<Rightarrow> dtagd_varid (fst x) = dtada_desc (snd x) \<and> dtada_desc (snd x) \<noteq> 0 \<and> varval_key (so_ld env) static_opts x \<noteq> None)"

lemma val_sortable_ent:
  "val_sortable env hs as \<Longrightarrow> p \<in> set as \<Longrightarrow>
   \<exists>x \<in> {x \<in> table_ents (so_table env). varval_key (so_ld env) static_opts x \<noteq> None}. ent_at (so_table env) hs p = Some x"
  by (fastforce simp: val_sortable_def ent_at_def table_ents_def split: option.splits bind_splits)

lemmas val_comparator = comparator_ptr [OF varval.comparator_axioms val_sortable_ent]

lemma rev_comparator:
  assumes "val_sortable env hs as"
  shows "comparator (set as) (ptr_cmp (so_table env) hs (dt_aggregate_varvalrevcmp (so_ld env) static_opts))"
proof -
  have "dt_aggregate_varvalrevcmp (so_ld env) static_opts = (\<lambda>a b. dt_aggregate_varvalcmp (so_ld env) static_opts b a)"
    by (intro ext) (simp add: dt_aggregate_varvalrevcmp_def)
  then show ?thesis using comparator_ptr [OF varval.rev val_sortable_ent [OF assms]] by simp
qed

text \<open>The value order of two entries.\<close>

definition val_le :: "('f :: linorder) sort_env \<Rightarrow> agg_hash \<Rightarrow> addr \<Rightarrow> addr \<Rightarrow> bool" where
  "val_le env hs p q \<longleftrightarrow> the (ptr_cmp (so_table env) hs (dt_aggregate_varvalcmp (so_ld env) static_opts) p q) \<le> 0"

lemma filter_not_dropped:
  assumes "distinct ps"
  shows "filter (\<lambda>p. p \<notin> set (drop n (filter P ps))) (filter P ps) = take n (filter P ps)"
proof -
  have "distinct (take n (filter P ps) @ drop n (filter P ps))" using assms by simp
  then have "set (take n (filter P ps)) \<inter> set (drop n (filter P ps)) = {}" by (simp only: distinct_append)
  then have "filter (\<lambda>p. p \<notin> set (drop n (filter P ps))) (take n (filter P ps)) = take n (filter P ps)"
    by (intro filter_True) blast
  moreover have "filter (\<lambda>p. p \<notin> set (drop n (filter P ps))) (drop n (filter P ps)) = []" by (intro filter_False) blast
  ultimately have "filter (\<lambda>p. p \<notin> set (drop n (filter P ps))) (take n (filter P ps) @ drop n (filter P ps)) = take n (filter P ps)"
    by (simp only: filter_append append_Nil2)
  then show ?thesis by (simp only: append_take_drop_id)
qed

lemma trunc_split:
  fixes P :: "'a \<Rightarrow> bool" and n :: nat
  assumes "mset ps = mset as" and "distinct as" and "sorted_wrt R ps"
  defines "rs \<equiv> drop n (filter P ps)"
  shows "length (filter P (filter (\<lambda>p. p \<notin> set rs) as)) = min n (length (filter P as))"
    and "p \<in> set as \<Longrightarrow> \<not> P p \<Longrightarrow> p \<notin> set rs"
    and "p \<in> set as \<Longrightarrow> P p \<Longrightarrow> p \<notin> set rs \<Longrightarrow> q \<in> set rs \<Longrightarrow> R p q"
proof -
  have dist: "distinct ps" "set ps = set as" using assms(2) mset_eq_imp_distinct_iff [OF assms(1)] mset_eq_setD [OF assms(1)] by auto
  have kept: "filter P (filter (\<lambda>p. p \<notin> set rs) ps) = take n (filter P ps)"
    using filter_not_dropped [OF dist(1), of n P] by (simp add: rs_def conj_commute)
  have "mset (filter P (filter (\<lambda>p. p \<notin> set rs) as)) = mset (filter P (filter (\<lambda>p. p \<notin> set rs) ps))" "mset (filter P as) = mset (filter P ps)"
    using assms(1) by simp_all
  then show "length (filter P (filter (\<lambda>p. p \<notin> set rs) as)) = min n (length (filter P as))"
    unfolding kept by (metis length_take min.commute size_mset)
  show "p \<in> set as \<Longrightarrow> \<not> P p \<Longrightarrow> p \<notin> set rs" by (auto simp: rs_def dest: in_set_dropD)
  have "sorted_wrt R (take n (filter P ps) @ drop n (filter P ps))" using assms(3) by (simp add: sorted_wrt_filter)
  then have R: "\<forall>x \<in> set (take n (filter P ps)). \<forall>y \<in> set rs. R x y" unfolding rs_def sorted_wrt_append by blast
  assume "p \<in> set as" "P p" "p \<notin> set rs" "q \<in> set rs"
  then have "p \<in> set (filter P (filter (\<lambda>p. p \<notin> set rs) ps))" using dist(2) by simp
  with R \<open>q \<in> set rs\<close> show "R p q" unfolding kept by blast
qed

lemma trunc_walk:
  assumes qs: "qsort_laws (so_qsort env)" and rep: "ahash_rep hs cs as" and ok: "val_sortable env hs as" and mm: "fst (c_alloc mm) \<noteq> None"
    and cmp: "comparator (set as) (ptr_cmp (so_table env) hs (sfunc static_opts))"
  shows "\<exists>u hs' cs' as'. dt_aggregate_walk_sorted env (dt_trunc_agg (so_table env)) (Some sfunc) hs (\<lparr>dttd_id = aid, dttd_remaining = n\<rparr>, True) mm =
      Some (0, hs', u, True) \<and> ahash_rep hs' cs' as' \<and> subseq as' as \<and> (\<forall>p \<in> set as'. ents hs' p = ents hs p) \<and>
    length (filter (\<lambda>p. of_var (so_table env) aid (the (ents hs p))) as') = min n (length (filter (\<lambda>p. of_var (so_table env) aid (the (ents hs p))) as)) \<and>
    (\<forall>p \<in> set as. \<not> of_var (so_table env) aid (the (ents hs p)) \<longrightarrow> p \<in> set as') \<and>
    (\<forall>p \<in> set as'. \<forall>q \<in> set as - set as'. of_var (so_table env) aid (the (ents hs p)) \<longrightarrow>
       the (ptr_cmp (so_table env) hs (sfunc static_opts) p q) \<le> 0)"
proof -
  let ?E = "\<lambda>p. the (ents hs p)" and ?R = "\<lambda>p q. the (ptr_cmp (so_table env) hs (sfunc static_opts) p q) \<le> 0"
  let ?P = "\<lambda>p. of_var (so_table env) aid (?E p)"
  have are: "ents_are hs as ?E" using ahash_rep_ents [OF rep] by (fastforce simp: ents_are_def)
  have "dt_aggid_lookup (so_table env) (dtada_desc (?E p)) \<noteq> None" if "p \<in> set as" for p
    using val_sortable_ent [OF ok that] by (auto simp: ent_at_def split: bind_splits)
  note look = this
  from walk_sorted_fold [of env _ hs cs as ?E sfunc mm, OF qs keeps_trunc rep are cmp mm] obtain ps where ps: "mset ps = mset as" "sorted_wrt ?R ps"
    "\<forall>r u' E' rs. visit_fold (dt_trunc_agg (so_table env)) ?E (\<lparr>dttd_id = aid, dttd_remaining = n\<rparr>, True) ps = (r, u', E', rs) \<longrightarrow>
       (\<exists>hs' cs'. dt_aggregate_walk_sorted env (dt_trunc_agg (so_table env)) (Some sfunc) hs (\<lparr>dttd_id = aid, dttd_remaining = n\<rparr>, True) mm = Some (r, hs', u') \<and>
          ahash_rep hs' cs' (filter (\<lambda>p. p \<notin> set rs) as) \<and> ents_are hs' (filter (\<lambda>p. p \<notin> set rs) as) E')" by blast
  have dist: "distinct as" using rep by (simp add: ahash_rep_def)
  define rs where "rs = drop n (filter ?P ps)"
  obtain u where "visit_fold (dt_trunc_agg (so_table env)) ?E (\<lparr>dttd_id = aid, dttd_remaining = n\<rparr>, True) ps = (0, (u, True), ?E, rs)"
    using trunc_fold [of ps "so_table env" ?E aid n] look mset_eq_setD [OF ps(1)] by (auto simp: rs_def)
  with ps(3) obtain hs' cs' where w:
    "dt_aggregate_walk_sorted env (dt_trunc_agg (so_table env)) (Some sfunc) hs (\<lparr>dttd_id = aid, dttd_remaining = n\<rparr>, True) mm = Some (0, hs', u, True)"
    "ahash_rep hs' cs' (filter (\<lambda>p. p \<notin> set rs) as)" "ents_are hs' (filter (\<lambda>p. p \<notin> set rs) as) ?E" by blast
  have same: "\<forall>p \<in> set (filter (\<lambda>p. p \<notin> set rs) as). ents hs' p = ents hs p" using w(3) are by (auto simp: ents_are_def)
  show ?thesis
    using w(1,2) same trunc_split [OF ps(1) dist ps(2), where n = n and P = ?P, folded rs_def]
    by (intro exI [of _ u] exI [of _ hs'] exI [of _ cs'] exI [of _ "filter (\<lambda>p. p \<notin> set rs) as"]) simp
qed

section \<open>An implementation of the sort\<close>

fun c_insert :: "('a \<Rightarrow> 'a \<Rightarrow> int option) \<Rightarrow> 'a \<Rightarrow> 'a list \<Rightarrow> 'a list option" where
  "c_insert cmp x [] = Some [x]"
| "c_insert cmp x (y # ys) = do {
     c \<leftarrow> cmp x y;
     if c \<le> 0 then Some (x # y # ys) else map_option ((#) y) (c_insert cmp x ys)
   }"

fun insertion_sort :: "('a \<Rightarrow> 'a \<Rightarrow> int option) \<Rightarrow> 'a list \<Rightarrow> 'a list option" where
  "insertion_sort cmp [] = Some []"
| "insertion_sort cmp (x # xs) = Option.bind (insertion_sort cmp xs) (c_insert cmp x)"

context comparator
begin

lemma insert_sorted:
  "x \<in> A \<Longrightarrow> set ys \<subseteq> A \<Longrightarrow> sorted_wrt (\<lambda>p q. the (cmp p q) \<le> 0) ys \<Longrightarrow>
   \<exists>zs. c_insert cmp x ys = Some zs \<and> mset zs = add_mset x (mset ys) \<and> sorted_wrt (\<lambda>p q. the (cmp p q) \<le> 0) zs"
proof (induction ys)
  case (Cons y ys)
  obtain c where c: "cmp x y = Some c" using returns [of x y] Cons.prems by auto
  show ?case
  proof (cases "c \<le> 0")
    case True
    then have "\<forall>z \<in> set (y # ys). the (cmp x z) \<le> 0" using c trans [of x y] Cons.prems by auto
    with True c Cons.prems show ?thesis by auto
  next
    case False
    obtain zs where zs: "c_insert cmp x ys = Some zs" "mset zs = add_mset x (mset ys)" "sorted_wrt (\<lambda>p q. the (cmp p q) \<le> 0) zs"
      using Cons by auto
    have "set zs = insert x (set ys)" using mset_eq_setD [of zs "x # ys"] zs(2) by simp
    moreover have "the (cmp y x) \<le> 0" using le_total [of x y] c False Cons.prems by auto
    ultimately have "\<forall>z \<in> set zs. the (cmp y z) \<le> 0" using Cons.prems(3) by auto
    with False c zs show ?thesis by auto
  qed
qed simp

lemma insertion_sorted:
  "set xs \<subseteq> A \<Longrightarrow> \<exists>zs. insertion_sort cmp xs = Some zs \<and> mset zs = mset xs \<and> sorted_wrt (\<lambda>p q. the (cmp p q) \<le> 0) zs"
proof (induction xs)
  case (Cons x xs)
  then obtain ys where ys: "insertion_sort cmp xs = Some ys" "mset ys = mset xs" "sorted_wrt (\<lambda>p q. the (cmp p q) \<le> 0) ys" by auto
  have "x \<in> A" "set ys \<subseteq> A" using Cons.prems mset_eq_setD [OF ys(2)] by auto
  from insert_sorted [OF this ys(3)] ys(1,2) show ?case by auto
qed simp

end

lemma insertion_sort_laws: "qsort_laws insertion_sort"
  using comparator.insertion_sorted by (fastforce simp: qsort_laws_def)

section \<open>Properties\<close>

text \<open>
  C6. \<^verbatim>\<open>trunc(@a, n)\<close> keeps the \<open>n\<close> entries of an aggregation with the largest values, and \<^verbatim>\<open>trunc(@a, -n)\<close> those with the smallest:
  for every hash whose entries can be compared it returns without a fault, what it leaves is a well-formed hash with the same entries in
  the same order, all entries of other aggregations are left, exactly \<open>n\<close> entries of the aggregation, or all if there are fewer, and none of
  those has a smaller (or larger) value than one that was removed.
\<close>

theorem trunc_keeps_extremes:
  assumes "qsort_laws (so_qsort env)" and "ahash_rep hs cs as" and "val_sortable env hs as" and "fst (c_alloc mm) \<noteq> None"
    and "dtrd_size rec1 = 4" and "rd_le base (dtrd_offset rec1) 4 = Some aid"
    and "dtrd_action rec2 = DTRACEACT_LIBACT" and "dtrd_arg rec2 = DT_ACT_TRUNC"
    and "trunc_count base rec2 = Some (Some n)" and "- (2 ^ 63) < n"
  shows "\<exists>hs' cs' as'. dt_trunc env hs base (rec1 # rec2 # recs) mm = Some (0, hs') \<and> ahash_rep hs' cs' as' \<and> subseq as' as \<and>
    (\<forall>p \<in> set as'. ents hs' p = ents hs p) \<and>
    length (filter (\<lambda>p. of_var (so_table env) aid (the (ents hs p))) as') =
      min (nat \<bar>n\<bar>) (length (filter (\<lambda>p. of_var (so_table env) aid (the (ents hs p))) as)) \<and>
    (\<forall>p \<in> set as. \<not> of_var (so_table env) aid (the (ents hs p)) \<longrightarrow> p \<in> set as') \<and>
    (\<forall>p \<in> set as'. \<forall>q \<in> set as - set as'. of_var (so_table env) aid (the (ents hs p)) \<longrightarrow>
       (if n < 0 then val_le env hs p q else val_le env hs q p))"
proof -
  let ?f = "if n < 0 then dt_aggregate_varvalcmp (so_ld env) else dt_aggregate_varvalrevcmp (so_ld env)"
  have rev: "ptr_cmp (so_table env) hs (dt_aggregate_varvalrevcmp (so_ld env) static_opts) p q =
      ptr_cmp (so_table env) hs (dt_aggregate_varvalcmp (so_ld env) static_opts) q p" for p q
    by (auto simp: ptr_cmp_def dt_aggregate_varvalrevcmp_def split: bind_splits)
  have trunc: "dt_trunc env hs base (rec1 # rec2 # recs) mm = Some (0, hs')"
    if "dt_aggregate_walk_sorted env (dt_trunc_agg (so_table env)) (Some ?f) hs (\<lparr>dttd_id = aid, dttd_remaining = nat \<bar>n\<bar>\<rparr>, True) mm = Some (0, hs', u, True)" for hs' u
    using that assms(5-10)
    by (cases "n < 0") (simp_all add: dt_trunc_def dtrace_aggregate_walk_valsorted_def dtrace_aggregate_walk_valrevsorted_def)
  have "comparator (set as) (ptr_cmp (so_table env) hs (?f static_opts))"
    using val_comparator [OF assms(3)] rev_comparator [OF assms(3)] by simp
  from trunc_walk [where sfunc = ?f, OF assms(1-4) this, of aid "nat \<bar>n\<bar>"] show ?thesis using trunc by (cases "n < 0") (auto simp: val_le_def rev)
qed

text \<open>Two entries of a sum, of which the larger is kept.\<close>

definition demo_sorted :: agg_hash where
  "demo_sorted = \<lparr>ents = [1 \<mapsto> demo_ent 1 [5] [3], 2 \<mapsto> demo_ent 1 [4] [7]],
     hlinks = [1 \<mapsto> \<lparr>lk_prev = None, lk_next = Some 2\<rparr>, 2 \<mapsto> \<lparr>lk_prev = Some 1, lk_next = None\<rparr>],
     alinks = [1 \<mapsto> \<lparr>lk_prev = Some 2, lk_next = None\<rparr>, 2 \<mapsto> \<lparr>lk_prev = None, lk_next = Some 1\<rparr>],
     dtah_hash = [Some 1], dtah_all = Some 2, aggmaps = []\<rparr>"

definition demo_sort_env :: "int sort_env" where
  "demo_sort_env = \<lparr>so_ld = demo_ld, so_qsort = insertion_sort, so_options = \<lparr>aggsortrev = False, aggsortkey = False, aggsortkeypos = None\<rparr>,
     so_table = \<lparr>dt_adesc = [None, Some (demo_desc 1 0 1 DT_AGG_COUNT)], dt_maxaggdsize = 16\<rparr>, so_mts = 16\<rparr>"

lemma demo_sorted_key:
  "varval_key demo_ld static_opts (demo_desc 1 0 1 DT_AGG_COUNT, demo_ent 1 [k] [v]) =
     Some (1, (2, [(0, 4), (8, 1)], DT_AGG_COUNT, 0, sint v), 2, [(1, [unat k])])"
  by (simp add: demo_data_defs varval_key_def ent_val_def ent_layout_def rd_words_def value_key_def rd64_def ent_key_def key_ndx_def
    keyrec_key_def rd_le_def rd_bytes_def Let_def upt_rec [of _ 2] static_opts_def)

lemma demo_sorted_at:
  "ent_at (so_table demo_sort_env) demo_sorted 1 = Some (demo_desc 1 0 1 DT_AGG_COUNT, demo_ent 1 [5] [3])"
  "ent_at (so_table demo_sort_env) demo_sorted 2 = Some (demo_desc 1 0 1 DT_AGG_COUNT, demo_ent 1 [4] [7])"
  by (simp_all add: ent_at_def demo_sort_env_def demo_sorted_def dt_aggid_lookup_def demo_ent_def)

lemma demo_sorted_rep: "ahash_rep demo_sorted [[1, 2]] [2, 1]"
  by (auto simp: ahash_rep_def demo_sorted_def)

lemma demo_sorted_ok: "val_sortable demo_sort_env demo_sorted [2, 1]"
proof -
  have "dtagd_varid (demo_desc 1 0 1 DT_AGG_COUNT) = 1" "dtada_desc (demo_ent 1 k v) = 1" for k v by (simp_all add: demo_desc_def demo_ent_def)
  moreover have "so_ld demo_sort_env = demo_ld" by (simp add: demo_sort_env_def)
  ultimately show ?thesis by (simp add: val_sortable_def demo_sorted_at demo_sorted_key del: One_nat_def)
qed

lemma demo_sorted_less: "\<not> val_le demo_sort_env demo_sorted 2 1"
proof -
  have "(demo_desc 1 0 1 DT_AGG_COUNT, demo_ent 1 k v) \<in> table_ents (so_table demo_sort_env)" for k v
    by (simp add: demo_data_defs demo_sort_env_def)
  from varvalcmp_key [OF this this demo_sorted_key demo_sorted_key, of 4 7 5 3]
  have "dt_aggregate_varvalcmp demo_ld static_opts (demo_desc 1 0 1 DT_AGG_COUNT, demo_ent 1 [4] [7]) (demo_desc 1 0 1 DT_AGG_COUNT, demo_ent 1 [5] [3]) = Some 1"
    by (simp add: cmp_vals_def DT_GREATERTHAN_def static_opts_def)
  moreover have "so_ld demo_sort_env = demo_ld" by (simp add: demo_sort_env_def)
  ultimately show ?thesis by (simp add: val_le_def ptr_cmp_def demo_sorted_at del: One_nat_def)
qed

theorem trunc_keeps_extremes_witness:
  "\<exists>hs' cs'. dt_trunc demo_sort_env demo_sorted [1, 0, 0, 0, 1] [demo_rec 0 4 0, (demo_rec DTRACEACT_LIBACT 1 4)\<lparr>dtrd_arg := DT_ACT_TRUNC\<rparr>] [Some 9] =
     Some (0, hs') \<and> ahash_rep hs' cs' [2] \<and> ents hs' 2 = Some (demo_ent 1 [4] [7])"
proof -
  have qs: "qsort_laws (so_qsort demo_sort_env)" by (simp add: demo_sort_env_def insertion_sort_laws)
  have var: "of_var (so_table demo_sort_env) 1 (the (ents demo_sorted p))" if "p \<in> {1, 2}" for p
    using that by (auto simp: of_var_def demo_sort_env_def demo_sorted_def dt_aggid_lookup_def demo_ent_def demo_desc_def)
  have rd: "rd_le [1, 0, 0, 0, 1] (dtrd_offset (demo_rec 0 4 0)) 4 = Some 1" by (simp add: rd_le_def rd_bytes_def demo_rec_def)
  have count: "trunc_count [1, 0, 0, 0, 1] ((demo_rec DTRACEACT_LIBACT 1 4)\<lparr>dtrd_arg := DT_ACT_TRUNC\<rparr>) = Some (Some 1)"
    by (simp add: trunc_count_def rd_le_def rd_bytes_def demo_rec_def)
  from trunc_keeps_extremes [OF qs demo_sorted_rep demo_sorted_ok _ _ rd _ _ count, of "[Some 9]" "[]"] obtain hs' cs' as' where
    t: "dt_trunc demo_sort_env demo_sorted [1, 0, 0, 0, 1] [demo_rec 0 4 0, (demo_rec DTRACEACT_LIBACT 1 4)\<lparr>dtrd_arg := DT_ACT_TRUNC\<rparr>] [Some 9] = Some (0, hs')"
      "ahash_rep hs' cs' as'" "subseq as' [2, 1]" "\<forall>p \<in> set as'. ents hs' p = ents demo_sorted p"
      "length (filter (\<lambda>p. of_var (so_table demo_sort_env) 1 (the (ents demo_sorted p))) as') =
        min (nat \<bar>1\<bar>) (length (filter (\<lambda>p. of_var (so_table demo_sort_env) 1 (the (ents demo_sorted p))) [2, 1]))"
      "\<forall>p \<in> set as'. \<forall>q \<in> set [2, 1] - set as'. of_var (so_table demo_sort_env) 1 (the (ents demo_sorted p)) \<longrightarrow>
        (if (1 :: int) < 0 then val_le demo_sort_env demo_sorted p q else val_le demo_sort_env demo_sorted q p)"
    by (auto simp: demo_rec_def)
  consider "as' = [2, 1]" | "as' = [2]" | "as' = [1]" | "as' = []"
    using t(3) by (auto elim: list_emb.cases)
  then have "as' = [2]" using t(5,6) var demo_sorted_less by cases auto
  with t(1,2,4) show ?thesis by (auto simp: demo_sorted_def)
qed

end
