(* ===== verification/Spec2Isabelle.thy ===== *)
theory Spec2Isabelle
  imports DtList ProbeHash Regset Strings Version Buf Strtab Rodata Speculation AggSnap AggSort
begin

text \<open>
  DTrace for Linux compiles programs in the D language to BPF, attaches them to probes and consumes what they record.  Its
  parts, under \<^verbatim>\<open>src/\<close>, are the compiler and consumer library (\<^verbatim>\<open>libdtrace\<close>), code it shares with the daemon for static probes
  (\<^verbatim>\<open>libcommon\<close>, \<^verbatim>\<open>dtprobed\<close>), routines that are linked into every probe program (\<^verbatim>\<open>bpf\<close>), process control (\<^verbatim>\<open>libproc\<close>),
  replacements for system functions (\<^verbatim>\<open>libport\<close>) and the command (\<^verbatim>\<open>cmd\<close>).  This development models the parts that are data structures
  and algorithms of their own and proves them correct; the theorems that are stated for a reader of the code have the numbers C1 to C40.

  \<^bold>\<open>Conventions.\<close>  A function of the code is a function here, with the state it changes as an argument and as part of the result.
  A result \<^term>\<open>None\<close> is a fault: a null or dangling pointer, an access out of bounds, undefined arithmetic, a failed assertion, or
  a loop that never ends (such loops are \<^verbatim>\<open>partial_function (option)\<close>, so that they return is a theorem).  Errors that the code
  reports are values.  The outcomes of memory allocation are an argument, the list \<^verbatim>\<open>allocs\<close>, so theorems hold wherever memory runs out.  Pointers
  are addresses (Prelude: \<^verbatim>\<open>links\<close>, \<^verbatim>\<open>seg\<close> for doubly linked nodes in a store), machine integers are words, strings are
  lists of bytes.  There is no fuel.  Code outside the repository is an argument with stated laws: the BPF map helpers
  (\<^verbatim>\<open>bpf_map_ops\<close>, \<^verbatim>\<open>bpf_map_laws\<close>), \<^verbatim>\<open>qsort\<close> (\<^verbatim>\<open>qsort_laws\<close>), arithmetic on \<^verbatim>\<open>long double\<close> (\<^verbatim>\<open>ld_ops\<close>, over any linear order), symbol lookup
  (\<^verbatim>\<open>sym_ops\<close>), the formatting of a record (\<^verbatim>\<open>emitter\<close>).

  \<^bold>\<open>Containers.\<close>
  \<^item> DtList: \<^verbatim>\<open>libcommon/dt_list.c\<close>, every operation in the order of its assignments; each refines the operation on lists.
  \<^item> Htab, Htab_Laws, ProbeHash: \<^verbatim>\<open>libcommon/dt_htab.c\<close>, with the link functions of \<^verbatim>\<open>dt_htab.h\<close>.  The locale \<^verbatim>\<open>htab_client\<close> is what the
    table relies on (the hash of equal entries, the chain functions), and has the proofs of insertion, resizing, lookup, deletion, iteration and
    destruction; \<^verbatim>\<open>htab_keys\<close> gives it for clients that use the generated link functions, and is interpreted on the probe hashes of
    \<^verbatim>\<open>libdtrace/dt_probe.c\<close> (\<^verbatim>\<open>fqn\<close>, \<^verbatim>\<open>id\<close>).  C9 to C13: the table of probes by name behaves as a set of probes, whatever its
    size, also when a resize or an allocation fails; iteration gives every entry once; destruction ends and deletes all.
  \<^item> Buf: \<^verbatim>\<open>libdtrace/dt_buf.c\<close> (C29 to C31).  Chunks, Strtab, Rodata: \<^verbatim>\<open>libdtrace/dt_strtab.c\<close> and \<^verbatim>\<open>dt_rodata.c\<close> over their common
    chunked storage with bytes that are not written yet; the locale \<^verbatim>\<open>interning\<close> is the contract of both, interpreted on each (C15 to C17, C32).
  \<^item> Strings, Version: \<^verbatim>\<open>libdtrace/dt_string.c\<close> and \<^verbatim>\<open>dt_version.c\<close> over byte lists (C25 to C28, C33).

  \<^bold>\<open>Compiler.\<close>
  \<^item> Regset: \<^verbatim>\<open>libdtrace/dt_regset.c\<close> on the bitmaps of \<^verbatim>\<open>include/sys/bitmap.h\<close>, with the spill instructions that the callbacks
    emit and a machine that runs them.  C18: any well-bracketed use of the allocator computes what unlimited registers would; C19, C20: the arguments
    of a call, and every outcome of an allocation.

  \<^bold>\<open>Probe programs.\<close>
  \<^item> BpfRuntime: \<^verbatim>\<open>bpf/agg_qbin.c\<close>, \<^verbatim>\<open>agg_lqbin.c\<close>, \<^verbatim>\<open>get_agg.c\<close>, \<^verbatim>\<open>get_dvar.c\<close>, \<^verbatim>\<open>strlen.c\<close>, \<^verbatim>\<open>probe_error.c\<close>.  C21 to C24: buckets contain their
    values, thread-local variables of different threads are apart, data of an old generation is cleared before use.
  \<^item> Speculation: \<^verbatim>\<open>bpf/speculation.c\<close> and the speculation code of \<^verbatim>\<open>libdtrace/dt_consume.c\<close> as one transition system \<^verbatim>\<open>spec_step\<close>, in which producers on
    all CPUs and the consumer interleave and records can be lost.  C1: an identifier that is free has no data anywhere; C2: what is complete
    is drained and freed; C3, C35: exactly when the consumer fails an assertion, and that it can; C36, C37: identifiers that are never freed.

  \<^bold>\<open>Aggregations in the consumer.\<close>
  \<^item> Arith128: the 128-bit arithmetic of \<^verbatim>\<open>libdtrace/dt_consume.c\<close>; C14: \<^verbatim>\<open>dt_stddev\<close> is the integer square root of the variance; C34: a shift that loses bits.
  \<^item> AggData: descriptions (\<^verbatim>\<open>libdtrace/dt_map.c\<close>) and the comparison functions of \<^verbatim>\<open>libdtrace/dt_aggregate.c\<close>.  The locale \<^verbatim>\<open>comparator\<close> is what \<^verbatim>\<open>qsort\<close>
    requires; it is interpreted on the two default comparisons.  C4: the default order is the lexicographic order of keys; C38, C39: where comparisons fail.
  \<^item> AggHash: entries on a hash chain and on the list of all entries; C5: a walk is a fold, also when it removes entries.
  \<^item> AggSort: sorted walks and \<^verbatim>\<open>dt_trunc\<close>; C6: truncation keeps the largest or smallest entries.
  \<^item> AggSnap: \<^verbatim>\<open>dtrace_aggregate_snap\<close>, clearing and \<^verbatim>\<open>dt_clear\<close>.  The invariant \<^verbatim>\<open>agg_inv\<close> is kept by every operation; C7: after a snapshot the entries have the totals
    of the current data of all CPUs; C8: the descriptions that \<^verbatim>\<open>dt_aggid_add\<close> and \<^verbatim>\<open>dt_aggid_rec_add\<close> build are those the snapshot needs; C40: data from before
    \<^verbatim>\<open>clear()\<close> can be reported.

  \<^bold>\<open>How the parts meet.\<close>  Probe programs find the storage of an aggregation with \<^verbatim>\<open>dt_get_agg\<close> (BpfRuntime) and choose buckets with
  \<^verbatim>\<open>dt_agg_qbin\<close> and \<^verbatim>\<open>dt_agg_lqbin\<close>; AggSnap reads what they stored, by key and generation, and AggSort and AggData order it; Arith128
  computes the values of \<^verbatim>\<open>stddev()\<close> that are compared.  The record of a speculation in the kernel is a BPF map with the same laws.  The hash of probes
  is the table of Htab, and the string table and the read-only data are filled by the compiler from which Regset takes its requests.

  \<^bold>\<open>Not modelled.\<close>
  \<^item> The D lexer, parser and type checker, translators, pragmas and modules: automata generated by the build, and types that live in libctf.
  \<^item> The code generator, assembler, linker and loader: their correctness is a statement on a semantics of D and of BPF, and the repository has
    neither.  For the same reason the routines of \<^verbatim>\<open>bpf/*.S\<close> are left out; \<^verbatim>\<open>bpf/get_bvar.c\<close> returns values of kernel helpers.
  \<^item> Providers, processes, \<^verbatim>\<open>libproc\<close>, \<^verbatim>\<open>dtprobed\<close>, the parsers of static probes and the commands: their state is in the kernel, in files and in other processes.
  \<^item> Reading of perf buffers and printing of records in \<^verbatim>\<open>dt_consume.c\<close>, \<^verbatim>\<open>dt_printf.c\<close>: formats of the C library.
  \<^item> The joined walk \<^verbatim>\<open>dtrace_aggregate_walk_joined\<close>: bundles of entries made for a callback that prints them.
  \<^item> Functions that only free memory or print, locks (\<^verbatim>\<open>dt_qsort_lock\<close>) and \<^verbatim>\<open>errno\<close>.
\<close>

end
